(* ===== verification/Prelude.thy ===== *)
theory Prelude
  imports Main "HOL-Library.Word" "HOL-Library.AList"
begin

text \<open>
  Shared vocabulary of the development: the exceptions of \<open>errors.h\<close> as values, the sequencing of
  computations that may throw, and the generic lemmas on lists and association lists that the
  component theories use.  Nothing here is specific to one component.
\<close>

section \<open>Machine types\<close>

type_synonym u64 = "64 word"
type_synonym u32 = "32 word"

section \<open>Exceptions as values\<close>

text \<open>
  \<open>errors.h\<close>: \<open>Error\<close> is the base class; \<open>WrongTypeError\<close> and \<open>WrongArityError\<close> derive from it.
  \<open>JsonException\<close> stands for \<open>nlohmann::json::exception\<close> and \<open>StdException\<close> for every other
  \<open>std::exception\<close> (thrown by the standard library or by \<open>inja\<close>); both carry their \<open>what()\<close>.
  \<open>Undefined\<close> is C++ undefined behaviour, \<open>Abort\<close> the end of the process and \<open>Blocked\<close> a wait
  that nothing ends: these are no exceptions, no handler of the source catches them.
\<close>

datatype exn =
    Error string
  | WrongTypeError string
  | WrongArityError
  | JsonException string
  | StdException string
  | Undefined
  | Abort
  | Blocked

type_synonym 'a res = "exn + 'a"

text \<open>\<open>what()\<close> of the exception classes.\<close>

fun what :: "exn \<Rightarrow> string" where
  "what (Error m) = m"
| "what (WrongTypeError m) = m"
| "what WrongArityError = ''WrongArity''"
| "what (JsonException m) = m"
| "what (StdException m) = m"
| "what Undefined = []"
| "what Abort = []"
| "what Blocked = []"

text \<open>Which handler catches what: \<open>catch (const Error &)\<close>, \<open>catch (const json::exception &)\<close>
  and \<open>catch (const std::exception &)\<close>.\<close>

fun is_Error :: "exn \<Rightarrow> bool" where
  "is_Error (Error m) = True"
| "is_Error (WrongTypeError m) = True"
| "is_Error WrongArityError = True"
| "is_Error _ = False"

fun is_JsonException :: "exn \<Rightarrow> bool" where
  "is_JsonException (JsonException m) = True"
| "is_JsonException _ = False"

fun is_StdException :: "exn \<Rightarrow> bool" where
  "is_StdException Undefined = False"
| "is_StdException Abort = False"
| "is_StdException Blocked = False"
| "is_StdException _ = True"

lemma is_Error_is_StdException [simp]: "is_Error e \<Longrightarrow> is_StdException e"
  by (cases e) auto

section \<open>Sequencing\<close>

text \<open>\<open>bindR m f\<close>: run \<open>m\<close>; an exception skips \<open>f\<close>, a value is passed to it.\<close>

definition bindR :: "'a res \<Rightarrow> ('a \<Rightarrow> 'b res) \<Rightarrow> 'b res" where
  "bindR m f = (case m of Inl e \<Rightarrow> Inl e | Inr x \<Rightarrow> f x)"

text \<open>\<open>try { m } catch (C &e) { throw h(e); }\<close>, with \<open>C\<close> given as a predicate on exceptions.\<close>

definition catchR :: "(exn \<Rightarrow> bool) \<Rightarrow> 'a res \<Rightarrow> (exn \<Rightarrow> 'a res) \<Rightarrow> 'a res" where
  "catchR C m h = (case m of Inl e \<Rightarrow> (if C e then h e else Inl e) | Inr x \<Rightarrow> Inr x)"

text \<open>A loop over a list that stops at the first exception.\<close>

fun mapR :: "('a \<Rightarrow> 'b res) \<Rightarrow> 'a list \<Rightarrow> 'b list res" where
  "mapR f [] = Inr []"
| "mapR f (x # xs) = bindR (f x) (\<lambda>y. bindR (mapR f xs) (\<lambda>ys. Inr (y # ys)))"

named_theorems bind_defs

lemma bindR_simps [simp]:
  "bindR (Inl e) f = Inl e"
  "bindR (Inr x) f = f x"
  by (simp_all add: bindR_def)

lemma catchR_simps [simp]:
  "catchR C (Inr x) h = Inr x"
  "catchR C (Inl e) h = (if C e then h e else Inl e)"
  by (simp_all add: catchR_def)

lemma bindR_eq_Inr [simp]: "bindR m f = Inr y \<longleftrightarrow> (\<exists>x. m = Inr x \<and> f x = Inr y)"
  by (cases m) simp_all

lemma bindR_eq_Inl: "bindR m f = Inl e \<longleftrightarrow> m = Inl e \<or> (\<exists>x. m = Inr x \<and> f x = Inl e)"
  by (cases m) simp_all

lemma bindR_assoc: "bindR (bindR m f) g = bindR m (\<lambda>x. bindR (f x) g)"
  by (cases m) simp_all

lemma bindR_cong [fundef_cong]:
  "m = m' \<Longrightarrow> (\<And>x. m' = Inr x \<Longrightarrow> f x = f' x) \<Longrightarrow> bindR m f = bindR m' f'"
  by (cases m') simp_all

lemma catchR_eq_Inr: "catchR C m h = Inr x \<Longrightarrow> (\<And>e y. h e \<noteq> Inr y) \<Longrightarrow> m = Inr x"
  by (cases m) (auto split: if_splits)

lemma mapR_length: "mapR f xs = Inr ys \<Longrightarrow> length ys = length xs"
  by (induction xs arbitrary: ys) auto

lemma mapR_nth: "mapR f xs = Inr ys \<Longrightarrow> i < length xs \<Longrightarrow> f (xs ! i) = Inr (ys ! i)"
  by (induction xs arbitrary: ys i) (auto simp: nth_Cons split: nat.splits)

lemma mapR_Inr: "(\<And>x. x \<in> set xs \<Longrightarrow> f x = Inr (g x)) \<Longrightarrow> mapR f xs = Inr (map g xs)"
  by (induction xs) auto

lemma mapR_append:
  "mapR f (xs @ ys) = bindR (mapR f xs) (\<lambda>us. bindR (mapR f ys) (\<lambda>vs. Inr (us @ vs)))"
  by (induction xs) (auto simp: bindR_assoc, cases "mapR f ys", auto)

lemma mapR_map: "mapR f (map g xs) = mapR (\<lambda>x. f (g x)) xs"
  by (induction xs) auto

lemma mapR_cong [fundef_cong]:
  "xs = ys \<Longrightarrow> (\<And>x. x \<in> set ys \<Longrightarrow> f x = g x) \<Longrightarrow> mapR f xs = mapR g ys"
  by (induction ys arbitrary: xs) auto

text \<open>\<open>fails E m\<close>: what \<open>m\<close> throws satisfies \<open>E\<close>.\<close>

definition fails :: "(exn \<Rightarrow> bool) \<Rightarrow> 'a res \<Rightarrow> bool" where
  "fails E m \<longleftrightarrow> (\<forall>e. m = Inl e \<longrightarrow> E e)"

named_theorems fails_intros

lemma failsD: "fails E m \<Longrightarrow> m = Inl e \<Longrightarrow> E e"
  by (simp add: fails_def)

lemma fails_weaken: "fails E m \<Longrightarrow> (\<And>e. E e \<Longrightarrow> E' e) \<Longrightarrow> fails E' m"
  by (simp add: fails_def)

lemma fails_values [fails_intros]: "fails E (Inr x)" "E e \<Longrightarrow> fails E (Inl e)"
  by (simp_all add: fails_def)

lemma fails_bindR [fails_intros]: "fails E m \<Longrightarrow> (\<And>x. fails E (f x)) \<Longrightarrow> fails E (bindR m f)"
  by (cases m) (simp_all add: fails_def)

lemma fails_if [fails_intros]: "(c \<Longrightarrow> fails E m) \<Longrightarrow> (\<not> c \<Longrightarrow> fails E n) \<Longrightarrow> fails E (if c then m else n)"
  by simp

lemma fails_option [fails_intros]:
  "(x = None \<Longrightarrow> fails E m) \<Longrightarrow> (\<And>y. x = Some y \<Longrightarrow> fails E (f y)) \<Longrightarrow> fails E (case x of None \<Rightarrow> m | Some y \<Rightarrow> f y)"
  by (cases x) simp_all

lemma fails_pair [fails_intros]: "(\<And>x y. fails E (f x y)) \<Longrightarrow> fails E (case p of (x, y) \<Rightarrow> f x y)"
  by (cases p) simp

lemma fails_catchR:
  "fails E m \<Longrightarrow> (\<And>e. E e \<Longrightarrow> C e \<Longrightarrow> fails E' (h e)) \<Longrightarrow> (\<And>e. E e \<Longrightarrow> \<not> C e \<Longrightarrow> E' e) \<Longrightarrow>
     fails E' (catchR C m h)"
  by (cases m) (auto simp: fails_def)

lemma fails_mapR [fails_intros]: "(\<And>x. x \<in> set xs \<Longrightarrow> fails E (f x)) \<Longrightarrow> fails E (mapR f xs)"
  by (induction xs) (auto intro!: fails_values fails_bindR)

section \<open>Sequencing with a state\<close>

text \<open>
  An action may throw and changes a state; what it changed before it threw stays changed.  \<open>bindS\<close>,
  \<open>catchS\<close> and \<open>liftR\<close> are the sequencing, the handler and a computation that leaves the state alone.
\<close>

type_synonym ('s, 'a) act = "'s \<Rightarrow> 'a res \<times> 's"

definition returnS :: "'a \<Rightarrow> ('s, 'a) act" where
  "returnS x s = (Inr x, s)"

definition throwS :: "exn \<Rightarrow> ('s, 'a) act" where
  "throwS e s = (Inl e, s)"

definition liftR :: "'a res \<Rightarrow> ('s, 'a) act" where
  "liftR r s = (r, s)"

definition bindS :: "('s, 'a) act \<Rightarrow> ('a \<Rightarrow> ('s, 'b) act) \<Rightarrow> ('s, 'b) act" where
  "bindS m f s = (case m s of (Inl e, s1) \<Rightarrow> (Inl e, s1) | (Inr x, s1) \<Rightarrow> f x s1)"

definition catchS :: "(exn \<Rightarrow> bool) \<Rightarrow> ('s, 'a) act \<Rightarrow> (exn \<Rightarrow> ('s, 'a) act) \<Rightarrow> ('s, 'a) act" where
  "catchS C m h s = (case m s of (Inl e, s1) \<Rightarrow> (if C e then h e s1 else (Inl e, s1)) | (Inr x, s1) \<Rightarrow> (Inr x, s1))"

definition getS :: "('s \<Rightarrow> 'a) \<Rightarrow> ('s, 'a) act" where
  "getS f s = (Inr (f s), s)"

definition modifyS :: "('s \<Rightarrow> 's) \<Rightarrow> ('s, unit) act" where
  "modifyS f s = (Inr (), f s)"

lemma act_simps [simp]:
  "returnS x s = (Inr x, s)" "throwS e s = (Inl e, s)" "liftR r s = (r, s)"
  "getS g s = (Inr (g s), s)" "modifyS u s = (Inr (), u s)"
  by (simp_all add: returnS_def throwS_def liftR_def getS_def modifyS_def)

lemma bindS_eval [simp]:
  "m s = (Inl e, s1) \<Longrightarrow> bindS m f s = (Inl e, s1)"
  "m s = (Inr x, s1) \<Longrightarrow> bindS m f s = f x s1"
  by (simp_all add: bindS_def)

lemma bindS_Inr_cases [consumes 1, case_names step]:
  assumes "bindS m f s = (Inr y, s2)"
  obtains x s1 where "m s = (Inr x, s1)" and "f x s1 = (Inr y, s2)"
  using assms by (auto simp: bindS_def split: prod.splits sum.splits)

lemma bindS_cases [consumes 1, case_names throw step]:
  assumes "bindS m f s = (r, s2)"
  obtains e where "m s = (Inl e, s2)" and "r = Inl e"
    | x s1 where "m s = (Inr x, s1)" and "f x s1 = (r, s2)"
  using assms by (auto simp: bindS_def split: prod.splits sum.splits)

lemma catchS_eval [simp]:
  "m s = (Inr x, s1) \<Longrightarrow> catchS C m h s = (Inr x, s1)"
  "m s = (Inl e, s1) \<Longrightarrow> catchS C m h s = (if C e then h e s1 else (Inl e, s1))"
  by (simp_all add: catchS_def)

text \<open>
  \<open>obeys E P m\<close>: from a state with \<open>P\<close> the action \<open>m\<close> ends in a state with \<open>P\<close>, and what it throws satisfies \<open>E\<close>.
\<close>

definition obeys :: "(exn \<Rightarrow> bool) \<Rightarrow> ('s \<Rightarrow> bool) \<Rightarrow> ('s, 'a) act \<Rightarrow> bool" where
  "obeys E P m \<longleftrightarrow> (\<forall>s r s'. P s \<longrightarrow> m s = (r, s') \<longrightarrow> P s' \<and> (\<forall>e. r = Inl e \<longrightarrow> E e))"

named_theorems obeys_intros

lemma obeysI:
  "(\<And>s r s'. P s \<Longrightarrow> m s = (r, s') \<Longrightarrow> P s' \<and> (\<forall>e. r = Inl e \<longrightarrow> E e)) \<Longrightarrow> obeys E P m"
  by (auto simp: obeys_def)

lemma obeys_state: "obeys E P m \<Longrightarrow> P s \<Longrightarrow> m s = (r, s') \<Longrightarrow> P s'"
  by (auto simp: obeys_def)

lemma obeys_throws: "obeys E P m \<Longrightarrow> P s \<Longrightarrow> m s = (Inl e, s') \<Longrightarrow> E e"
  by (auto simp: obeys_def)

lemma obeys_weaken: "obeys E P m \<Longrightarrow> (\<And>e. E e \<Longrightarrow> E' e) \<Longrightarrow> obeys E' P m"
  by (auto simp: obeys_def)

lemma obeys_pure [obeys_intros]:
  "obeys E P (returnS x)" "E e \<Longrightarrow> obeys E P (throwS e)" "obeys E P (getS g)"
  by (auto simp: obeys_def)

lemma obeys_liftR [obeys_intros]: "fails E r \<Longrightarrow> obeys E P (liftR r)"
  by (auto simp: obeys_def fails_def)

lemma obeys_if [obeys_intros]: "(c \<Longrightarrow> obeys E P m) \<Longrightarrow> (\<not> c \<Longrightarrow> obeys E P n) \<Longrightarrow> obeys E P (if c then m else n)"
  by simp

lemma obeys_modifyS [obeys_intros]: "(\<And>s. P s \<Longrightarrow> P (u s)) \<Longrightarrow> obeys E P (modifyS u)"
  by (auto simp: obeys_def)

lemma obeys_bindS [obeys_intros]:
  assumes "obeys E P m" and "\<And>x. obeys E P (f x)"
  shows "obeys E P (bindS m f)"
proof (rule obeysI)
  fix s r s' assume "P s" and "bindS m f s = (r, s')"
  from this(2) show "P s' \<and> (\<forall>e. r = Inl e \<longrightarrow> E e)"
  proof (cases rule: bindS_cases)
    case (throw e)
    then show ?thesis using assms(1) \<open>P s\<close> by (auto simp: obeys_def)
  next
    case (step x s1)
    then have "P s1" using obeys_state [OF assms(1)] \<open>P s\<close> by blast
    then show ?thesis using assms(2) [of x] step(2) by (auto simp: obeys_def)
  qed
qed

lemma obeys_catchS:
  assumes "obeys E P m" and "\<And>e. E e \<Longrightarrow> C e \<Longrightarrow> obeys E' P (h e)" and "\<And>e. E e \<Longrightarrow> \<not> C e \<Longrightarrow> E' e"
  shows "obeys E' P (catchS C m h)"
proof (rule obeysI)
  fix s r s' assume P: "P s" and c: "catchS C m h s = (r, s')"
  obtain r1 s1 where m: "m s = (r1, s1)" by force
  have "P s1" using obeys_state [OF assms(1) P m] .
  show "P s' \<and> (\<forall>e. r = Inl e \<longrightarrow> E' e)"
  proof (cases r1)
    case (Inl e)
    then have "E e" using obeys_throws [OF assms(1) P] m by simp
    then show ?thesis using assms(2) [of e] assms(3) [of e] c m Inl \<open>P s1\<close> by (cases "C e") (auto simp: obeys_def)
  next
    case (Inr x)
    then show ?thesis using c m \<open>P s1\<close> by auto
  qed
qed

section \<open>Association lists with distinct keys\<close>

text \<open>
  \<open>std::unordered_map\<close> is an association list with distinct keys; the order of the list is the
  iteration order, which the standard leaves unspecified: theorems hold for every order.
\<close>

abbreviation keys :: "('k \<times> 'v) list \<Rightarrow> 'k list" where
  "keys m \<equiv> map fst m"

lemma distinct_keys_update [intro]: "distinct (keys m) \<Longrightarrow> distinct (keys (AList.update k v m))"
  by (rule distinct_update)

lemma distinct_keys_delete [intro]: "distinct (keys m) \<Longrightarrow> distinct (keys (AList.delete k m))"
  by (rule distinct_delete)

lemma map_of_update [simp]: "map_of (AList.update k v m) = (map_of m)(k \<mapsto> v)"
  by (rule update_conv')

lemma map_of_delete [simp]: "map_of (AList.delete k m) = (map_of m)(k := None)"
  by (rule delete_conv')

lemma length_update_new: "map_of m k = None \<Longrightarrow> length (AList.update k v m) = Suc (length m)"
  by (induction m) (auto split: if_splits)

lemma length_update_old: "map_of m k = Some u \<Longrightarrow> length (AList.update k v m) = length m"
  by (induction m) (auto split: if_splits)

lemma delete_absent: "map_of m k = None \<Longrightarrow> AList.delete k m = m"
  by (simp add: delete_id map_of_eq_None_iff)

lemma length_delete_old:
  "distinct (keys m) \<Longrightarrow> map_of m k = Some u \<Longrightarrow> Suc (length (AList.delete k m)) = length m"
proof (induction m)
  case Nil
  then show ?case by simp
next
  case (Cons p m)
  then show ?case
    by (cases "fst p = k") (auto simp: delete_id)
qed

lemma length_eq_card_dom: "distinct (keys m) \<Longrightarrow> length m = card (dom (map_of m))"
  by (metis distinct_card dom_map_of_conv_image_fst length_map list.set_map)

end
