(* ===== verification/Cxx_Std.thy ===== *)
theory Cxx_Std
  imports Prelude
begin

text \<open>
  The part of the C++ standard library (libstdc++ over glibc, C locale, LP64) that the program calls
  on strings and integers: character classes, \<open>std::stoul\<close>, \<open>std::to_string(unsigned long)\<close>.
  \<open>std::string\<close> is a list of bytes (\<open>char list\<close>).
\<close>

section \<open>Characters\<close>

definition byte :: "char \<Rightarrow> nat" where
  "byte c = of_char c"

definition isspace :: "char \<Rightarrow> bool" where
  "isspace c \<longleftrightarrow> byte c = 32 \<or> (9 \<le> byte c \<and> byte c \<le> 13)"

definition isdigit :: "char \<Rightarrow> bool" where
  "isdigit c \<longleftrightarrow> 48 \<le> byte c \<and> byte c \<le> 57"

definition digit_val :: "char \<Rightarrow> nat" where
  "digit_val c = byte c - 48"

definition digit_char :: "nat \<Rightarrow> char" where
  "digit_char d = char_of (48 + d)"

definition toupper :: "char \<Rightarrow> char" where
  "toupper c = (if 97 \<le> byte c \<and> byte c \<le> 122 then char_of (byte c - 32) else c)"

lemma byte_less [simp]: "byte c < 256"
  by (simp add: byte_def)

lemma byte_inject [simp]: "byte c = byte d \<longleftrightarrow> c = d"
  by (simp add: byte_def)

lemma byte_char_of [simp]: "n < 256 \<Longrightarrow> byte (char_of n) = n"
  by (simp add: byte_def)

lemma byte_digit_char [simp]: "d < 10 \<Longrightarrow> byte (digit_char d) = 48 + d"
  by (simp add: digit_char_def)

lemma isdigit_digit_char [simp]: "d < 10 \<Longrightarrow> isdigit (digit_char d)"
  by (simp add: isdigit_def)

lemma digit_val_digit_char [simp]: "d < 10 \<Longrightarrow> digit_val (digit_char d) = d"
  by (simp add: digit_val_def)

lemma digit_not_space [simp]: "isdigit c \<Longrightarrow> \<not> isspace c"
  by (auto simp: isdigit_def isspace_def)

lemma toupper_idem [simp]: "toupper (toupper c) = toupper c"
  by (auto simp: toupper_def)

section \<open>Decimal numerals\<close>

definition digits_val :: "string \<Rightarrow> nat" where
  "digits_val s = foldl (\<lambda>n c. 10 * n + digit_val c) 0 s"

fun nat_to_string :: "nat \<Rightarrow> string" where
  "nat_to_string n = (if n < 10 then [digit_char n]
     else nat_to_string (n div 10) @ [digit_char (n mod 10)])"

declare nat_to_string.simps [simp del]

definition u64_to_string :: "u64 \<Rightarrow> string" where
  "u64_to_string w = nat_to_string (unat w)"

lemma digits_val_Nil [simp]: "digits_val [] = 0"
  by (simp add: digits_val_def)

lemma digits_val_snoc [simp]: "digits_val (s @ [c]) = 10 * digits_val s + digit_val c"
  by (simp add: digits_val_def)

lemma digits_val_append: "digits_val (s @ t) = digits_val s * 10 ^ length t + digits_val t"
proof (induction t rule: rev_induct)
  case Nil
  then show ?case by simp
next
  case (snoc c t)
  have "digits_val (s @ t @ [c]) = 10 * digits_val (s @ t) + digit_val c"
    using digits_val_snoc [of "s @ t" c] by simp
  with snoc show ?case by simp
qed

lemma digits_val_single [simp]: "digits_val [c] = digit_val c"
  by (simp add: digits_val_def)

lemma nat_to_string_nonempty [simp]: "nat_to_string n \<noteq> []"
  by (subst nat_to_string.simps) simp

lemma nat_to_string_digits: "\<forall>c \<in> set (nat_to_string n). isdigit c"
proof (induction n rule: nat_to_string.induct)
  case (1 n)
  then show ?case by (subst nat_to_string.simps) auto
qed

lemma digits_val_nat_to_string [simp]: "digits_val (nat_to_string n) = n"
proof (induction n rule: nat_to_string.induct)
  case (1 n)
  show ?case
  proof (cases "n < 10")
    case True
    then show ?thesis by (subst nat_to_string.simps) simp
  next
    case False
    then have "digits_val (nat_to_string (n div 10)) = n div 10" by (rule "1.IH")
    moreover from False have "nat_to_string n = nat_to_string (n div 10) @ [digit_char (n mod 10)]"
      by (subst nat_to_string.simps) simp
    ultimately show ?thesis by (simp add: digits_val_append)
  qed
qed

lemma nat_to_string_inject [simp]: "nat_to_string m = nat_to_string n \<longleftrightarrow> m = n"
  by (metis digits_val_nat_to_string)

lemma u64_to_string_inject [simp]: "u64_to_string a = u64_to_string b \<longleftrightarrow> a = b"
  by (auto simp: u64_to_string_def intro: unsigned_word_eqI)

lemma takeWhile_all_append:
  "\<forall>c \<in> set s. P c \<Longrightarrow> takeWhile P (s @ t) = s @ takeWhile P t"
  by (simp add: takeWhile_append)

section \<open>\<open>std::stoul\<close>\<close>

text \<open>
  \<open>std::stoul(s, &pos, 10)\<close> calls \<open>strtoul\<close>: white space, an optional sign, the longest run of
  digits.  No digit: \<open>std::invalid_argument\<close>.  A magnitude above \<open>ULONG_MAX\<close>: \<open>std::out_of_range\<close>.
  A minus sign negates modulo \<open>2 ^ 64\<close>.  Both exceptions say \<open>stoul\<close>.  The second component of the
  result is \<open>pos\<close>, the number of bytes consumed; what follows the digits is not looked at.
\<close>

fun split_sign :: "string \<Rightarrow> bool \<times> string" where
  "split_sign [] = (False, [])"
| "split_sign (c # s) =
     (if c = CHR ''-'' then (True, s) else if c = CHR ''+'' then (False, s) else (False, c # s))"

definition stoul_pos :: "string \<Rightarrow> (u64 \<times> nat) res" where
  "stoul_pos s =
     (let (neg, t) = split_sign (dropWhile isspace s);
          ds = takeWhile isdigit t;
          v = digits_val ds
      in if ds = [] then Inl (StdException ''stoul'')
         else if 2 ^ 64 \<le> v then Inl (StdException ''stoul'')
         else Inr (if neg then - of_nat v else of_nat v, length s - length t + length ds))"

definition stoul :: "string \<Rightarrow> u64 res" where
  "stoul s = bindR (stoul_pos s) (\<lambda>(v, pos). Inr v)"

lemma split_sign_digit: "isdigit c \<Longrightarrow> split_sign (c # s) = (False, c # s)"
  by (auto simp: isdigit_def byte_def)

lemma stoul_pos_digits:
  assumes "ds \<noteq> []" and "\<forall>c \<in> set ds. isdigit c" and "digits_val ds < 2 ^ 64"
    and "rest = [] \<or> \<not> isdigit (hd rest)"
  shows "stoul_pos (ds @ rest) = Inr (of_nat (digits_val ds), length ds)"
proof -
  from assms(1,2) obtain c ds' where ds: "ds = c # ds'" and c: "isdigit c"
    by (cases ds) auto
  have "dropWhile isspace (ds @ rest) = ds @ rest"
    using ds c by simp
  moreover have "split_sign (ds @ rest) = (False, ds @ rest)"
    using ds split_sign_digit [OF c] by simp
  moreover have "takeWhile isdigit (ds @ rest) = ds"
    using assms(2,4) by (cases rest) (auto simp: takeWhile_append)
  ultimately show ?thesis
    using assms(1,3) by (simp add: stoul_pos_def Let_def)
qed

lemma stoul_u64_to_string_rest:
  assumes "rest = [] \<or> \<not> isdigit (hd rest)"
  shows "stoul (u64_to_string w @ rest) = Inr w"
proof -
  have "digits_val (nat_to_string (unat w)) < 2 ^ 64"
    using unsigned_less [of w] by simp
  then show ?thesis
    unfolding stoul_def u64_to_string_def
    using assms by (subst stoul_pos_digits) (auto simp: nat_to_string_digits)
qed

lemma stoul_u64_to_string [simp]: "stoul (u64_to_string w) = Inr w"
  using stoul_u64_to_string_rest [of "[]" w] by simp

lemma stoul_Inl: "stoul s = Inl e \<Longrightarrow> e = StdException ''stoul''"
  by (auto simp: stoul_def stoul_pos_def bindR_eq_Inl Let_def split: prod.splits if_splits)

end
