(* ===== verification/Float32.thy ===== *)
theory Float32
  imports Cxx_Std
begin

text \<open>
  \<open>float\<close> as the program uses it: IEEE 754 binary32 values kept as 32-bit words, \<open>std::to_string(float)\<close>
  (that is, \<open>printf\<close> with \<open>%f\<close>) and \<open>std::stof\<close> (that is, \<open>strtof\<close>), both computed exactly on
  natural numbers.  The platform is glibc on x86-64, rounding to nearest even.

  A finite magnitude is kept scaled by \<open>2 ^ 149\<close>, the reciprocal of the least subnormal, so that every
  finite binary32 magnitude is a natural number.
\<close>

type_synonym f32 = "32 word"

section \<open>Integer rounding\<close>

fun bitlen :: "nat \<Rightarrow> nat" where
  "bitlen n = (if n = 0 then 0 else Suc (bitlen (n div 2)))"

declare bitlen.simps [simp del]

text \<open>\<open>a / b\<close> rounded to the nearest integer, ties to even.\<close>

definition round_div :: "nat \<Rightarrow> nat \<Rightarrow> nat" where
  "round_div a b =
     (let q = a div b; r = a mod b
      in if 2 * r < b \<or> (2 * r = b \<and> even q) then q else Suc q)"

lemma bitlen_0 [simp]: "bitlen 0 = 0"
  by (subst bitlen.simps) simp

lemma bitlen_le_iff: "bitlen n \<le> k \<longleftrightarrow> n < 2 ^ k"
proof (induction n arbitrary: k rule: bitlen.induct)
  case (1 n)
  show ?case
  proof (cases "n = 0")
    case True
    then show ?thesis by simp
  next
    case False
    then have eq: "bitlen n = Suc (bitlen (n div 2))" by (subst bitlen.simps) simp
    show ?thesis
    proof (cases k)
      case 0
      then show ?thesis using False eq by simp
    next
      case (Suc k')
      then have "bitlen n \<le> k \<longleftrightarrow> n div 2 < 2 ^ k'"
        using eq "1.IH" [OF False] by simp
      also have "\<dots> \<longleftrightarrow> n < 2 ^ k" using Suc by (simp add: div_less_iff_less_mult mult.commute)
      finally show ?thesis .
    qed
  qed
qed

lemma bitlen_eq: "2 ^ k \<le> n \<Longrightarrow> n < 2 ^ Suc k \<Longrightarrow> bitlen n = Suc k"
  using bitlen_le_iff [of n "Suc k"] bitlen_le_iff [of n k] by simp

lemma round_div_bounds:
  assumes "0 < b"
  shows "2 * (round_div a b * b) \<le> 2 * a + b" and "2 * a \<le> 2 * (round_div a b * b) + b"
proof -
  define q r where "q = a div b" and "r = a mod b"
  have a: "a = q * b + r" and r: "r < b" using assms by (simp_all add: q_def r_def)
  have "round_div a b * b = (if 2 * r < b \<or> (2 * r = b \<and> even q) then q * b else q * b + b)"
    by (simp add: round_div_def Let_def q_def r_def)
  then show "2 * (round_div a b * b) \<le> 2 * a + b" "2 * a \<le> 2 * (round_div a b * b) + b"
    using r by (auto simp: a split: if_splits)
qed

lemma round_div_unique:
  assumes lo: "2 * (k * b) < 2 * a + b" and hi: "2 * a < 2 * (k * b) + b"
  shows "round_div a b = k"
proof -
  let ?r = "round_div a b"
  from hi lo have b: "0 < b" by (cases b) auto
  have "(2 * ?r) * b < (2 * k + 2) * b"
    using round_div_bounds(1) [OF b, of a] hi by (simp add: distrib_right)
  then have "2 * ?r < 2 * k + 2" by (simp only: mult_less_cancel2)
  moreover have "(2 * k) * b < (2 * ?r + 2) * b"
    using round_div_bounds(2) [OF b, of a] lo by (simp add: distrib_right)
  then have "2 * k < 2 * ?r + 2" by (simp only: mult_less_cancel2)
  ultimately show ?thesis by simp
qed

lemma round_div_exact [simp]: "0 < b \<Longrightarrow> round_div (k * b) b = k"
  by (rule round_div_unique) auto

lemma round_div_le:
  assumes b: "0 < b" and le: "a \<le> c * b"
  shows "round_div a b \<le> c"
proof -
  have "(2 * round_div a b) * b \<le> (2 * c + 1) * b"
    using round_div_bounds(1) [OF b, of a] le by (simp add: distrib_right)
  then have "2 * round_div a b \<le> 2 * c + 1" using b by (simp only: mult_le_cancel2)
  then show ?thesis by simp
qed

lemma round_div_ge:
  assumes b: "0 < b" and le: "c * b \<le> a"
  shows "c \<le> round_div a b"
proof -
  have "(2 * c) * b \<le> (2 * round_div a b + 1) * b"
    using round_div_bounds(2) [OF b, of a] le by (simp add: distrib_right)
  then have "2 * c \<le> 2 * round_div a b + 1" using b by (simp only: mult_le_cancel2)
  then show ?thesis by simp
qed

section \<open>The binary32 format\<close>

definition f32_neg :: "f32 \<Rightarrow> bool" where
  "f32_neg w \<longleftrightarrow> 2 ^ 31 \<le> unat w"

text \<open>The low 31 bits: exponent field and fraction field.\<close>

definition f32_bits :: "f32 \<Rightarrow> nat" where
  "f32_bits w = unat w mod 2 ^ 31"

definition mk_f32 :: "bool \<Rightarrow> nat \<Rightarrow> f32" where
  "mk_f32 neg b = of_nat ((if neg then 2 ^ 31 else 0) + b)"

abbreviation inf_bits :: nat where
  "inf_bits \<equiv> 255 * 2 ^ 23"

definition f32_is_finite :: "f32 \<Rightarrow> bool" where
  "f32_is_finite w \<longleftrightarrow> f32_bits w < inf_bits"

definition f32_is_inf :: "f32 \<Rightarrow> bool" where
  "f32_is_inf w \<longleftrightarrow> f32_bits w = inf_bits"

definition f32_is_nan :: "f32 \<Rightarrow> bool" where
  "f32_is_nan w \<longleftrightarrow> inf_bits < f32_bits w"

text \<open>The significand and the scale of a magnitude: \<open>bits_mant b * 2 ^ bits_scale b\<close> in units of \<open>2 ^ -149\<close>.\<close>

definition bits_mant :: "nat \<Rightarrow> nat" where
  "bits_mant b = (if b div 2 ^ 23 = 0 then b mod 2 ^ 23 else 2 ^ 23 + b mod 2 ^ 23)"

definition bits_scale :: "nat \<Rightarrow> nat" where
  "bits_scale b = b div 2 ^ 23 - 1"

definition bits_mag :: "nat \<Rightarrow> nat" where
  "bits_mag b = bits_mant b * 2 ^ bits_scale b"

lemma bits_decompose: "b = bits_scale b * 2 ^ 23 + bits_mant b"
proof -
  have eq: "b div 2 ^ 23 * 2 ^ 23 + b mod 2 ^ 23 = b" by (rule div_mult_mod_eq)
  show ?thesis
  proof (cases "b div 2 ^ 23 = 0")
    case True
    with eq show ?thesis by (simp only: bits_scale_def bits_mant_def) simp
  next
    case False
    then obtain e where e: "b div 2 ^ 23 = Suc e" by (cases "b div 2 ^ 23") auto
    then show ?thesis
      using eq unfolding bits_scale_def bits_mant_def e by simp
  qed
qed

lemma bits_mant_less: "bits_mant b < 2 ^ 24"
  by (simp add: bits_mant_def) (use mod_less_divisor [of "2 ^ 23" b] in linarith)

lemma bits_mant_ge: "0 < bits_scale b \<Longrightarrow> 2 ^ 23 \<le> bits_mant b"
  by (simp add: bits_mant_def bits_scale_def)

lemma bits_of_scale_mant:
  assumes "m < 2 ^ 24" and "0 < j \<longrightarrow> 2 ^ 23 \<le> m"
  shows "bits_scale (j * 2 ^ 23 + m) = j \<and> bits_mant (j * 2 ^ 23 + m) = m"
proof (cases "m < 2 ^ 23")
  case True
  with assms have "j = 0" by auto
  with True show ?thesis by (simp add: bits_scale_def bits_mant_def)
next
  case False
  then have "j * 2 ^ 23 + m = Suc j * 2 ^ 23 + (m - 2 ^ 23)" by simp
  moreover have "(Suc j * 2 ^ 23 + (m - 2 ^ 23)) div 2 ^ 23 = Suc j"
    using assms(1) False by (subst div_mult_self3) auto
  moreover have "(Suc j * 2 ^ 23 + (m - 2 ^ 23)) mod 2 ^ 23 = m - 2 ^ 23"
    using assms(1) False by (subst mod_mult_self3) auto
  ultimately show ?thesis
    using False by (simp add: bits_scale_def bits_mant_def)
qed

lemma bits_mag_scale_mant:
  assumes "m \<le> 2 ^ 24" and "0 < j \<longrightarrow> 2 ^ 23 \<le> m"
  shows "bits_mag (j * 2 ^ 23 + m) = m * 2 ^ j"
proof (cases "m = 2 ^ 24")
  case True
  then have eq: "j * 2 ^ 23 + m = Suc j * 2 ^ 23 + 2 ^ 23" by simp
  have "bits_mag (Suc j * 2 ^ 23 + 2 ^ 23) = 2 ^ 23 * 2 ^ Suc j"
    using bits_of_scale_mant [of "2 ^ 23" "Suc j"] unfolding bits_mag_def by simp
  then show ?thesis unfolding eq using True by simp
next
  case False
  with assms show ?thesis
    using bits_of_scale_mant [of m j] by (simp add: bits_mag_def)
qed

lemma f32_bits_less: "f32_bits w < 2 ^ 31"
  by (simp add: f32_bits_def)

lemma mk_f32_eta [simp]: "mk_f32 (f32_neg w) (f32_bits w) = w"
proof -
  have "unat w < 2 ^ 32" using unsigned_less [of w] by simp
  then have "(if f32_neg w then 2 ^ 31 else 0) + f32_bits w = unat w"
    by (auto simp: f32_neg_def f32_bits_def mod_if)
  then show ?thesis by (simp add: mk_f32_def)
qed

lemma mk_f32_sel:
  assumes "b < 2 ^ 31"
  shows "f32_neg (mk_f32 n b) = n" and "f32_bits (mk_f32 n b) = b"
proof -
  have "unat (mk_f32 n b) = take_bit 32 ((if n then 2 ^ 31 else 0) + b)"
    unfolding mk_f32_def by (simp only: unsigned_of_nat) simp
  also have "\<dots> = (if n then 2 ^ 31 else 0) + b"
    using assms by (simp add: take_bit_nat_eq_self)
  finally have "unat (mk_f32 n b) = (if n then 2 ^ 31 else 0) + b" .
  then show "f32_neg (mk_f32 n b) = n" "f32_bits (mk_f32 n b) = b"
    using assms by (simp_all add: f32_neg_def f32_bits_def)
qed

section \<open>Rounding a rational to binary32\<close>

text \<open>
  The magnitude bits of \<open>p / q\<close> rounded to nearest even: with \<open>P = p * 2 ^ 149\<close> the scaled numerator,
  the scale is the least \<open>j\<close> for which \<open>P / q < 2 ^ (24 + j)\<close>, the significand is \<open>P / (q * 2 ^ j)\<close>
  rounded; a carry out of the significand moves into the exponent field by itself.  The result may
  exceed the largest finite magnitude: the callers compare it with \<open>inf_bits\<close>.
\<close>

definition round_bits :: "nat \<Rightarrow> nat \<Rightarrow> nat" where
  "round_bits p q =
     (let P = p * 2 ^ 149; j = bitlen (P div q) - 24
      in j * 2 ^ 23 + round_div P (q * 2 ^ j))"

lemma round_scale_bounds:
  assumes "0 < q" and "j = bitlen (P div q) - 24"
  shows "P < q * 2 ^ (24 + j)" and "0 < j \<longrightarrow> q * 2 ^ (23 + j) \<le> P"
proof -
  have "bitlen (P div q) \<le> 24 + j" using assms(2) by simp
  then have "P div q < 2 ^ (24 + j)" by (simp only: bitlen_le_iff)
  then show "P < q * 2 ^ (24 + j)"
    using assms(1) by (simp only: div_less_iff_less_mult mult.commute)
  have "0 < j \<Longrightarrow> \<not> bitlen (P div q) \<le> 23 + j" using assms(2) by simp
  then have "0 < j \<Longrightarrow> 2 ^ (23 + j) \<le> P div q" by (simp only: bitlen_le_iff not_less)
  then show "0 < j \<longrightarrow> q * 2 ^ (23 + j) \<le> P"
    using assms(1) by (auto simp only: less_eq_div_iff_mult_less_eq mult.commute)
qed

lemma round_mant_bounds:
  assumes q: "0 < q" and j: "j = bitlen (P div q) - 24" and m: "m = round_div P (q * 2 ^ j)"
  shows "m \<le> 2 ^ 24" and "0 < j \<longrightarrow> 2 ^ 23 \<le> m"
proof -
  have pos: "0 < q * 2 ^ j" using q by simp
  have "P \<le> 2 ^ 24 * (q * 2 ^ j)"
    using round_scale_bounds(1) [OF q j] by (simp only: power_add mult_ac less_imp_le)
  then show "m \<le> 2 ^ 24" unfolding m by (rule round_div_le [OF pos])
  show "0 < j \<longrightarrow> 2 ^ 23 \<le> m"
  proof
    assume "0 < j"
    then have "q * 2 ^ (23 + j) \<le> P" using round_scale_bounds(2) [OF q j] by blast
    then have "2 ^ 23 * (q * 2 ^ j) \<le> P" by (simp only: power_add mult_ac)
    then show "2 ^ 23 \<le> m" unfolding m by (rule round_div_ge [OF pos])
  qed
qed

text \<open>A rational that is a binary32 value rounds to that value.\<close>

lemma bits_scale_bitlen: "bitlen (bits_mag b) - 24 = bits_scale b"
proof (cases "bits_scale b = 0")
  case True
  then have "bits_mag b < 2 ^ 24" using bits_mant_less by (simp add: bits_mag_def)
  then have "bitlen (bits_mag b) \<le> 24" by (simp only: bitlen_le_iff)
  then show ?thesis using True by simp
next
  case False
  then have "2 ^ 23 \<le> bits_mant b" using bits_mant_ge by simp
  then have "2 ^ 23 * 2 ^ bits_scale b \<le> bits_mag b" unfolding bits_mag_def by (rule mult_le_mono1)
  then have lo: "2 ^ (23 + bits_scale b) \<le> bits_mag b" by (simp only: power_add)
  have "bits_mag b < 2 ^ 24 * 2 ^ bits_scale b"
    unfolding bits_mag_def using bits_mant_less by (intro mult_strict_right_mono) auto
  then have "bits_mag b < 2 ^ Suc (23 + bits_scale b)" by (simp add: power_add)
  from bitlen_eq [OF lo this] show ?thesis by simp
qed

lemma round_bits_exact:
  assumes q: "0 < q" and eq: "p * 2 ^ 149 = bits_mag b * q"
  shows "round_bits p q = b"
proof -
  have "p * 2 ^ 149 div q = bits_mag b" using q eq by simp
  then have j: "bitlen (p * 2 ^ 149 div q) - 24 = bits_scale b" by (simp only: bits_scale_bitlen)
  have "p * 2 ^ 149 = bits_mant b * (q * 2 ^ bits_scale b)"
    unfolding eq bits_mag_def by (simp only: mult_ac)
  then have "round_div (p * 2 ^ 149) (q * 2 ^ bits_scale b) = bits_mant b"
    using q by simp
  then show ?thesis
    unfolding round_bits_def Let_def j using bits_decompose [of b] by simp
qed

section \<open>Six decimals and back\<close>

text \<open>\<open>dec6 b\<close> is the magnitude in millionths as \<open>%f\<close> prints it.\<close>

definition dec6 :: "nat \<Rightarrow> nat" where
  "dec6 b = round_div (bits_mag b * 10 ^ 6) (2 ^ 149)"

lemma reround_same:
  assumes P: "P = dec6 b * 2 ^ 149" and j: "j = bitlen (P div 10 ^ 6) - 24" and big: "130 \<le> j"
  shows "j * 2 ^ 23 + round_div P (10 ^ 6 * 2 ^ j) = b"
proof -
  let ?q = "10 ^ 6 :: nat" and ?M = "bits_mag b" and ?s = "bits_scale b" and ?m = "bits_mant b"
  have near: "2 * P \<le> 2 * (?M * ?q) + 2 ^ 149" "2 * (?M * ?q) \<le> 2 * P + 2 ^ 149"
    using round_div_bounds [of "2 ^ 149" "?M * ?q"] by (simp_all add: P dec6_def)
  have "(2::nat) ^ 149 < ?q * 2 ^ 130" by simp
  also have "?q * 2 ^ 130 \<le> ?q * 2 ^ j" by (intro mult_le_mono2 power_increasing) (use big in auto)
  finally have gap: "(2::nat) ^ 149 < ?q * 2 ^ j" .
  have q: "0 < ?q" by simp
  have hi: "P < ?q * 2 ^ (24 + j)" using round_scale_bounds(1) [OF q j] .
  have lo: "?q * 2 ^ (23 + j) \<le> P" using round_scale_bounds(2) [OF q j] big by simp
  have sj: "j \<le> ?s"
  proof (rule ccontr)
    assume "\<not> j \<le> ?s"
    then obtain k where k: "j = Suc k" "?s \<le> k" by (cases j) auto
    have "?M \<le> (2 ^ 24 - 1) * 2 ^ k"
      unfolding bits_mag_def using bits_mant_less [of b] k(2)
      by (intro mult_le_mono power_increasing) auto
    then have "?M + 2 ^ k \<le> 2 ^ (24 + k)" by (simp add: power_add diff_mult_distrib)
    then have "?q * (?M + 2 ^ k) \<le> ?q * 2 ^ (23 + j)"
      unfolding k(1) by (intro mult_le_mono2) simp
    then have "2 * (?M * ?q) + ?q * 2 ^ j \<le> 2 * P"
      using lo unfolding k(1) by (simp add: algebra_simps)
    with near gap show False by linarith
  qed
  define m' where "m' = ?m * 2 ^ (?s - j)"
  have M: "?M = m' * 2 ^ j"
    unfolding bits_mag_def m'_def using sj by (simp add: mult.assoc flip: power_add)
  have eq: "?M * ?q = m' * (?q * 2 ^ j)" unfolding M by (simp only: mult_ac)
  have rd: "round_div P (?q * 2 ^ j) = m'"
    by (rule round_div_unique) (use near gap eq in linarith)+
  have "m' \<le> 2 ^ 24" using round_mant_bounds(1) [OF q j refl] rd by simp
  have "?s = j \<or> (?s = Suc j \<and> ?m = 2 ^ 23)"
  proof (rule disjCI)
    assume ns: "\<not> (?s = Suc j \<and> ?m = 2 ^ 23)"
    show "?s = j"
    proof (rule ccontr)
      assume "?s \<noteq> j"
      with sj obtain d where d: "?s - j = Suc d" "0 < ?s" by (cases "?s - j") auto
      have mg: "2 ^ 23 \<le> ?m" using bits_mant_ge [OF d(2)] .
      have le: "?m * 2 * 2 ^ d \<le> 2 ^ 24" using \<open>m' \<le> 2 ^ 24\<close> by (simp add: m'_def d(1) mult_ac)
      have "2 ^ 24 * 2 ^ d \<le> ?m * 2 * 2 ^ d" using mg by (intro mult_le_mono1) simp
      with le have "(2 ^ 24 * 2 ^ d :: nat) \<le> 2 ^ 24" by linarith
      then have "(2::nat) ^ d \<le> 1" by simp
      then have "d = 0" using less_exp [of d] by linarith
      with le mg have "?m = 2 ^ 23" by simp
      with ns d \<open>d = 0\<close> sj show False by simp
    qed
  qed
  then have "j * 2 ^ 23 + m' = ?s * 2 ^ 23 + ?m" by (auto simp: m'_def)
  then show ?thesis using rd bits_decompose [of b] by simp
qed

lemma reround_near:
  assumes P: "P = n * 2 ^ 149" and j: "j = bitlen (P div 10 ^ 6) - 24" and small: "j < 130"
  shows "dec6 (j * 2 ^ 23 + round_div P (10 ^ 6 * 2 ^ j)) = n"
proof -
  let ?q = "10 ^ 6 :: nat"
  define m where "m = round_div P (?q * 2 ^ j)"
  have q: "0 < ?q" by simp
  note bounds = round_mant_bounds [OF q j m_def]
  have mag: "bits_mag (j * 2 ^ 23 + m) = m * 2 ^ j" by (rule bits_mag_scale_mant [OF bounds])
  have "?q * 2 ^ j \<le> ?q * 2 ^ 129" using small by (intro mult_le_mono2 power_increasing) auto
  also have "\<dots> < 2 ^ 149" by simp
  finally have gap: "?q * 2 ^ j < 2 ^ 149" .
  have eq: "m * (?q * 2 ^ j) = m * 2 ^ j * ?q" by (simp only: mult_ac)
  have near: "2 * (m * 2 ^ j * ?q) \<le> 2 * P + ?q * 2 ^ j" "2 * P \<le> 2 * (m * 2 ^ j * ?q) + ?q * 2 ^ j"
    using round_div_bounds [of "?q * 2 ^ j" P] eq by (simp_all add: m_def)
  show ?thesis
    unfolding dec6_def m_def [symmetric] mag
    by (rule round_div_unique) (use near gap P in linarith)+
qed

theorem dec6_reround:
  assumes fin: "b < inf_bits"
  shows "dec6 (round_bits (dec6 b) (10 ^ 6)) = dec6 b" and "round_bits (dec6 b) (10 ^ 6) < inf_bits"
proof -
  define P j where "P = dec6 b * 2 ^ 149" and "j = bitlen (P div 10 ^ 6) - 24"
  have eq: "round_bits (dec6 b) (10 ^ 6) = j * 2 ^ 23 + round_div P (10 ^ 6 * 2 ^ j)"
    by (simp only: round_bits_def Let_def P_def j_def)
  show "dec6 (round_bits (dec6 b) (10 ^ 6)) = dec6 b"
  proof (cases "j < 130")
    case True
    then show ?thesis unfolding eq by (rule reround_near [OF P_def j_def])
  next
    case False
    then have "130 \<le> j" by simp
    from reround_same [OF P_def j_def this] show ?thesis unfolding eq by simp
  qed
  show "round_bits (dec6 b) (10 ^ 6) < inf_bits"
  proof (cases "j < 130")
    case True
    have "round_div P (10 ^ 6 * 2 ^ j) \<le> 2 ^ 24"
      by (rule round_mant_bounds(1) [OF _ j_def refl]) simp
    with True show ?thesis unfolding eq by simp
  next
    case False
    then have "130 \<le> j" by simp
    from reround_same [OF P_def j_def this] show ?thesis unfolding eq using fin by simp
  qed
qed

text \<open>A value with at most six decimals survives printing and parsing.\<close>

lemma round_bits_dec6_exact:
  assumes "2 ^ 149 dvd bits_mag b * 10 ^ 6"
  shows "round_bits (dec6 b) (10 ^ 6) = b"
proof (rule round_bits_exact)
  from assms obtain k where k: "bits_mag b * 10 ^ 6 = k * 2 ^ 149" by (auto simp: dvd_def mult.commute)
  have "dec6 b = k" unfolding dec6_def k by (rule round_div_exact) simp
  with k show "dec6 b * 2 ^ 149 = bits_mag b * 10 ^ 6" by simp
qed simp

section \<open>\<open>std::to_string(float)\<close>\<close>

text \<open>\<open>printf("%f")\<close>: sign, integral part, point, six digits; \<open>inf\<close> and \<open>nan\<close> with their sign.\<close>

fun pad_digits :: "nat \<Rightarrow> nat \<Rightarrow> string" where
  "pad_digits 0 n = []"
| "pad_digits (Suc k) n = pad_digits k (n div 10) @ [digit_char (n mod 10)]"

definition show_dec6 :: "nat \<Rightarrow> string" where
  "show_dec6 n = nat_to_string (n div 10 ^ 6) @ ''.'' @ pad_digits 6 (n mod 10 ^ 6)"

definition f32_to_string :: "f32 \<Rightarrow> string" where
  "f32_to_string w =
     (if f32_neg w then ''-'' else []) @
     (if f32_is_nan w then ''nan'' else if f32_is_inf w then ''inf'' else show_dec6 (dec6 (f32_bits w)))"

section \<open>\<open>std::stof\<close>\<close>

text \<open>
  \<open>strtof\<close> after the sign: a number, an infinity or a NaN.  A number is a numerator and a
  denominator.  The payload a \<open>nan(...)\<close> may carry is not modelled: it reads as the quiet NaN.
\<close>

datatype fnum = FNum nat nat | FInf | FNan

definition isxdigit :: "char \<Rightarrow> bool" where
  "isxdigit c \<longleftrightarrow> isdigit c \<or> (65 \<le> byte (toupper c) \<and> byte (toupper c) \<le> 70)"

definition xdigit_val :: "char \<Rightarrow> nat" where
  "xdigit_val c = (if isdigit c then digit_val c else byte (toupper c) - 55)"

text \<open>An optional exponent: the letter, a sign, at least one digit; otherwise nothing is consumed.\<close>

definition read_exponent :: "char \<Rightarrow> string \<Rightarrow> int" where
  "read_exponent letter s =
     (case s of [] \<Rightarrow> 0
      | c # t \<Rightarrow>
          if toupper c \<noteq> letter then 0
          else (let (neg, u) = split_sign t; ds = takeWhile isdigit u
                in if ds = [] then 0 else if neg then - int (digits_val ds) else int (digits_val ds)))"

text \<open>The digits before and after the point, and what follows them.\<close>

definition read_digits :: "(char \<Rightarrow> bool) \<Rightarrow> string \<Rightarrow> string \<times> string \<times> string" where
  "read_digits D s =
     (let ip = takeWhile D s; r = dropWhile D s
      in case r of [] \<Rightarrow> (ip, [], [])
         | c # t \<Rightarrow> if c = CHR ''.'' then (ip, takeWhile D t, dropWhile D t) else (ip, [], r))"

text \<open>\<open>n * base ^ e\<close> as a fraction.\<close>

definition scale_num :: "nat \<Rightarrow> nat \<Rightarrow> int \<Rightarrow> fnum" where
  "scale_num base n e = (if 0 \<le> e then FNum (n * base ^ nat e) 1 else FNum n (base ^ nat (- e)))"

definition read_decimal :: "string \<Rightarrow> fnum option" where
  "read_decimal s =
     (let (ip, fp, r) = read_digits isdigit s
      in if ip @ fp = [] then None
         else Some (scale_num 10 (digits_val (ip @ fp)) (read_exponent (CHR ''E'') r - int (length fp))))"

definition read_hex :: "string \<Rightarrow> fnum option" where
  "read_hex s =
     (let (ip, fp, r) = read_digits isxdigit s
      in if ip @ fp = [] then None
         else Some (scale_num 2 (foldl (\<lambda>n c. 16 * n + xdigit_val c) 0 (ip @ fp))
                      (read_exponent (CHR ''P'') r - 4 * int (length fp))))"

definition strtof_body :: "string \<Rightarrow> fnum option" where
  "strtof_body s =
     (let u = map toupper s
      in if take 3 u = ''INF'' then Some FInf
         else if take 3 u = ''NAN'' then Some FNan
         else if take 2 u = ''0X'' then
           (case read_hex (drop 2 s) of Some x \<Rightarrow> Some x | None \<Rightarrow> read_decimal s)
         else read_decimal s)"

text \<open>
  \<open>stof\<close> throws \<open>std::invalid_argument\<close> when nothing was converted and \<open>std::out_of_range\<close> when
  \<open>strtof\<close> set \<open>ERANGE\<close>: the rounded magnitude is not finite, or the value is inexact and smaller
  than the least normal number after rounding to 24 bits.  Both exceptions say \<open>stof\<close>.
\<close>

definition tiny_inexact :: "nat \<Rightarrow> nat \<Rightarrow> bool" where
  "tiny_inexact p q \<longleftrightarrow>
     4 * (p * 2 ^ 149) < q * (2 ^ 25 - 1) \<and> bits_mag (round_bits p q) * q \<noteq> p * 2 ^ 149"

definition stof_result :: "bool \<Rightarrow> fnum \<Rightarrow> f32 res" where
  "stof_result neg x =
     (case x of FInf \<Rightarrow> Inr (mk_f32 neg inf_bits)
      | FNan \<Rightarrow> Inr (mk_f32 neg (inf_bits + 2 ^ 22))
      | FNum p q \<Rightarrow>
          if inf_bits \<le> round_bits p q \<or> tiny_inexact p q then Inl (StdException ''stof'')
          else Inr (mk_f32 neg (round_bits p q)))"

definition stof :: "string \<Rightarrow> f32 res" where
  "stof s =
     (let (neg, t) = split_sign (dropWhile isspace s)
      in case strtof_body t of None \<Rightarrow> Inl (StdException ''stof'') | Some x \<Rightarrow> stof_result neg x)"

section \<open>Printing and parsing back\<close>

lemma length_pad_digits [simp]: "length (pad_digits k n) = k"
  by (induction k arbitrary: n) simp_all

lemma pad_digits_isdigit: "c \<in> set (pad_digits k n) \<Longrightarrow> isdigit c"
  by (induction k arbitrary: n) auto

lemma digits_val_pad_digits: "digits_val (pad_digits k n) = n mod 10 ^ k"
proof (induction k arbitrary: n)
  case 0
  then show ?case by simp
next
  case (Suc k)
  have "n mod (10 * 10 ^ k) = 10 * (n div 10 mod 10 ^ k) + n mod 10" by (rule mod_mult2_eq)
  with Suc show ?case by simp
qed

lemma takeWhile_all: "(\<And>c. c \<in> set s \<Longrightarrow> P c) \<Longrightarrow> takeWhile P (s @ t) = s @ takeWhile P t"
  by (simp add: takeWhile_append)

lemma dropWhile_all: "(\<And>c. c \<in> set s \<Longrightarrow> P c) \<Longrightarrow> dropWhile P (s @ t) = dropWhile P t"
  by (simp add: dropWhile_append)

lemma not_isdigit_point [simp]: "\<not> isdigit (CHR ''.'')"
  by (simp add: isdigit_def byte_def)

lemma read_digits_show_dec6:
  "read_digits isdigit (show_dec6 n) = (nat_to_string (n div 10 ^ 6), pad_digits 6 (n mod 10 ^ 6), [])"
proof -
  have ip: "takeWhile isdigit (show_dec6 n) = nat_to_string (n div 10 ^ 6)"
    unfolding show_dec6_def using nat_to_string_digits by (subst takeWhile_all) auto
  have r: "dropWhile isdigit (show_dec6 n) = CHR ''.'' # pad_digits 6 (n mod 10 ^ 6)"
    unfolding show_dec6_def using nat_to_string_digits by (subst dropWhile_all) auto
  have "takeWhile isdigit (pad_digits 6 (n mod 10 ^ 6)) = pad_digits 6 (n mod 10 ^ 6)"
    "dropWhile isdigit (pad_digits 6 (n mod 10 ^ 6)) = []"
    using pad_digits_isdigit by (auto simp: takeWhile_eq_all_conv dropWhile_eq_Nil_conv)
  then show ?thesis by (simp add: read_digits_def Let_def ip r)
qed

lemma read_decimal_show_dec6: "read_decimal (show_dec6 n) = Some (FNum n (10 ^ 6))"
proof -
  have "digits_val (nat_to_string (n div 10 ^ 6) @ pad_digits 6 (n mod 10 ^ 6)) = n"
    by (simp add: digits_val_append digits_val_pad_digits)
  then show ?thesis
    by (simp add: read_decimal_def read_digits_show_dec6 read_exponent_def scale_num_def del: pad_digits.simps)
qed

lemma toupper_digit [simp]: "isdigit c \<Longrightarrow> toupper c = c"
  by (auto simp: isdigit_def toupper_def)

lemma show_dec6_hd:
  obtains c t where "show_dec6 n = c # t" and "isdigit c" and "t \<noteq> []" and "isdigit (hd t) \<or> hd t = CHR ''.''"
proof -
  obtain c ds where s: "nat_to_string (n div 10 ^ 6) = c # ds"
    using nat_to_string_nonempty by (cases "nat_to_string (n div 10 ^ 6)") blast+
  have d: "isdigit c" "\<forall>x \<in> set ds. isdigit x"
    using nat_to_string_digits [of "n div 10 ^ 6"] unfolding s by simp_all
  show thesis
  proof (rule that)
    show "show_dec6 n = c # ds @ ''.'' @ pad_digits 6 (n mod 10 ^ 6)" by (simp only: show_dec6_def s append_Cons)
    show "isdigit (hd (ds @ ''.'' @ pad_digits 6 (n mod 10 ^ 6))) \<or>
        hd (ds @ ''.'' @ pad_digits 6 (n mod 10 ^ 6)) = CHR ''.''"
      using d(2) by (cases ds) simp_all
  qed (use d in simp_all)
qed

lemma isdigit_letters [simp]: "\<not> isdigit (CHR ''I'')" "\<not> isdigit (CHR ''N'')" "\<not> isdigit (CHR ''X'')"
  by (simp_all add: isdigit_def byte_def)

lemma toupper_point [simp]: "toupper (CHR ''.'') = CHR ''.''"
  by (simp add: toupper_def byte_def)

lemma strtof_body_show_dec6: "strtof_body (show_dec6 n) = Some (FNum n (10 ^ 6))"
proof -
  obtain c t where s: "show_dec6 n = c # t" "isdigit c" "t \<noteq> []" "isdigit (hd t) \<or> hd t = CHR ''.''"
    by (rule show_dec6_hd)
  from s(3,4) obtain c' t' where t: "t = c' # t'" "isdigit c' \<or> c' = CHR ''.''" by (cases t) auto
  have "take 3 (map toupper (show_dec6 n)) \<noteq> ''INF''" "take 3 (map toupper (show_dec6 n)) \<noteq> ''NAN''"
    using s(2) by (auto simp: s(1) take_Cons')
  moreover have "take 2 (map toupper (show_dec6 n)) \<noteq> ''0X''"
    using t by (auto simp: s(1) take_Cons')
  ultimately show ?thesis by (simp add: strtof_body_def Let_def read_decimal_show_dec6)
qed

definition canon_bits :: "nat \<Rightarrow> nat" where
  "canon_bits b = (if b < inf_bits then round_bits (dec6 b) (10 ^ 6)
     else if b = inf_bits then inf_bits else inf_bits + 2 ^ 22)"

text \<open>\<open>f32_canon w\<close> is what \<open>w\<close> becomes after one print and parse.\<close>

definition f32_canon :: "f32 \<Rightarrow> f32" where
  "f32_canon w = mk_f32 (f32_neg w) (canon_bits (f32_bits w))"

lemma not_tiny_dec6: "\<not> tiny_inexact n (10 ^ 6)"
proof (cases n)
  case 0
  then show ?thesis by (simp add: tiny_inexact_def round_bits_def round_div_def bits_mag_def bits_mant_def)
next
  case (Suc m)
  then have "10 ^ 6 * (2 ^ 25 - 1) \<le> 4 * (n * (2 ^ 149 :: nat))" by simp
  then show ?thesis by (simp only: tiny_inexact_def not_less simp_thms de_Morgan_conj)
qed

lemma split_sign_show:
  "c \<noteq> CHR ''-'' \<Longrightarrow> c \<noteq> CHR ''+'' \<Longrightarrow>
     split_sign ((if neg then ''-'' else []) @ c # t) = (neg, c # t)"
  by simp

lemma stof_signed:
  assumes "body = c # t" and "c \<noteq> CHR ''-''" and "c \<noteq> CHR ''+''" and "\<not> isspace c"
    and "strtof_body body = Some x"
  shows "stof ((if neg then ''-'' else []) @ body) = stof_result neg x"
proof -
  have "\<not> isspace (CHR ''-'')" by (simp add: isspace_def byte_def)
  then have "dropWhile isspace ((if neg then ''-'' else []) @ body) = (if neg then ''-'' else []) @ body"
    using assms(1,4) by simp
  then show ?thesis
    using split_sign_show [of c neg t] assms by (simp add: stof_def)
qed

lemma strtof_body_special: "strtof_body ''nan'' = Some FNan" "strtof_body ''inf'' = Some FInf"
  by code_simp+

theorem stof_f32_to_string: "stof (f32_to_string w) = Inr (f32_canon w)"
proof -
  consider (nan) "f32_is_nan w" | (inf) "f32_is_inf w" | (fin) "f32_bits w < inf_bits"
    using linorder_less_linear [of "f32_bits w" inf_bits]
    by (auto simp: f32_is_nan_def f32_is_inf_def)
  then show ?thesis
  proof cases
    case nan
    have "stof ((if f32_neg w then ''-'' else []) @ ''nan'') = stof_result (f32_neg w) FNan"
      by (rule stof_signed) (auto simp: isspace_def byte_def strtof_body_special)
    with nan show ?thesis
      by (simp add: f32_to_string_def stof_result_def f32_canon_def canon_bits_def f32_is_nan_def)
  next
    case inf
    have "stof ((if f32_neg w then ''-'' else []) @ ''inf'') = stof_result (f32_neg w) FInf"
      by (rule stof_signed) (auto simp: isspace_def byte_def strtof_body_special)
    with inf show ?thesis
      by (simp add: f32_to_string_def stof_result_def f32_canon_def canon_bits_def f32_is_nan_def f32_is_inf_def)
  next
    case fin
    let ?n = "dec6 (f32_bits w)"
    obtain c t where s: "show_dec6 ?n = c # t" "isdigit c" by (rule show_dec6_hd)
    have "stof ((if f32_neg w then ''-'' else []) @ show_dec6 ?n) = stof_result (f32_neg w) (FNum ?n (10 ^ 6))"
      by (rule stof_signed [OF s(1)])
        (use s(2) in \<open>auto simp: isdigit_def isspace_def byte_def strtof_body_show_dec6\<close>)
    moreover have "stof_result (f32_neg w) (FNum ?n (10 ^ 6)) = Inr (f32_canon w)"
      using dec6_reround(2) [OF fin] not_tiny_dec6 [of ?n] fin
      by (simp add: stof_result_def f32_canon_def canon_bits_def)
    ultimately show ?thesis
      using fin by (simp add: f32_to_string_def f32_is_nan_def f32_is_inf_def)
  qed
qed

lemma canon_bits_less: "canon_bits b < 2 ^ 31"
  using dec6_reround(2) [of b] by (auto simp: canon_bits_def)

lemma f32_canon_sel [simp]:
  "f32_neg (f32_canon w) = f32_neg w" "f32_bits (f32_canon w) = canon_bits (f32_bits w)"
  by (simp_all only: f32_canon_def mk_f32_sel [OF canon_bits_less])

lemma canon_bits_class:
  "canon_bits b < inf_bits \<longleftrightarrow> b < inf_bits" "canon_bits b = inf_bits \<longleftrightarrow> b = inf_bits"
  using dec6_reround(2) [of b] by (auto simp: canon_bits_def)

theorem f32_to_string_canon [simp]: "f32_to_string (f32_canon w) = f32_to_string w"
proof -
  have nan: "f32_is_nan (f32_canon w) = f32_is_nan w" and inf: "f32_is_inf (f32_canon w) = f32_is_inf w"
    using canon_bits_class [of "f32_bits w"] by (auto simp: f32_is_nan_def f32_is_inf_def not_less_iff_gr_or_eq)
  have "\<not> f32_is_nan w \<Longrightarrow> \<not> f32_is_inf w \<Longrightarrow> dec6 (canon_bits (f32_bits w)) = dec6 (f32_bits w)"
    using dec6_reround(1) [of "f32_bits w"] by (auto simp: canon_bits_def f32_is_nan_def f32_is_inf_def)
  then show ?thesis by (simp add: f32_to_string_def nan inf)
qed

theorem f32_canon_idem [simp]: "f32_canon (f32_canon w) = f32_canon w"
  by (metis stof_f32_to_string f32_to_string_canon sum.inject(2))

text \<open>Values with at most six decimals, and the infinities, are fixed points.\<close>

definition f32_exact6 :: "f32 \<Rightarrow> bool" where
  "f32_exact6 w \<longleftrightarrow>
     f32_is_inf w \<or> (f32_is_finite w \<and> bits_mag (f32_bits w) * 10 ^ 6 mod 2 ^ 149 = 0)"

theorem f32_canon_exact: "f32_exact6 w \<Longrightarrow> f32_canon w = w"
proof -
  assume ex: "f32_exact6 w"
  have "canon_bits (f32_bits w) = f32_bits w"
  proof (cases "f32_is_inf w")
    case True
    then show ?thesis by (simp add: canon_bits_def f32_is_inf_def)
  next
    case False
    with ex have fin: "f32_bits w < inf_bits" and "2 ^ 149 dvd bits_mag (f32_bits w) * 10 ^ 6"
      by (auto simp: f32_exact6_def f32_is_finite_def)
    then show ?thesis using round_bits_dec6_exact [of "f32_bits w"] by (simp add: canon_bits_def)
  qed
  then show ?thesis by (simp add: f32_canon_def)
qed

text \<open>Comma and text of a printed value: no printed float contains the separator of a vector.\<close>

lemma comma_not_in_f32_to_string: "CHR '','' \<notin> set (f32_to_string w)"
proof -
  have digit: "\<not> isdigit (CHR '','')" by (simp add: isdigit_def byte_def)
  have "CHR '','' \<notin> set (nat_to_string n)" for n using nat_to_string_digits [of n] digit by blast
  moreover have "CHR '','' \<notin> set (pad_digits k n)" for k n using pad_digits_isdigit digit by blast
  ultimately show ?thesis by (simp add: f32_to_string_def show_dec6_def del: pad_digits.simps)
qed

lemma f32_to_string_nonempty [simp]: "f32_to_string w \<noteq> []"
  by (simp add: f32_to_string_def show_dec6_def)

lemma stof_Inl: "stof s = Inl e \<Longrightarrow> e = StdException ''stof''"
  by (auto simp: stof_def stof_result_def split: prod.splits option.splits fnum.splits if_splits)

section \<open>Comparison\<close>

text \<open>\<open>operator<\<close> on \<open>float\<close>: false when an operand is a NaN; the two zeros are equal.\<close>

definition f32_key :: "f32 \<Rightarrow> int" where
  "f32_key w = (if f32_neg w then - int (f32_bits w) else int (f32_bits w))"

definition f32_less :: "f32 \<Rightarrow> f32 \<Rightarrow> bool" where
  "f32_less a b \<longleftrightarrow> \<not> f32_is_nan a \<and> \<not> f32_is_nan b \<and> f32_key a < f32_key b"

lemma f32_less_irrefl [simp]: "\<not> f32_less a a"
  by (simp add: f32_less_def)

lemma f32_less_trans: "f32_less a b \<Longrightarrow> f32_less b c \<Longrightarrow> f32_less a c"
  by (auto simp: f32_less_def)

end
