(* ===== verification/Utils.thy ===== *)
theory Utils
  imports Float32
begin

text \<open>
  \<open>utils.cpp\<close> and \<open>utils.h\<close> without \<open>LlmInfo\<close> (which is in \<open>Llm_Info\<close>): case-insensitive comparison of
  option names, splitting, and the text form of an embedding that commands, replication and the AOF use.
\<close>

type_synonym vector = "f32 list"

section \<open>Operations\<close>

text \<open>The loop of \<open>str_case_equal\<close> from \<open>idx\<close>; the caller has compared the sizes.\<close>

fun str_case_equal_from :: "string \<Rightarrow> string \<Rightarrow> nat \<Rightarrow> nat \<Rightarrow> bool" where
  "str_case_equal_from s1 s2 idx 0 = True"
| "str_case_equal_from s1 s2 idx (Suc n) =
     (if toupper (s1 ! idx) \<noteq> toupper (s2 ! idx) then False
      else str_case_equal_from s1 s2 (Suc idx) n)"

definition str_case_equal :: "string \<Rightarrow> string \<Rightarrow> bool" where
  "str_case_equal s1 s2 =
     (if length s1 \<noteq> length s2 then False else str_case_equal_from s1 s2 0 (length s1))"

text \<open>\<open>str.find(d, idx)\<close> for \<open>idx \<le> str.size()\<close>; \<open>None\<close> is \<open>npos\<close>.\<close>

fun find_sub :: "string \<Rightarrow> string \<Rightarrow> nat option" where
  "find_sub d s =
     (if take (length d) s = d then Some 0
      else case s of [] \<Rightarrow> None | c # t \<Rightarrow> map_option Suc (find_sub d t))"

declare find_sub.simps [simp del]

definition find_from :: "string \<Rightarrow> string \<Rightarrow> nat \<Rightarrow> nat option" where
  "find_from str d idx = map_option (\<lambda>k. idx + k) (find_sub d (drop idx str))"

lemma find_sub_Nil: "find_sub d [] = (if d = [] then Some 0 else None)"
  by (subst find_sub.simps) simp

lemma find_sub_Cons:
  "find_sub d (c # t) =
     (if take (length d) (c # t) = d then Some 0 else map_option Suc (find_sub d t))"
  by (subst find_sub.simps) simp

lemma take_eq_length: "take (length d) s = d \<Longrightarrow> length d \<le> length s"
  by (metis length_take min.cobounded1)

lemma find_sub_bound: "find_sub d s = Some k \<Longrightarrow> k + length d \<le> length s"
proof (induction s arbitrary: k)
  case Nil
  then show ?case by (auto simp: find_sub_Nil split: if_splits)
next
  case (Cons c t)
  then show ?case
    by (auto simp: find_sub_Cons split: if_splits dest: Cons.IH take_eq_length [of d "c # t"])
qed

text \<open>
  The loop of \<open>split\<close>: \<open>pos\<close> is the next delimiter from \<open>idx\<close>.  The caller has rejected the empty
  delimiter, for which the loop would not advance.
\<close>

function split_from :: "string \<Rightarrow> string \<Rightarrow> nat \<Rightarrow> string list" where
  "split_from str d idx =
     (case find_from str d idx of
        None \<Rightarrow> [drop idx str]
      | Some pos \<Rightarrow>
          if d = [] then [] else take (pos - idx) (drop idx str) # split_from str d (pos + length d))"
  by pat_completeness auto
termination
proof (relation "measure (\<lambda>(str, d, idx). Suc (length str) - idx)")
  fix str d :: string and idx pos
  assume f: "find_from str d idx = Some pos" and d: "d \<noteq> []"
  from f obtain k where k: "find_sub d (drop idx str) = Some k" "pos = idx + k"
    by (auto simp: find_from_def)
  have "k + length d \<le> length str - idx" using find_sub_bound [OF k(1)] by simp
  then show "((str, d, pos + length d), str, d, idx) \<in> measure (\<lambda>(str, d, idx). Suc (length str) - idx)"
    using d k(2) by (cases d) auto
qed simp

declare split_from.simps [simp del]

definition split :: "string \<Rightarrow> string \<Rightarrow> string list res" where
  "split str d =
     (if str = [] then Inr []
      else if d = [] then Inl (StdException ''delimiter must be not empty'')
      else Inr (split_from str d 0))"

definition parse_embedding :: "string \<Rightarrow> vector res" where
  "parse_embedding opt =
     bindR (split opt '','') (\<lambda>vec.
       mapR (\<lambda>ele. catchR is_StdException (stof ele) (\<lambda>e. Inl (Error ''invalid embedding''))) vec)"

text \<open>The loop of \<open>dump_embedding\<close>, with the text built so far.\<close>

fun dump_embedding_from :: "string \<Rightarrow> vector \<Rightarrow> string" where
  "dump_embedding_from acc [] = acc"
| "dump_embedding_from acc (ele # es) =
     dump_embedding_from ((if acc \<noteq> [] then acc @ '','' else acc) @ f32_to_string ele) es"

definition dump_embedding :: "vector \<Rightarrow> string" where
  "dump_embedding embedding = dump_embedding_from [] embedding"

section \<open>Case-insensitive comparison\<close>

lemma str_case_equal_from_iff:
  "idx + n \<le> length s1 \<Longrightarrow> idx + n \<le> length s2 \<Longrightarrow>
   str_case_equal_from s1 s2 idx n \<longleftrightarrow>
     map toupper (take n (drop idx s1)) = map toupper (take n (drop idx s2))"
proof (induction n arbitrary: idx)
  case 0
  then show ?case by simp
next
  case (Suc n)
  then have "drop idx s1 = s1 ! idx # drop (Suc idx) s1" "drop idx s2 = s2 ! idx # drop (Suc idx) s2"
    by (simp_all add: Cons_nth_drop_Suc)
  then show ?case using Suc by simp
qed

theorem str_case_equal_iff: "str_case_equal s1 s2 \<longleftrightarrow> map toupper s1 = map toupper s2"
  using str_case_equal_from_iff [of 0 "length s1" s1 s2]
  by (auto simp: str_case_equal_def dest: arg_cong [where f = length])

lemma str_case_equal_refl [simp]: "str_case_equal s s"
  by (simp add: str_case_equal_iff)

lemma str_case_equal_sym: "str_case_equal s t = str_case_equal t s"
  by (auto simp: str_case_equal_iff)

lemma str_case_equal_trans: "str_case_equal s t \<Longrightarrow> str_case_equal t u \<Longrightarrow> str_case_equal s u"
  by (simp add: str_case_equal_iff)

section \<open>Splitting\<close>

text \<open>Joining with a separator, the inverse of \<open>split\<close>.\<close>

fun join :: "string \<Rightarrow> string list \<Rightarrow> string" where
  "join d [] = []"
| "join d [x] = x"
| "join d (x # y # ys) = x @ d @ join d (y # ys)"

lemma find_sub_take: "find_sub d s = Some k \<Longrightarrow> take (length d) (drop k s) = d"
proof (induction s arbitrary: k)
  case Nil
  then show ?case by (auto simp: find_sub_Nil split: if_splits)
next
  case (Cons c t)
  then show ?case by (auto simp: find_sub_Cons split: if_splits)
qed

lemma split_from_nonempty [simp]: "d \<noteq> [] \<Longrightarrow> split_from str d idx \<noteq> []"
  by (subst split_from.simps) (simp split: option.splits)

lemma join_split_from: "d \<noteq> [] \<Longrightarrow> join d (split_from str d idx) = drop idx str"
proof (induction str d idx rule: split_from.induct)
  case (1 str d idx)
  show ?case
  proof (cases "find_from str d idx")
    case None
    then show ?thesis by (subst split_from.simps) simp
  next
    case (Some pos)
    then obtain k where k: "find_sub d (drop idx str) = Some k" "pos = idx + k"
      by (auto simp: find_from_def)
    let ?rest = "split_from str d (pos + length d)"
    have IH: "join d ?rest = drop (pos + length d) str" using "1.IH" [OF Some] "1.prems" by simp
    have eq: "split_from str d idx = take k (drop idx str) # ?rest"
      using Some "1.prems" k(2) by (subst split_from.simps) simp
    obtain y ys where rest: "?rest = y # ys" using "1.prems" by (cases ?rest) auto
    have "join d (split_from str d idx) = take k (drop idx str) @ d @ join d ?rest"
      unfolding eq rest by simp
    also have "d @ join d ?rest = drop k (drop idx str)"
      using find_sub_take [OF k(1)] IH k(2)
      by (metis add.commute append_take_drop_id drop_drop)
    finally show ?thesis by (simp only: append_take_drop_id)
  qed
qed

theorem split_join: "split str d = Inr xs \<Longrightarrow> join d xs = str"
  using join_split_from [of d str 0] by (auto simp: split_def split: if_splits)

lemma find_sub_single: "find_sub [c] s = (if c \<in> set s then Some (length (takeWhile (\<lambda>x. x \<noteq> c) s)) else None)"
proof (induction s)
  case Nil
  then show ?case by (simp add: find_sub_Nil)
next
  case (Cons x s)
  then show ?case by (auto simp: find_sub_Cons)
qed

lemma split_from_append:
  assumes "c \<notin> set x"
  shows "split_from (pre @ x @ c # s) [c] (length pre) = x # split_from (pre @ x @ c # s) [c] (length (pre @ x @ [c]))"
proof -
  have "takeWhile (\<lambda>y. y \<noteq> c) (x @ c # s) = x" using assms by (induction x) auto
  then show ?thesis
    by (subst split_from.simps) (simp add: find_from_def find_sub_single)
qed

lemma split_from_last: "c \<notin> set x \<Longrightarrow> split_from (pre @ x) [c] (length pre) = [x]"
  by (subst split_from.simps) (simp add: find_from_def find_sub_single)

lemma split_from_join:
  "\<forall>x \<in> set xs. c \<notin> set x \<Longrightarrow> xs \<noteq> [] \<Longrightarrow> split_from (pre @ join [c] xs) [c] (length pre) = xs"
proof (induction xs arbitrary: pre)
  case Nil
  then show ?case by simp
next
  case (Cons x xs)
  show ?case
  proof (cases xs)
    case Nil
    then show ?thesis using Cons.prems split_from_last by simp
  next
    case (Cons y ys)
    have "split_from ((pre @ x @ [c]) @ join [c] xs) [c] (length (pre @ x @ [c])) = xs"
      by (rule Cons.IH) (use Cons.prems Cons in auto)
    then show ?thesis
      using Cons.prems split_from_append [of c x pre "join [c] xs"] Cons by simp
  qed
qed

section \<open>The text form of an embedding\<close>

lemma dump_embedding_from_eq:
  "acc \<noteq> [] \<Longrightarrow> dump_embedding_from acc es = join '','' (acc # map f32_to_string es)"
proof (induction es arbitrary: acc)
  case Nil
  then show ?case by simp
next
  case (Cons e es)
  then have "dump_embedding_from acc (e # es) = join '','' ((acc @ '','' @ f32_to_string e) # map f32_to_string es)"
    by simp
  also have "\<dots> = join '','' (acc # f32_to_string e # map f32_to_string es)"
    by (cases es) simp_all
  finally show ?case by simp
qed

lemma dump_embedding_join: "dump_embedding v = join '','' (map f32_to_string v)"
  by (cases v) (simp_all add: dump_embedding_def dump_embedding_from_eq)

lemma dump_embedding_eq_Nil [simp]: "dump_embedding v = [] \<longleftrightarrow> v = []"
proof (cases v)
  case Nil
  then show ?thesis by (simp add: dump_embedding_join)
next
  case (Cons x xs)
  then show ?thesis by (cases xs) (simp_all add: dump_embedding_join)
qed

theorem parse_dump_embedding: "parse_embedding (dump_embedding v) = Inr (map f32_canon v)"
proof (cases "v = []")
  case True
  then show ?thesis by (simp add: parse_embedding_def split_def dump_embedding_join)
next
  case False
  then have "split_from (dump_embedding v) '','' 0 = map f32_to_string v"
    using split_from_join [of "map f32_to_string v" "CHR '',''" "[]"] comma_not_in_f32_to_string
    by (simp add: dump_embedding_join)
  then show ?thesis
    using False
    by (simp add: parse_embedding_def split_def mapR_map stof_f32_to_string mapR_Inr [where g = f32_canon])
qed

theorem dump_embedding_canon: "dump_embedding (map f32_canon v) = dump_embedding v"
  by (simp add: dump_embedding_join comp_def)

text \<open>A parse that fails reports \<open>invalid embedding\<close>, whatever was wrong.\<close>

lemma parse_embedding_Inl: "parse_embedding s = Inl e \<Longrightarrow> e = Error ''invalid embedding''"
proof -
  have "mapR (\<lambda>ele. catchR is_StdException (stof ele) (\<lambda>e. Inl (Error ''invalid embedding''))) xs = Inl e
      \<Longrightarrow> e = Error ''invalid embedding''" for xs
    by (induction xs) (auto simp: bindR_eq_Inl catchR_def dest: stof_Inl split: sum.splits if_splits)
  then show "parse_embedding s = Inl e \<Longrightarrow> e = Error ''invalid embedding''"
    by (auto simp: parse_embedding_def split_def split: if_splits)
qed

lemma split_from_single: "x \<in> set (split_from str [c] idx) \<Longrightarrow> c \<notin> set x"
proof (induction str "[c]" idx rule: split_from.induct)
  case (1 str idx)
  show ?case
  proof (cases "c \<in> set (drop idx str)")
    case True
    let ?k = "length (takeWhile (\<lambda>x. x \<noteq> c) (drop idx str))"
    have f: "find_from str [c] idx = Some (idx + ?k)" using True by (simp add: find_from_def find_sub_single)
    have "c \<notin> set (takeWhile (\<lambda>x. x \<noteq> c) (drop idx str))" by (auto dest: set_takeWhileD)
    then have "c \<notin> set (take ?k (drop idx str))" by (simp flip: takeWhile_eq_take)
    with 1 f show ?thesis by (subst (asm) split_from.simps) auto
  next
    case False
    then have "find_from str [c] idx = None" by (simp add: find_from_def find_sub_single)
    with 1(2) False show ?thesis by (subst (asm) split_from.simps) simp
  qed
qed

section \<open>Properties\<close>

text \<open>Option names are compared without case: \<open>str_case_equal\<close>, which walks two views by index and stops
  at the first difference, agrees with the comparison of the upper-cased strings.\<close>

lemma option_name_equal: "str_case_equal s1 s2 \<longleftrightarrow> map toupper s1 = map toupper s2"
  by (rule str_case_equal_iff)

text \<open>\<open>split\<close> loses nothing: joining the pieces with the delimiter gives the string back, and with a
  delimiter of one character no piece contains it (so the pieces are the maximal ones).\<close>

lemma split_partition:
  assumes "split str d = Inr xs"
  shows "join d xs = str \<and> (length d = 1 \<longrightarrow> (\<forall>x \<in> set xs. set d \<inter> set x = {}))"
proof -
  have "set d \<inter> set x = {}" if "length d = 1" and "x \<in> set xs" for x
  proof -
    from that(1) obtain c where d: "d = [c]" by (auto simp: length_Suc_conv)
    then show ?thesis using assms that(2) split_from_single [of x str c 0] by (auto simp: split_def split: if_splits)
  qed
  then show ?thesis using split_join [OF assms] by blast
qed

text \<open>C32. An embedding that is written with six decimals and read back is the canonical embedding, each
  component rounded to six decimals and then to the nearest float; from then on the text and the
  value no longer change, so a replica of a replica holds what the replica holds.\<close>

theorem embedding_roundtrip:
  "parse_embedding (dump_embedding v) = Inr (map f32_canon v) \<and>
   dump_embedding (map f32_canon v) = dump_embedding v \<and>
   parse_embedding (dump_embedding (map f32_canon v)) = Inr (map f32_canon v)"
  by (simp add: parse_dump_embedding dump_embedding_canon)

text \<open>The text of a float loses nothing when the float is a multiple of the last decimal that is written:
  an embedding of such components survives replication bit for bit.\<close>

lemma embedding_exact:
  assumes "\<forall>w \<in> set v. f32_exact6 w"
  shows "parse_embedding (dump_embedding v) = Inr v"
  using assms by (simp add: parse_dump_embedding f32_canon_exact map_idI)

end
