(* ===== verification/Json.thy ===== *)
theory Json
  imports Utils "HOL-Library.Char_ord" "HOL-Library.List_Lexorder"
begin

text \<open>
  JSON values and the accessors of \<open>nlohmann::json\<close> that the program calls, with the exceptions they
  throw.  The text form (\<open>parse\<close> and \<open>dump\<close>) is an argument of the definitions that use it, a record
  \<open>json_text\<close>; the model of the library's own is \<open>nlohmann_json\<close> (theory \<open>Json_Text\<close>).

  Objects are \<open>std::map\<close>, so an association list sorted by key (bytes compared unsigned); integers keep
  the two representations the library has (\<open>number_integer\<close>, \<open>number_unsigned\<close>); a \<open>number_float\<close> is
  the bit pattern of a binary64.
\<close>

datatype json =
    JNull
  | JBool bool
  | JInt "64 word"
  | JUInt "64 word"
  | JFloat "64 word"
  | JString string
  | JArray "json list"
  | JObject "(string \<times> json) list"

record json_text =
  jparse :: "string \<Rightarrow> json res"
  jdump :: "json \<Rightarrow> string res"

section \<open>Objects\<close>

fun obj_put :: "string \<Rightarrow> json \<Rightarrow> (string \<times> json) list \<Rightarrow> (string \<times> json) list" where
  "obj_put k v [] = [(k, v)]"
| "obj_put k v ((k', v') # m) =
     (if k = k' then (k, v) # m
      else if k < k' then (k, v) # (k', v') # m
      else (k', v') # obj_put k v m)"

lemma map_of_obj_put [simp]: "map_of (obj_put k v m) = (map_of m)(k \<mapsto> v)"
  by (induction k v m rule: obj_put.induct) auto

lemma keys_obj_put: "fst ` set (obj_put k v m) = insert k (fst ` set m)"
  by (induction k v m rule: obj_put.induct) auto

lemma obj_put_sorted: "sorted (keys m) \<Longrightarrow> distinct (keys m) \<Longrightarrow>
    sorted (keys (obj_put k v m)) \<and> distinct (keys (obj_put k v m))"
  by (induction k v m rule: obj_put.induct) (auto simp: keys_obj_put)

section \<open>Accessors\<close>

fun type_name :: "json \<Rightarrow> string" where
  "type_name JNull = ''null''"
| "type_name (JBool b) = ''boolean''"
| "type_name (JInt i) = ''number''"
| "type_name (JUInt i) = ''number''"
| "type_name (JFloat x) = ''number''"
| "type_name (JString s) = ''string''"
| "type_name (JArray xs) = ''array''"
| "type_name (JObject m) = ''object''"

definition type_error :: "string \<Rightarrow> string \<Rightarrow> 'a res" where
  "type_error code msg = Inl (JsonException (''[json.exception.type_error.'' @ code @ ''] '' @ msg))"

text \<open>\<open>j.find(k)\<close>: \<open>end()\<close> (here \<open>None\<close>) when the key is absent and when \<open>j\<close> is not an object.\<close>

fun jfind :: "json \<Rightarrow> string \<Rightarrow> json option" where
  "jfind (JObject m) k = map_of m k"
| "jfind _ k = None"

text \<open>\<open>j.at(k)\<close>.\<close>

fun jat :: "json \<Rightarrow> string \<Rightarrow> json res" where
  "jat (JObject m) k =
     (case map_of m k of
        None \<Rightarrow> Inl (JsonException (''[json.exception.out_of_range.403] key '' @ [CHR 0x27] @ k @ [CHR 0x27] @ '' not found''))
      | Some v \<Rightarrow> Inr v)"
| "jat j k = type_error ''304'' (''cannot use at() with '' @ type_name j)"

text \<open>\<open>j[k] = v\<close>: null becomes an object first.\<close>

fun jput :: "json \<Rightarrow> string \<Rightarrow> json \<Rightarrow> json res" where
  "jput JNull k v = Inr (JObject [(k, v)])"
| "jput (JObject m) k v = Inr (JObject (obj_put k v m))"
| "jput j k v = type_error ''305'' (''cannot use operator[] with a string argument with '' @ type_name j)"

text \<open>\<open>j.push_back(v)\<close>: null becomes an array first.\<close>

fun jpush_back :: "json \<Rightarrow> json \<Rightarrow> json res" where
  "jpush_back JNull v = Inr (JArray [v])"
| "jpush_back (JArray xs) v = Inr (JArray (xs @ [v]))"
| "jpush_back j v = type_error ''308'' (''cannot use push_back() with '' @ type_name j)"

text \<open>\<open>j.value<T>(k, d)\<close>, with the conversion \<open>get<T>()\<close> as an argument.\<close>

fun jvalue :: "(json \<Rightarrow> 'a res) \<Rightarrow> json \<Rightarrow> string \<Rightarrow> 'a \<Rightarrow> 'a res" where
  "jvalue get (JObject m) k d = (case map_of m k of None \<Rightarrow> Inr d | Some v \<Rightarrow> get v)"
| "jvalue get j k d = type_error ''306'' (''cannot use value() with '' @ type_name j)"

section \<open>Conversions \<open>get<T>()\<close>\<close>

fun get_json :: "json \<Rightarrow> json res" where
  "get_json j = Inr j"

fun get_string :: "json \<Rightarrow> string res" where
  "get_string (JString s) = Inr s"
| "get_string j = type_error ''302'' (''type must be string, but is '' @ type_name j)"

fun get_bool :: "json \<Rightarrow> bool res" where
  "get_bool (JBool b) = Inr b"
| "get_bool j = type_error ''302'' (''type must be boolean, but is '' @ type_name j)"

text \<open>binary64: sign, scaled magnitude in units of \<open>2 ^ -1074\<close>, and whether it is finite.\<close>

definition f64_neg :: "64 word \<Rightarrow> bool" where
  "f64_neg w \<longleftrightarrow> 2 ^ 63 \<le> unat w"

definition f64_exp :: "64 word \<Rightarrow> nat" where
  "f64_exp w = unat w mod 2 ^ 63 div 2 ^ 52"

definition f64_mag :: "64 word \<Rightarrow> nat" where
  "f64_mag w =
     (let f = unat w mod 2 ^ 52; e = f64_exp w
      in if e = 0 then f else (2 ^ 52 + f) * 2 ^ (e - 1))"

text \<open>\<open>static_cast<I>(double)\<close>: truncation; undefined when the result is outside \<open>[lo, hi]\<close>.\<close>

definition f64_to_int :: "int \<Rightarrow> int \<Rightarrow> 64 word \<Rightarrow> int res" where
  "f64_to_int lo hi w =
     (let t = int (f64_mag w div 2 ^ 1074); v = (if f64_neg w then - t else t)
      in if f64_exp w = 2047 \<or> v < lo \<or> hi < v then Inl Undefined else Inr v)"

text \<open>
  \<open>get<std::size_t>()\<close> and \<open>get<uint64_t>()\<close> accept the three number types; the narrower integer types
  also accept a boolean.  Integers convert modulo \<open>2 ^ n\<close>.
\<close>

fun get_u64 :: "json \<Rightarrow> u64 res" where
  "get_u64 (JUInt n) = Inr n"
| "get_u64 (JInt i) = Inr i"
| "get_u64 (JFloat x) = bindR (f64_to_int 0 (2 ^ 64 - 1) x) (\<lambda>v. Inr (of_int v))"
| "get_u64 j = type_error ''302'' (''type must be number, but is '' @ type_name j)"

fun get_u32 :: "json \<Rightarrow> u32 res" where
  "get_u32 (JUInt n) = Inr (ucast n)"
| "get_u32 (JInt i) = Inr (ucast i)"
| "get_u32 (JFloat x) = bindR (f64_to_int 0 (2 ^ 32 - 1) x) (\<lambda>v. Inr (of_int v))"
| "get_u32 (JBool b) = Inr (of_bool b)"
| "get_u32 j = type_error ''302'' (''type must be number, but is '' @ type_name j)"

fun get_int :: "json \<Rightarrow> 32 word res" where
  "get_int (JUInt n) = Inr (ucast n)"
| "get_int (JInt i) = Inr (ucast i)"
| "get_int (JFloat x) = bindR (f64_to_int (- (2 ^ 31)) (2 ^ 31 - 1) x) (\<lambda>v. Inr (of_int v))"
| "get_int (JBool b) = Inr (of_bool b)"
| "get_int j = type_error ''302'' (''type must be number, but is '' @ type_name j)"

text \<open>\<open>static_cast<float>\<close>: round to nearest even, too large becomes infinite (IEEE 754).\<close>

definition round_f32 :: "bool \<Rightarrow> nat \<Rightarrow> nat \<Rightarrow> f32" where
  "round_f32 neg p q = mk_f32 neg (min inf_bits (round_bits p q))"

fun get_f32 :: "json \<Rightarrow> f32 res" where
  "get_f32 (JUInt n) = Inr (round_f32 False (unat n) 1)"
| "get_f32 (JInt i) = Inr (round_f32 (sint i < 0) (nat \<bar>sint i\<bar>) 1)"
| "get_f32 (JFloat x) =
     (if f64_exp x = 2047 then
        Inr (mk_f32 (f64_neg x) (if unat x mod 2 ^ 52 = 0 then inf_bits else inf_bits + 2 ^ 22))
      else Inr (round_f32 (f64_neg x) (f64_mag x) (2 ^ 1074)))"
| "get_f32 (JBool b) = Inr (round_f32 False (of_bool b) 1)"
| "get_f32 j = type_error ''302'' (''type must be number, but is '' @ type_name j)"

text \<open>\<open>get<std::vector<float>>()\<close>.\<close>

fun get_vector :: "json \<Rightarrow> vector res" where
  "get_vector (JArray xs) = mapR get_f32 xs"
| "get_vector j = type_error ''302'' (''type must be array, but is '' @ type_name j)"

section \<open>Laws of the accessors\<close>

lemma jput_jfind: "jput j k v = Inr j' \<Longrightarrow> jfind j' k' = (if k' = k then Some v else jfind j k')"
  by (cases "(j, k, v)" rule: jput.cases) (auto simp: type_error_def)

lemma jput_JObject: "jput j k v = Inr j' \<Longrightarrow> \<exists>m. j' = JObject m"
  by (cases "(j, k, v)" rule: jput.cases) (auto simp: type_error_def)

lemma jput_ok_iff: "(\<exists>j'. jput j k v = Inr j') \<longleftrightarrow> j = JNull \<or> (\<exists>m. j = JObject m)"
  by (cases j) (auto simp: type_error_def)

lemma jput_Inl: "jput j k v = Inl e \<Longrightarrow> is_JsonException e"
  by (cases "(j, k, v)" rule: jput.cases) (auto simp: type_error_def)

lemma jat_jfind: "jat j k = Inr v \<longleftrightarrow> jfind j k = Some v"
  by (cases j) (auto simp: type_error_def split: option.splits)

lemma jat_Inl: "jat j k = Inl e \<Longrightarrow> is_JsonException e"
  by (cases "(j, k)" rule: jat.cases) (auto simp: type_error_def split: option.splits)

lemma get_string_Inr [simp]: "get_string j = Inr s \<longleftrightarrow> j = JString s"
  by (cases j) (auto simp: type_error_def)

lemma get_string_Inl: "get_string j = Inl e \<Longrightarrow> is_JsonException e"
  by (cases j) (auto simp: type_error_def)

lemma is_JsonException_is_StdException [simp]: "is_JsonException e \<Longrightarrow> is_StdException e"
  by (cases e) auto

lemma is_JsonException_not_Error [simp]: "is_JsonException e \<Longrightarrow> \<not> is_Error e"
  by (cases e) auto

text \<open>What the accessors throw.\<close>

lemma type_error_fails [fails_intros]: "fails is_JsonException (type_error code msg)"
  by (simp add: type_error_def fails_def)

lemma json_fails [fails_intros]:
  "fails is_JsonException (jat j k)" "fails is_JsonException (jput j k v)" "fails is_JsonException (jpush_back j v)"
  "fails is_JsonException (get_string j)" "fails is_JsonException (get_bool j)" "fails is_JsonException (get_json j)"
  by (auto simp: fails_def dest: jat_Inl jput_Inl get_string_Inl)
    (auto simp: type_error_def elim: jpush_back.elims get_bool.elims)

lemma jvalue_fails: "(\<And>v. fails E (get v)) \<Longrightarrow> (\<And>e. is_JsonException e \<Longrightarrow> E e) \<Longrightarrow> fails E (jvalue get j k d)"
  by (cases j) (auto simp: type_error_def fails_def split: option.splits)

lemma get_f32_fails [fails_intros]: "fails is_JsonException (get_f32 j)"
  by (cases j) (auto simp: type_error_def fails_def split: if_splits)

lemma get_vector_fails [fails_intros]: "fails is_JsonException (get_vector j)"
  by (cases j) (auto simp: type_error_fails intro!: fails_intros)

text \<open>A number that does not fit makes the conversion to an integer undefined.\<close>

definition json_or_undefined :: "exn \<Rightarrow> bool" where
  "json_or_undefined e \<longleftrightarrow> is_JsonException e \<or> e = Undefined"

lemma get_int_fails [fails_intros]:
  "fails json_or_undefined (get_u64 j)" "fails json_or_undefined (get_u32 j)" "fails json_or_undefined (get_int j)"
  by (cases j; auto simp: type_error_def fails_def json_or_undefined_def f64_to_int_def Let_def bindR_eq_Inl
      split: if_splits)+

text \<open>\<open>parse\<close> and \<open>dump\<close> throw \<open>json::exception\<close> only (lemma \<open>nlohmann_json_ok\<close>).\<close>

definition json_text_ok :: "json_text \<Rightarrow> bool" where
  "json_text_ok J \<longleftrightarrow> (\<forall>s. fails is_JsonException (jparse J s)) \<and> (\<forall>j. fails is_JsonException (jdump J j))"

text \<open>A small text form for examples: the empty object and array, and an object with the two members of an
  \<open>LlmInfo\<close> whose text is the key after a brace.\<close>

definition sample_json :: json_text where
  "sample_json =
     \<lparr>jparse = (\<lambda>s. if s = ''{}'' then Inr (JObject []) else if s = ''[]'' then Inr (JArray [])
        else case s of
          [] \<Rightarrow> Inl (JsonException ''parse error'')
        | c # k \<Rightarrow> if c = CHR ''{'' then Inr (JObject [(''key'', JString k), (''params'', JObject [])])
                   else Inl (JsonException ''parse error'')),
      jdump = (\<lambda>j. case j of
          JObject [] \<Rightarrow> Inr ''{}''
        | JArray [] \<Rightarrow> Inr ''[]''
        | JObject [(a, JString k), (b, JObject [])] \<Rightarrow> Inr (CHR ''{'' # k)
        | _ \<Rightarrow> Inr ''?'')\<rparr>"

lemma sample_json_ok: "json_text_ok sample_json"
  by (auto simp: json_text_ok_def sample_json_def fails_def split: list.split json.split prod.split)

end
