(* ===== verification/Llm_Info.thy ===== *)
theory Llm_Info
  imports Json
begin

text \<open>\<open>LlmInfo\<close> of \<open>utils.h\<close> and \<open>utils.cpp\<close>: which LLM model (by Redis key) an object uses, and with which
  parameters; its text form is what the RDB and the AOF store.\<close>

record llm_info =
  li_key :: string
  li_params :: json

text \<open>\<open>LlmInfo() = default\<close>: the empty key and a null value.\<close>

definition llm_info_default :: llm_info where
  "llm_info_default = \<lparr>li_key = [], li_params = JNull\<rparr>"

text \<open>\<open>LlmInfo::_init\<close>.\<close>

definition llm_info_init :: "json \<Rightarrow> llm_info res" where
  "llm_info_init info =
     (if info = JNull then Inl (Error ''null LLM info'')
      else catchR is_JsonException
        (bindR (bindR (jat info ''key'') get_string) (\<lambda>key.
         bindR (jvalue get_json info ''params'' (JObject [])) (\<lambda>params.
         Inr \<lparr>li_key = key, li_params = params\<rparr>)))
        (\<lambda>e. Inl (Error (''invalid LLM info: '' @ what e))))"

text \<open>\<open>LlmInfo::LlmInfo(const std::string_view &)\<close>: a JSON object, or the key itself.\<close>

definition llm_info_of :: "json_text \<Rightarrow> string \<Rightarrow> llm_info res" where
  "llm_info_of J info =
     catchR is_StdException
       (bindR
          (if info \<noteq> [] \<and> hd info = CHR ''{'' then jparse J info
           else jput JNull ''key'' (JString info))
          llm_info_init)
       (\<lambda>e. Inl (Error (''invalid LLM info: '' @ what e)))"

text \<open>\<open>LlmInfo::to_string\<close>.\<close>

definition llm_info_json :: "llm_info \<Rightarrow> json res" where
  "llm_info_json i =
     bindR (jput JNull ''key'' (JString (li_key i))) (\<lambda>llm. jput llm ''params'' (li_params i))"

definition llm_info_to_string :: "json_text \<Rightarrow> llm_info \<Rightarrow> string res" where
  "llm_info_to_string J i =
     catchR is_JsonException (bindR (llm_info_json i) (jdump J))
       (\<lambda>e. Inl (Error (''LlmInfo::to_string fail: '' @ what e)))"

section \<open>Properties\<close>

lemma llm_info_json_eq:
  "llm_info_json i = Inr (JObject [(''key'', JString (li_key i)), (''params'', li_params i)])"
proof -
  have "(''key'' :: string) < ''params''" "(''params'' :: string) \<noteq> ''key''" by code_simp+
  then show ?thesis by (simp add: llm_info_json_def)
qed

lemma llm_info_init_json:
  "llm_info_json i = Inr j \<Longrightarrow> llm_info_init j = Inr i"
  by (auto simp: llm_info_json_eq llm_info_init_def)

text \<open>
  Round trip: the text of an \<open>LlmInfo\<close> reads back as the same value, when the JSON library reads back
  what it wrote for this value and an object is written with an opening brace.
\<close>

lemma llm_info_roundtrip:
  assumes "llm_info_to_string J i = Inr s"
    and "\<And>j. llm_info_json i = Inr j \<Longrightarrow> jdump J j = Inr s \<Longrightarrow> jparse J s = Inr j"
    and "hd s = CHR ''{''" and "s \<noteq> []"
  shows "llm_info_of J s = Inr i"
proof -
  obtain j where j: "llm_info_json i = Inr j" using llm_info_json_eq by blast
  with assms(1) have "jdump J j = Inr s"
    by (auto simp: llm_info_to_string_def catchR_def split: sum.splits if_splits)
  then have "jparse J s = Inr j" using assms(2) j by blast
  with assms(3,4) show ?thesis
    by (simp add: llm_info_of_def llm_info_init_json [OF j])
qed

text \<open>A plain key (no opening brace) is taken as it is, with empty parameters.\<close>

lemma llm_info_of_key:
  assumes "s = [] \<or> hd s \<noteq> CHR ''{''"
  shows "llm_info_of J s = Inr \<lparr>li_key = s, li_params = JObject []\<rparr>"
  using assms by (auto simp: llm_info_of_def llm_info_init_def)

end
