(* ===== verification/Vector_Index.thy ===== *)
theory Vector_Index
  imports Llm_Info
begin

text \<open>
  The interface between \<open>VectorStore\<close> and its index: the pure virtual functions of \<open>vector_store.h\<close>
  (\<open>_add\<close>, \<open>_rem\<close>, \<open>_get\<close>, \<open>_knn\<close>, \<open>_lazily_init\<close>) as a record of functions over the index state,
  the virtual table of the class, and the laws a derived class promises as locales.
\<close>

record 'ix index_ops =
  ix_init :: "nat \<Rightarrow> 'ix \<Rightarrow> unit res \<times> 'ix"
  ix_add :: "u64 \<Rightarrow> vector \<Rightarrow> 'ix \<Rightarrow> 'ix res"
  ix_rem :: "u64 \<Rightarrow> 'ix \<Rightarrow> 'ix res"
  ix_get :: "u64 \<Rightarrow> 'ix \<Rightarrow> vector option res"
  ix_knn :: "vector \<Rightarrow> u64 \<Rightarrow> 'ix \<Rightarrow> (u64 \<times> f32) list res"

text \<open>
  \<open>fresh\<close> holds before the lazy initialisation, \<open>okay d\<close> after an initialisation for dimension \<open>d\<close>;
  \<open>vecs\<close> is the content: the vector of each identifier that is present; \<open>room ix i\<close> says that the
  index can take the identifier.
\<close>

locale vector_index =
  fixes V :: "'ix index_ops"
    and fresh :: "'ix \<Rightarrow> bool"
    and okay :: "nat \<Rightarrow> 'ix \<Rightarrow> bool"
    and vecs :: "'ix \<Rightarrow> u64 \<Rightarrow> vector option"
    and room :: "'ix \<Rightarrow> u64 \<Rightarrow> bool"
  assumes init_ok: "fresh ix \<Longrightarrow> ix_init V d ix = (Inr (), ix') \<Longrightarrow> okay d ix' \<and> vecs ix' = Map.empty"
    and init_err: "fresh ix \<Longrightarrow> ix_init V d ix = (Inl e, ix') \<Longrightarrow> \<not> is_Error e"
    and add_room: "okay d ix \<Longrightarrow> length v = d \<Longrightarrow> (\<exists>ix'. ix_add V i v ix = Inr ix') \<longleftrightarrow> room ix i"
    and add_ok: "okay d ix \<Longrightarrow> length v = d \<Longrightarrow> ix_add V i v ix = Inr ix' \<Longrightarrow>
      okay d ix' \<and> vecs ix' = (vecs ix)(i \<mapsto> v)"
    and add_err: "okay d ix \<Longrightarrow> length v = d \<Longrightarrow> ix_add V i v ix = Inl e \<Longrightarrow> is_Error e"
    and rem_ok: "okay d ix \<Longrightarrow> vecs ix i = Some v \<Longrightarrow>
      \<exists>ix'. ix_rem V i ix = Inr ix' \<and> okay d ix' \<and> vecs ix' = (vecs ix)(i := None)"
    and get_ok: "okay d ix \<Longrightarrow> ix_get V i ix = Inr (vecs ix i)"
    and vecs_dim: "okay d ix \<Longrightarrow> vecs ix i = Some v \<Longrightarrow> length v = d"

locale knn_index = vector_index +
  assumes knn_sound: "okay d ix \<Longrightarrow> ix_knn V q k ix = Inr r \<Longrightarrow>
      distinct (map fst r) \<and> fst ` set r \<subseteq> dom (vecs ix) \<and> length r \<le> unat k"
    and knn_short: "okay d ix \<Longrightarrow> vecs ix \<noteq> Map.empty \<Longrightarrow> length q < d \<Longrightarrow> ix_knn V q k ix = Inl Undefined"

end
