(* ===== verification/Hnswlib.thy ===== *)
theory Hnswlib
  imports Vector_Index
begin

text \<open>
  The part of \<open>deps/hnswlib/hnswalg.h\<close> that the vector store relies on: the element memory, the label
  table, the deletion marks and the capacity.  The proximity graph is a parameter (\<open>graph_ops\<close>): how links are chosen, where the
  greedy descent ends, and the floating-point distance.  What is proved here holds whatever they do; \<open>Hnsw_Graph\<close> has the graph of the code.
  The search itself is in \<open>Hnsw_Search\<close>.
\<close>

section \<open>State\<close>

record hnsw_elem =
  el_label :: u64
  el_data :: vector
  el_deleted :: bool

text \<open>
  \<open>g_descend\<close> is the greedy descent through the upper layers: the element where the search of the base
  layer starts.  \<open>g_links g i\<close> is the link list of element \<open>i\<close> in the base layer.  \<open>mem_ok\<close> says whether
  the allocations of the constructor succeed.
\<close>

record 'g graph_ops =
  g_empty :: "u64 \<Rightarrow> u64 \<Rightarrow> 'g"
  g_insert :: "'g \<Rightarrow> hnsw_elem list \<Rightarrow> nat \<Rightarrow> 'g"
  g_update :: "'g \<Rightarrow> hnsw_elem list \<Rightarrow> nat \<Rightarrow> 'g"
  g_descend :: "'g \<Rightarrow> hnsw_elem list \<Rightarrow> vector \<Rightarrow> nat res"
  g_links :: "'g \<Rightarrow> nat \<Rightarrow> nat list res"
  g_dist :: "vector \<Rightarrow> vector \<Rightarrow> f32"
  mem_ok :: "nat \<Rightarrow> u64 \<Rightarrow> u64 \<Rightarrow> bool"

text \<open>\<open>elems\<close> is the element memory: its length is \<open>cur_element_count\<close>, an index is an internal id.\<close>

record 'g hnsw =
  max_elements :: u64
  hdim :: nat
  elems :: "hnsw_elem list"
  label_lookup :: "(u64 \<times> nat) list"
  num_deleted :: nat
  hgraph :: 'g

text \<open>The default \<open>ef_\<close> of the constructor.\<close>

definition ef_default :: nat where
  "ef_default = 10"

text \<open>
  The constructor: \<open>std::vector<std::mutex>(max_elements)\<close> throws \<open>std::length_error\<close> above \<open>PTRDIFF_MAX / 40\<close>
  elements, the allocations may fail.
\<close>

definition hnsw_new :: "'g graph_ops \<Rightarrow> nat \<Rightarrow> u64 \<Rightarrow> u64 \<Rightarrow> u64 \<Rightarrow> 'g hnsw res" where
  "hnsw_new G dim maxe m efc =
     (if (2 ^ 63 - 1) div 40 < unat maxe then
        Inl (StdException ''cannot create std::vector larger than max_size()'')
      else if \<not> mem_ok G dim maxe m then Inl (StdException ''std::bad_alloc'')
      else Inr \<lparr>max_elements = maxe, hdim = dim, elems = [], label_lookup = [], num_deleted = 0,
                hgraph = g_empty G m efc\<rparr>)"

section \<open>Points\<close>

text \<open>\<open>isMarkedDeleted\<close>, \<open>markDeletedInternal\<close> and \<open>unmarkDeletedInternal\<close>.\<close>

definition is_marked_deleted :: "'g hnsw \<Rightarrow> nat \<Rightarrow> bool" where
  "is_marked_deleted h i = el_deleted (elems h ! i)"

definition mark_deleted_internal :: "'g hnsw \<Rightarrow> nat \<Rightarrow> 'g hnsw res" where
  "mark_deleted_internal h i =
     (if \<not> is_marked_deleted h i then
        Inr (h\<lparr>elems := (elems h)[i := (elems h ! i)\<lparr>el_deleted := True\<rparr>], num_deleted := num_deleted h + 1\<rparr>)
      else Inl (StdException ''The requested to delete element is already deleted''))"

definition unmark_deleted_internal :: "'g hnsw \<Rightarrow> nat \<Rightarrow> 'g hnsw res" where
  "unmark_deleted_internal h i =
     (if is_marked_deleted h i then
        Inr (h\<lparr>elems := (elems h)[i := (elems h ! i)\<lparr>el_deleted := False\<rparr>], num_deleted := num_deleted h - 1\<rparr>)
      else Inl (StdException ''The requested to undelete element is not deleted''))"

text \<open>\<open>updatePoint\<close>: overwrite the vector, repair the links.\<close>

definition update_point :: "'g graph_ops \<Rightarrow> 'g hnsw \<Rightarrow> vector \<Rightarrow> nat \<Rightarrow> 'g hnsw" where
  "update_point G h v i =
     (let els = (elems h)[i := (elems h ! i)\<lparr>el_data := take (hdim h) v\<rparr>]
      in h\<lparr>elems := els, hgraph := g_update G (hgraph h) els i\<rparr>)"

text \<open>
  \<open>addPoint(data, label)\<close>, with \<open>allow_replace_deleted_\<close> false: a known label is updated (and undeleted),
  a new one appended unless the index is full.  The vector is read through a pointer.
\<close>

definition add_point :: "'g graph_ops \<Rightarrow> 'g hnsw \<Rightarrow> vector \<Rightarrow> u64 \<Rightarrow> 'g hnsw res" where
  "add_point G h v label =
     (case map_of (label_lookup h) label of
        Some i \<Rightarrow>
          bindR (if is_marked_deleted h i then unmark_deleted_internal h i else Inr h) (\<lambda>h1.
          if length v < hdim h then Inl Undefined else Inr (update_point G h1 v i))
      | None \<Rightarrow>
          if unat (max_elements h) \<le> length (elems h) then
            Inl (StdException ''The number of elements exceeds the specified limit'')
          else if length v < hdim h then Inl Undefined
          else (let i = length (elems h);
                    els = elems h @ [\<lparr>el_label = label, el_data = take (hdim h) v, el_deleted = False\<rparr>]
                in Inr (h\<lparr>elems := els, label_lookup := AList.update label i (label_lookup h),
                          hgraph := g_insert G (hgraph h) els i\<rparr>)))"

definition mark_delete :: "'g hnsw \<Rightarrow> u64 \<Rightarrow> 'g hnsw res" where
  "mark_delete h label =
     (case map_of (label_lookup h) label of
        None \<Rightarrow> Inl (StdException ''Label not found'')
      | Some i \<Rightarrow> mark_deleted_internal h i)"

definition get_data_by_label :: "'g hnsw \<Rightarrow> u64 \<Rightarrow> vector res" where
  "get_data_by_label h label =
     (case map_of (label_lookup h) label of
        None \<Rightarrow> Inl (StdException ''Label not found'')
      | Some i \<Rightarrow> if is_marked_deleted h i then Inl (StdException ''Label not found'')
                  else Inr (el_data (elems h ! i)))"

section \<open>Invariant and content\<close>

definition hnsw_ok :: "'g hnsw \<Rightarrow> bool" where
  "hnsw_ok h \<longleftrightarrow>
     (\<forall>l i. map_of (label_lookup h) l = Some i \<longleftrightarrow> i < length (elems h) \<and> el_label (elems h ! i) = l) \<and>
     num_deleted h = length (filter el_deleted (elems h)) \<and>
     (\<forall>e \<in> set (elems h). length (el_data e) = hdim h) \<and>
     length (elems h) \<le> unat (max_elements h)"

definition hnsw_vecs :: "'g hnsw \<Rightarrow> u64 \<Rightarrow> vector option" where
  "hnsw_vecs h l =
     Option.bind (map_of (label_lookup h) l)
       (\<lambda>i. if el_deleted (elems h ! i) then None else Some (el_data (elems h ! i)))"

definition hnsw_room :: "'g hnsw \<Rightarrow> u64 \<Rightarrow> bool" where
  "hnsw_room h l \<longleftrightarrow>
     map_of (label_lookup h) l \<noteq> None \<or> length (elems h) < unat (max_elements h)"

lemma hnsw_lookup:
  assumes "hnsw_ok h" and "map_of (label_lookup h) l = Some i"
  shows "i < length (elems h)" and "el_label (elems h ! i) = l"
  using assms by (auto simp: hnsw_ok_def)

lemma hnsw_lookup_inj:
  "hnsw_ok h \<Longrightarrow> map_of (label_lookup h) l = Some i \<Longrightarrow> map_of (label_lookup h) l' = Some i \<Longrightarrow> l = l'"
  by (auto simp: hnsw_ok_def)

lemma hnsw_lookup_label:
  "hnsw_ok h \<Longrightarrow> i < length (elems h) \<Longrightarrow> map_of (label_lookup h) (el_label (elems h ! i)) = Some i"
  by (auto simp: hnsw_ok_def)

lemma hnsw_new_ok: "hnsw_new G d maxe m efc = Inr h \<Longrightarrow> hnsw_ok h \<and> hnsw_vecs h = Map.empty \<and> hdim h = d"
  by (auto simp: hnsw_new_def hnsw_ok_def hnsw_vecs_def fun_eq_iff split: if_splits)

text \<open>Counting after one list update.\<close>

lemma length_filter_update:
  "i < length xs \<Longrightarrow> length (filter P (xs[i := x])) + of_bool (P (xs ! i)) = length (filter P xs) + of_bool (P x)"
proof (induction xs arbitrary: i)
  case Nil
  then show ?case by simp
next
  case (Cons y xs)
  then show ?case by (cases i) auto
qed

text \<open>Replacing one element by one with the same label and a vector of the right length.\<close>

lemma hnsw_ok_replace:
  assumes ok: "hnsw_ok h" and l: "map_of (label_lookup h) l = Some i"
    and e: "el_label e = l" "length (el_data e) = hdim h"
    and n: "n + of_bool (el_deleted (elems h ! i)) = num_deleted h + of_bool (el_deleted e)"
    and h': "elems h' = (elems h)[i := e]" "label_lookup h' = label_lookup h" "num_deleted h' = n"
      "hdim h' = hdim h" "max_elements h' = max_elements h"
  shows "hnsw_ok h'"
    and "hnsw_vecs h' = (hnsw_vecs h)(l := if el_deleted e then None else Some (el_data e))"
proof -
  note i = hnsw_lookup [OF ok l]
  have lab: "el_label ((elems h)[i := e] ! j) = el_label (elems h ! j)" if "j < length (elems h)" for j
    using i e(1) that by (cases "j = i") simp_all
  have "n = length (filter el_deleted ((elems h)[i := e]))"
    using length_filter_update [OF i(1), of el_deleted e] n ok by (simp add: hnsw_ok_def)
  moreover have "\<forall>x \<in> set ((elems h)[i := e]). length (el_data x) = hdim h"
    using ok e(2) set_update_subset_insert [of "elems h" i e] by (auto simp: hnsw_ok_def)
  moreover have "map_of (label_lookup h) l' = Some j \<longleftrightarrow>
      j < length (elems h) \<and> el_label ((elems h)[i := e] ! j) = l'" for l' j
    using ok lab by (auto simp: hnsw_ok_def)
  ultimately show "hnsw_ok h'"
    using ok unfolding hnsw_ok_def h' by (simp only: length_list_update) blast
  show "hnsw_vecs h' = (hnsw_vecs h)(l := if el_deleted e then None else Some (el_data e))"
  proof
    fix l'
    show "hnsw_vecs h' l' = ((hnsw_vecs h)(l := if el_deleted e then None else Some (el_data e))) l'"
    proof (cases "l' = l")
      case True
      then show ?thesis using l i(1) by (simp add: hnsw_vecs_def h')
    next
      case False
      have "map_of (label_lookup h) l' = Some j \<Longrightarrow> j \<noteq> i" for j
        using hnsw_lookup_inj [OF ok l] False by blast
      then show ?thesis using False
        by (cases "map_of (label_lookup h) l'") (auto simp: hnsw_vecs_def h')
    qed
  qed
qed

section \<open>The operations keep the invariant\<close>

lemma mark_delete_ok:
  assumes ok: "hnsw_ok h" and v: "hnsw_vecs h l = Some v"
  obtains h' where "mark_delete h l = Inr h'" and "hnsw_ok h'" and "hnsw_vecs h' = (hnsw_vecs h)(l := None)"
    and "hdim h' = hdim h"
proof -
  obtain i where i: "map_of (label_lookup h) l = Some i" and nd: "\<not> el_deleted (elems h ! i)"
    using v by (auto simp: hnsw_vecs_def bind_eq_Some_conv split: if_splits)
  define h' where "h' = h\<lparr>elems := (elems h)[i := (elems h ! i)\<lparr>el_deleted := True\<rparr>], num_deleted := num_deleted h + 1\<rparr>"
  note il = hnsw_lookup [OF ok i]
  have "length (el_data (elems h ! i)) = hdim h" using ok il(1) by (simp add: hnsw_ok_def)
  then have "hnsw_ok h'" "hnsw_vecs h' = (hnsw_vecs h)(l := None)"
    using hnsw_ok_replace [OF ok i, of "(elems h ! i)\<lparr>el_deleted := True\<rparr>" "num_deleted h + 1" h'] il nd
    by (simp_all add: h'_def)
  moreover have "mark_delete h l = Inr h'"
    using i nd by (simp add: mark_delete_def mark_deleted_internal_def is_marked_deleted_def h'_def)
  ultimately show ?thesis using that by (simp add: h'_def)
qed

lemma get_data_by_label_vecs:
  "get_data_by_label h l = (case hnsw_vecs h l of None \<Rightarrow> Inl (StdException ''Label not found'') | Some v \<Rightarrow> Inr v)"
  by (auto simp: get_data_by_label_def hnsw_vecs_def is_marked_deleted_def split: option.splits)

lemma hnsw_elem_undelete: "\<not> el_deleted e \<Longrightarrow> e\<lparr>el_deleted := False\<rparr> = e"
  by (cases e) simp

lemma hnsw_label_absent:
  "hnsw_ok h \<Longrightarrow> map_of (label_lookup h) l = None \<Longrightarrow> j < length (elems h) \<Longrightarrow> el_label (elems h ! j) \<noteq> l"
  using hnsw_lookup_label by fastforce

lemma add_point_known:
  assumes ok: "hnsw_ok h" and d: "length v = hdim h" and l: "map_of (label_lookup h) l = Some i"
  obtains h' where "add_point G h v l = Inr h'" and "hnsw_ok h'" and "hnsw_vecs h' = (hnsw_vecs h)(l \<mapsto> v)"
    and "hdim h' = hdim h"
proof -
  note i = hnsw_lookup [OF ok l]
  let ?e = "(elems h ! i)\<lparr>el_deleted := False, el_data := v\<rparr>"
  define n where "n = num_deleted h - of_bool (el_deleted (elems h ! i))"
  define h' where "h' = h\<lparr>elems := (elems h)[i := ?e], num_deleted := n,
    hgraph := g_update G (hgraph h) ((elems h)[i := ?e]) i\<rparr>"
  have pos: "el_deleted (elems h ! i) \<Longrightarrow> 0 < num_deleted h"
    using ok i(1) by (auto simp: hnsw_ok_def filter_empty_conv intro!: Nat.gr0I)
  have "add_point G h v l = Inr h'"
    using l d i(1)
    by (auto simp: add_point_def is_marked_deleted_def unmark_deleted_internal_def update_point_def
        h'_def n_def Let_def hnsw_elem_undelete)
  moreover have "hnsw_ok h'" "hnsw_vecs h' = (hnsw_vecs h)(l \<mapsto> v)"
    using hnsw_ok_replace [OF ok l, of ?e n h'] i d pos by (simp_all add: h'_def n_def)
  ultimately show ?thesis using that by (simp add: h'_def)
qed

lemma add_point_new:
  assumes ok: "hnsw_ok h" and d: "length v = hdim h" and l: "map_of (label_lookup h) l = None"
    and room: "length (elems h) < unat (max_elements h)"
  obtains h' where "add_point G h v l = Inr h'" and "hnsw_ok h'" and "hnsw_vecs h' = (hnsw_vecs h)(l \<mapsto> v)"
    and "hdim h' = hdim h"
proof -
  let ?e = "\<lparr>el_label = l, el_data = v, el_deleted = False\<rparr>" and ?n = "length (elems h)"
  define h' where "h' = h\<lparr>elems := elems h @ [?e], label_lookup := AList.update l ?n (label_lookup h),
    hgraph := g_insert G (hgraph h) (elems h @ [?e]) ?n\<rparr>"
  have "add_point G h v l = Inr h'"
    using l d room by (simp add: add_point_def h'_def Let_def)
  moreover have "hnsw_ok h'"
    using ok d room hnsw_label_absent [OF ok l] by (auto simp: hnsw_ok_def h'_def nth_append)
  moreover have "hnsw_vecs h' = (hnsw_vecs h)(l \<mapsto> v)"
  proof
    fix l'
    show "hnsw_vecs h' l' = ((hnsw_vecs h)(l \<mapsto> v)) l'"
      using hnsw_lookup(1) [OF ok]
      by (cases "map_of (label_lookup h) l'") (auto simp: hnsw_vecs_def h'_def nth_append)
  qed
  ultimately show ?thesis using that by (simp add: h'_def)
qed

lemma add_point_full:
  "map_of (label_lookup h) l = None \<Longrightarrow> unat (max_elements h) \<le> length (elems h) \<Longrightarrow>
     add_point G h v l = Inl (StdException ''The number of elements exceeds the specified limit'')"
  by (simp add: add_point_def)

end
