(* ===== verification/Hnsw_Search.thy ===== *)
theory Hnsw_Search
  imports Hnswlib "HOL-Library.Multiset"
begin

text \<open>
  The search of \<open>hnswalg.h\<close>: \<open>searchBaseLayerST\<close>, \<open>searchBaseLayer\<close> and \<open>searchKnn\<close>, with the priority queues they use.
  The loop ends because every round removes a candidate and an element becomes a candidate once.
\<close>

section \<open>Priority queues\<close>

text \<open>
  \<open>std::priority_queue\<close> as a list: \<open>top\<close> is an element that no other one exceeds (the first such,
  where the comparison does not decide), \<open>pop\<close> removes it.
\<close>

fun pq_best :: "('a \<Rightarrow> 'a \<Rightarrow> bool) \<Rightarrow> 'a \<Rightarrow> 'a list \<Rightarrow> 'a" where
  "pq_best lt b [] = b"
| "pq_best lt b (x # xs) = pq_best lt (if lt b x then x else b) xs"

definition pq_top :: "('a \<Rightarrow> 'a \<Rightarrow> bool) \<Rightarrow> 'a list \<Rightarrow> 'a" where
  "pq_top lt xs = pq_best lt (hd xs) (tl xs)"

definition pq_pop :: "('a \<Rightarrow> 'a \<Rightarrow> bool) \<Rightarrow> 'a list \<Rightarrow> 'a list" where
  "pq_pop lt xs = remove1 (pq_top lt xs) xs"

lemma pq_best_mem: "pq_best lt b xs \<in> insert b (set xs)"
  by (induction lt b xs rule: pq_best.induct) (auto split: if_splits)

lemma pq_top_mem: "xs \<noteq> [] \<Longrightarrow> pq_top lt xs \<in> set xs"
  using pq_best_mem [of lt "hd xs" "tl xs"] by (cases xs) (auto simp: pq_top_def)

lemma length_pq_pop [simp]: "xs \<noteq> [] \<Longrightarrow> length (pq_pop lt xs) = length xs - 1"
  by (simp add: pq_pop_def length_remove1 pq_top_mem)

lemma set_pq_pop: "set (pq_pop lt xs) \<subseteq> set xs"
  by (simp add: pq_pop_def set_remove1_subset)

lemma distinct_pq_pop: "distinct (map f xs) \<Longrightarrow> distinct (map f (pq_pop lt xs))"
  using set_remove1_subset [of "pq_top lt xs" xs]
  by (auto simp: pq_pop_def distinct_map intro: inj_on_subset)

text \<open>\<open>while (q.size() > k) q.pop();\<close> and \<open>while (!q.empty()) { ... q.top() ...; q.pop(); }\<close>.\<close>

function pq_shrink :: "('a \<Rightarrow> 'a \<Rightarrow> bool) \<Rightarrow> nat \<Rightarrow> 'a list \<Rightarrow> 'a list" where
  "pq_shrink lt k xs = (if k < length xs then pq_shrink lt k (pq_pop lt xs) else xs)"
  by pat_completeness auto
termination
proof (relation "measure (\<lambda>(lt, k, xs). length xs)")
  fix lt :: "'a \<Rightarrow> 'a \<Rightarrow> bool" and k :: nat and xs :: "'a list"
  assume "k < length xs"
  moreover from this have "xs \<noteq> []" by auto
  ultimately show "((lt, k, pq_pop lt xs), (lt, k, xs)) \<in> measure (\<lambda>(lt, k, xs). length xs)" by simp
qed simp

function pq_drain :: "('a \<Rightarrow> 'a \<Rightarrow> bool) \<Rightarrow> 'a list \<Rightarrow> 'a list" where
  "pq_drain lt xs = (if xs = [] then [] else pq_top lt xs # pq_drain lt (pq_pop lt xs))"
  by pat_completeness auto
termination by (relation "measure (\<lambda>(lt, xs). length xs)") simp_all

declare pq_shrink.simps [simp del] pq_drain.simps [simp del]

lemma pq_shrink_length: "length (pq_shrink lt k xs) = min k (length xs)"
proof (induction lt k xs rule: pq_shrink.induct)
  case (1 lt k xs)
  have "k < length xs \<Longrightarrow> xs \<noteq> []" by auto
  with 1 show ?case by (subst pq_shrink.simps) auto
qed

lemma pq_shrink_set: "set (pq_shrink lt k xs) \<subseteq> set xs"
proof (induction lt k xs rule: pq_shrink.induct)
  case (1 lt k xs)
  then show ?case using set_pq_pop [of lt xs] by (subst pq_shrink.simps) auto
qed

lemma pq_shrink_distinct: "distinct (map f xs) \<Longrightarrow> distinct (map f (pq_shrink lt k xs))"
proof (induction lt k xs rule: pq_shrink.induct)
  case (1 lt k xs)
  then show ?case by (subst pq_shrink.simps) (simp add: distinct_pq_pop)
qed

lemma pq_drain_mset: "mset (pq_drain lt xs) = mset xs"
proof (induction lt xs rule: pq_drain.induct)
  case (1 lt xs)
  have "xs \<noteq> [] \<Longrightarrow> add_mset (pq_top lt xs) (mset (pq_pop lt xs)) = mset xs"
    by (simp add: pq_pop_def pq_top_mem)
  with 1 show ?case by (subst pq_drain.simps) simp
qed

lemma pq_drain_set [simp]: "set (pq_drain lt xs) = set xs"
  by (metis pq_drain_mset set_mset_mset)

lemma pq_drain_length [simp]: "length (pq_drain lt xs) = length xs"
  by (metis pq_drain_mset size_mset)

lemma pq_drain_distinct: "distinct (map f xs) \<Longrightarrow> distinct (map f (pq_drain lt xs))"
  by (metis mset_map pq_drain_mset mset_eq_imp_distinct_iff)

text \<open>The top is maximal, and the drained list descending, where the comparison is a strict weak order.\<close>

definition weak_on :: "'a set \<Rightarrow> ('a \<Rightarrow> 'a \<Rightarrow> bool) \<Rightarrow> bool" where
  "weak_on A lt \<longleftrightarrow> (\<forall>x\<in>A. \<not> lt x x) \<and>
     (\<forall>x\<in>A. \<forall>y\<in>A. \<forall>z\<in>A. \<not> lt x y \<longrightarrow> \<not> lt y z \<longrightarrow> \<not> lt x z) \<and>
     (\<forall>x\<in>A. \<forall>y\<in>A. lt x y \<longrightarrow> \<not> lt y x)"

lemma weak_on_subset: "weak_on A lt \<Longrightarrow> B \<subseteq> A \<Longrightarrow> weak_on B lt"
  unfolding weak_on_def by blast

lemma weak_on_irrefl: "weak_on A lt \<Longrightarrow> x \<in> A \<Longrightarrow> \<not> lt x x"
  by (simp add: weak_on_def)

lemma weak_on_asym: "weak_on A lt \<Longrightarrow> x \<in> A \<Longrightarrow> y \<in> A \<Longrightarrow> lt x y \<Longrightarrow> \<not> lt y x"
  by (drule weak_on_def [THEN iffD1, THEN conjunct2, THEN conjunct2], drule (1) bspec, drule (1) bspec, drule (1) mp)

lemma weak_on_trans:
  "weak_on A lt \<Longrightarrow> x \<in> A \<Longrightarrow> y \<in> A \<Longrightarrow> z \<in> A \<Longrightarrow> \<not> lt x y \<Longrightarrow> \<not> lt y z \<Longrightarrow> \<not> lt x z"
  by (drule weak_on_def [THEN iffD1, THEN conjunct2, THEN conjunct1],
      drule (1) bspec, drule (1) bspec, drule (1) bspec) simp

lemma pq_best_max: "weak_on (insert b (set xs)) lt \<Longrightarrow> x \<in> insert b (set xs) \<Longrightarrow> \<not> lt (pq_best lt b xs) x"
proof (induction xs arbitrary: b x)
  case Nil
  then show ?case by (simp add: weak_on_def)
next
  case (Cons y ys)
  let ?b = "if lt b y then y else b"
  have w: "weak_on (insert ?b (set ys)) lt" using Cons.prems(1) by (rule weak_on_subset) auto
  note ih = Cons.IH [OF w]
  have m: "pq_best lt ?b ys \<in> insert b (set (y # ys))" using pq_best_mem [of lt ?b ys] by (auto split: if_splits)
  have mem: "b \<in> insert b (set (y # ys))" "y \<in> insert b (set (y # ys))" by simp_all
  have b: "\<not> lt ?b z" if "z \<in> {b, y}" for z
    using that weak_on_irrefl [OF Cons.prems(1) mem(1)] weak_on_irrefl [OF Cons.prems(1) mem(2)]
      weak_on_asym [OF Cons.prems(1) mem] by (cases "lt b y") auto
  have "\<not> lt (pq_best lt ?b ys) z" if "z \<in> {b, y}" for z
  proof -
    have "\<not> lt (pq_best lt ?b ys) ?b" by (rule ih) simp
    moreover have "?b \<in> insert b (set (y # ys))" "z \<in> insert b (set (y # ys))" using that by auto
    ultimately show ?thesis using weak_on_trans [OF Cons.prems(1) m] b [OF that] by blast
  qed
  moreover have "\<not> lt (pq_best lt ?b ys) z" if "z \<in> set ys" for z
    by (rule ih) (simp add: that)
  ultimately show ?case using Cons.prems(2) by auto
qed

lemma pq_drain_sorted: "weak_on (set xs) lt \<Longrightarrow> sorted_wrt (\<lambda>x y. \<not> lt x y) (pq_drain lt xs)"
proof (induction lt xs rule: pq_drain.induct)
  case (1 lt xs)
  show ?case
  proof (cases "xs = []")
    case True
    then show ?thesis by (simp add: pq_drain.simps)
  next
    case False
    then have w: "weak_on (insert (hd xs) (set (tl xs))) lt" using 1(2) by (cases xs) auto
    have "\<not> lt (pq_top lt xs) x" if "x \<in> set xs" for x
      unfolding pq_top_def by (rule pq_best_max [OF w]) (use that in \<open>cases xs; auto\<close>)
    moreover have "sorted_wrt (\<lambda>x y. \<not> lt x y) (pq_drain lt (pq_pop lt xs))"
      by (rule 1(1) [OF False]) (rule weak_on_subset [OF 1(2) set_pq_pop])
    ultimately show ?thesis
      using False set_pq_pop [of lt xs] by (subst pq_drain.simps) auto
  qed
qed

section \<open>Search of the base layer\<close>

text \<open>\<open>-x\<close> and \<open>numeric_limits<float>::max()\<close>.\<close>

definition f32_minus :: "f32 \<Rightarrow> f32" where
  "f32_minus w = xor w 0x80000000"

definition f32_max :: f32 where
  "f32_max = 0x7F7FFFFF"

text \<open>\<open>CompareByFirst\<close>, and the order of \<open>std::pair<float, labeltype>\<close>.\<close>

fun by_first :: "f32 \<times> 'a \<Rightarrow> f32 \<times> 'a \<Rightarrow> bool" where
  "by_first (d, a) (d', a') = f32_less d d'"

fun dist_label_less :: "f32 \<times> 'a::linorder \<Rightarrow> f32 \<times> 'a \<Rightarrow> bool" where
  "dist_label_less (d, l) (d', l') \<longleftrightarrow> f32_less d d' \<or> (\<not> f32_less d' d \<and> l < l')"

text \<open>
  The local variables of \<open>searchBaseLayerST\<close>: \<open>candidate_set\<close>, \<open>top_candidates\<close>, the identifiers
  tagged in \<open>visited_array\<close>, and \<open>lowerBound\<close>.
\<close>

type_synonym metric = "vector \<Rightarrow> vector \<Rightarrow> f32"
type_synonym reader = "nat \<Rightarrow> nat list res"

record search =
  s_cand :: "(f32 \<times> nat) list"
  s_top :: "(f32 \<times> nat) list"
  s_seen :: "nat list"
  s_bound :: f32

text \<open>One neighbour \<open>c\<close> of the current node; an identifier outside the element memory is read out of bounds.\<close>

definition expand_one :: "metric \<Rightarrow> hnsw_elem list \<Rightarrow> vector \<Rightarrow> nat \<Rightarrow> bool \<Rightarrow> search \<Rightarrow> nat \<Rightarrow> search res" where
  "expand_one D els q ef has_deletions s c =
     (if c \<in> set (s_seen s) then Inr s
      else if length els \<le> c then Inl Undefined
      else
        let dist = D q (el_data (els ! c)); s1 = s\<lparr>s_seen := c # s_seen s\<rparr> in
        if length (s_top s) < ef \<or> f32_less dist (s_bound s) then
          let top1 = (if \<not> has_deletions \<or> \<not> el_deleted (els ! c) then s_top s @ [(dist, c)] else s_top s);
              top2 = (if ef < length top1 then pq_pop by_first top1 else top1);
              bound = (if top2 \<noteq> [] then fst (pq_top by_first top2) else s_bound s)
          in Inr (s1\<lparr>s_cand := s_cand s @ [(f32_minus dist, c)], s_top := top2, s_bound := bound\<rparr>)
        else Inr s1)"

fun expand :: "metric \<Rightarrow> hnsw_elem list \<Rightarrow> vector \<Rightarrow> nat \<Rightarrow> bool \<Rightarrow> search \<Rightarrow> nat list \<Rightarrow> search res" where
  "expand D els q ef has_deletions s [] = Inr s"
| "expand D els q ef has_deletions s (c # cs) =
     bindR (expand_one D els q ef has_deletions s c) (\<lambda>s1. expand D els q ef has_deletions s1 cs)"

text \<open>The number of elements not yet visited: with the candidates, what the loop uses up.\<close>

definition unseen :: "hnsw_elem list \<Rightarrow> search \<Rightarrow> nat" where
  "unseen els s = card ({..<length els} - set (s_seen s))"

lemma expand_one_measure:
  assumes "expand_one D els q ef dels s c = Inr s'"
  shows "length (s_cand s') + unseen els s' \<le> length (s_cand s) + unseen els s"
proof (cases "c \<in> set (s_seen s)")
  case True
  then show ?thesis using assms by (simp add: expand_one_def)
next
  case False
  then have c: "c < length els" using assms by (simp add: expand_one_def split: if_splits)
  then have "c \<in> {..<length els} - set (s_seen s)" using False by simp
  then have "card ({..<length els} - set (s_seen s)) = Suc (card ({..<length els} - set (c # s_seen s)))"
    by (metis Diff_insert card_Suc_Diff1 finite_Diff finite_lessThan list.simps(15))
  then have "unseen els s = Suc (unseen els (s\<lparr>s_seen := c # s_seen s\<rparr>))" by (simp add: unseen_def)
  moreover have "s_seen s' = c # s_seen s \<and> length (s_cand s') \<le> Suc (length (s_cand s))"
    using assms False by (auto simp: expand_one_def Let_def split: if_splits)
  ultimately show ?thesis by (simp add: unseen_def)
qed

lemma expand_measure:
  "expand D els q ef dels s cs = Inr s' \<Longrightarrow> length (s_cand s') + unseen els s' \<le> length (s_cand s) + unseen els s"
proof (induction cs arbitrary: s)
  case Nil
  then show ?case by simp
next
  case (Cons c cs)
  then obtain s1 where "expand_one D els q ef dels s c = Inr s1" and "expand D els q ef dels s1 cs = Inr s'" by auto
  then show ?case using Cons.IH [of s1] expand_one_measure [of D els q ef dels s c s1] by simp
qed

text \<open>The \<open>while\<close> loop over the candidates.\<close>

function search_loop :: "metric \<Rightarrow> reader \<Rightarrow> hnsw_elem list \<Rightarrow> vector \<Rightarrow> nat \<Rightarrow> bool \<Rightarrow> search \<Rightarrow> (f32 \<times> nat) list res" where
  "search_loop D L els q ef has_deletions s =
     (if s_cand s = [] then Inr (s_top s)
      else
        let (d, i) = pq_top by_first (s_cand s) in
        if f32_less (s_bound s) (f32_minus d) \<and> (length (s_top s) = ef \<or> \<not> has_deletions) then Inr (s_top s)
        else bindR (L i) (\<lambda>ns.
             bindR (expand D els q ef has_deletions (s\<lparr>s_cand := pq_pop by_first (s_cand s)\<rparr>) ns) (\<lambda>s1.
             search_loop D L els q ef has_deletions s1)))"
  by pat_completeness auto
termination
proof (relation "measure (\<lambda>(D, L, els, q, ef, dels, s). length (s_cand s) + unseen els s)")
  fix D :: metric and L :: reader and els q ef dels s x d i ns s1
  assume ne: "s_cand s \<noteq> []"
    and "expand D els q ef dels (s\<lparr>s_cand := pq_pop by_first (s_cand s)\<rparr>) ns = Inr s1"
  from expand_measure [OF this(2)] ne
  show "((D, L, els, q, ef, dels, s1), (D, L, els, q, ef, dels, s)) \<in> measure (\<lambda>(D, L, els, q, ef, dels, s). length (s_cand s) + unseen els s)"
    by (cases "s_cand s") (simp_all add: unseen_def)
qed simp

declare search_loop.simps [simp del]

definition search_start :: "metric \<Rightarrow> hnsw_elem list \<Rightarrow> vector \<Rightarrow> bool \<Rightarrow> nat \<Rightarrow> search" where
  "search_start D els q has_deletions ep =
     (let dist = D q (el_data (els ! ep)) in
      if \<not> has_deletions \<or> \<not> el_deleted (els ! ep) then
        \<lparr>s_cand = [(f32_minus dist, ep)], s_top = [(dist, ep)], s_seen = [ep], s_bound = dist\<rparr>
      else \<lparr>s_cand = [(f32_minus f32_max, ep)], s_top = [], s_seen = [ep], s_bound = f32_max\<rparr>)"

text \<open>\<open>searchBaseLayerST\<close>, and \<open>searchBaseLayer\<close>, which is the same loop for an index with deletions on the links of any
  layer, with \<open>ef_construction_\<close> candidates.\<close>

definition search_layer :: "metric \<Rightarrow> reader \<Rightarrow> hnsw_elem list \<Rightarrow> vector \<Rightarrow> nat \<Rightarrow> bool \<Rightarrow> nat \<Rightarrow> (f32 \<times> nat) list res" where
  "search_layer D L els q ef has_deletions ep =
     (if length els \<le> ep then Inl Undefined
      else search_loop D L els q ef has_deletions (search_start D els q has_deletions ep))"

definition search_base_layer ::
    "'g graph_ops \<Rightarrow> 'g hnsw \<Rightarrow> vector \<Rightarrow> nat \<Rightarrow> bool \<Rightarrow> nat \<Rightarrow> (f32 \<times> nat) list res" where
  "search_base_layer G h q ef has_deletions ep =
     search_layer (g_dist G) (g_links G (hgraph h)) (elems h) q ef has_deletions ep"

text \<open>\<open>searchKnn\<close>: the queue it returns.  The query is read through a pointer, \<open>dim\<close> floats of it.\<close>

definition search_knn :: "'g graph_ops \<Rightarrow> 'g hnsw \<Rightarrow> vector \<Rightarrow> nat \<Rightarrow> (f32 \<times> u64) list res" where
  "search_knn G h q k =
     (if elems h = [] then Inr []
      else if length q < hdim h then Inl Undefined
      else bindR (g_descend G (hgraph h) (elems h) q) (\<lambda>ep.
        bindR (search_base_layer G h q (max ef_default k) (num_deleted h \<noteq> 0) ep) (\<lambda>top.
          Inr (map (\<lambda>(d, i). (d, el_label (elems h ! i))) (pq_drain by_first (pq_shrink by_first k top))))))"

section \<open>What the search returns\<close>

definition top_ok :: "metric \<Rightarrow> hnsw_elem list \<Rightarrow> vector \<Rightarrow> bool \<Rightarrow> search \<Rightarrow> bool" where
  "top_ok D els q has_deletions s \<longleftrightarrow>
     distinct (map snd (s_top s)) \<and> snd ` set (s_top s) \<subseteq> set (s_seen s) \<and>
     (\<forall>(d, c) \<in> set (s_top s). c < length els \<and> d = D q (el_data (els ! c)) \<and>
        (has_deletions \<longrightarrow> \<not> el_deleted (els ! c)))"

lemma top_ok_same:
  "top_ok D els q dels s \<Longrightarrow> s_top s' = s_top s \<Longrightarrow> s_seen s' = s_seen s \<Longrightarrow> top_ok D els q dels s'"
  by (simp add: top_ok_def)

lemma expand_one_top_ok:
  assumes ok: "top_ok D els q dels s" and e: "expand_one D els q ef dels s c = Inr s'"
  shows "top_ok D els q dels s'"
proof (cases "c \<in> set (s_seen s)")
  case True
  then show ?thesis using assms by (simp add: expand_one_def)
next
  case False
  define dist where "dist = D q (el_data (els ! c))"
  define top1 where "top1 = (if \<not> dels \<or> \<not> el_deleted (els ! c) then s_top s @ [(dist, c)] else s_top s)"
  have c: "c < length els" using False e by (simp add: expand_one_def split: if_splits)
  have "c \<notin> snd ` set (s_top s)" using ok False by (auto simp: top_ok_def)
  then have 1: "top_ok D els q dels (s\<lparr>s_top := top1, s_seen := c # s_seen s\<rparr>)"
    using ok c by (auto simp: top_ok_def top1_def dist_def)
  have 2: "top_ok D els q dels (s\<lparr>s_top := pq_pop by_first top1, s_seen := c # s_seen s\<rparr>)"
    using 1 set_pq_pop [of by_first top1] distinct_pq_pop [of snd top1 by_first] unfolding top_ok_def by force
  have 3: "top_ok D els q dels (s\<lparr>s_seen := c # s_seen s\<rparr>)"
    using ok by (auto simp: top_ok_def)
  from e False c have "s_seen s' = c # s_seen s \<and> s_top s' \<in> {top1, pq_pop by_first top1, s_top s}"
    by (auto simp: expand_one_def Let_def top1_def dist_def split: if_splits)
  then show ?thesis using top_ok_same [OF 1, of s'] top_ok_same [OF 2, of s'] top_ok_same [OF 3, of s'] by auto
qed

lemma expand_top_ok: "top_ok D els q dels s \<Longrightarrow> expand D els q ef dels s cs = Inr s' \<Longrightarrow> top_ok D els q dels s'"
  by (induction cs arbitrary: s) (auto dest: expand_one_top_ok)

lemma search_loop_top_ok:
  "top_ok D els q dels s \<Longrightarrow> search_loop D L els q ef dels s = Inr r \<Longrightarrow>
     \<exists>s'. top_ok D els q dels s' \<and> s_top s' = r"
proof (induction D L els q ef dels s rule: search_loop.induct)
  case (1 D L els q ef dels s)
  obtain d i where di: "pq_top by_first (s_cand s) = (d, i)" by force
  show ?case
  proof (cases "s_cand s = [] \<or> f32_less (s_bound s) (f32_minus d) \<and> (length (s_top s) = ef \<or> \<not> dels)")
    case True
    then have "r = s_top s" using 1(3) di by (subst (asm) search_loop.simps) (auto split: if_splits)
    then show ?thesis using 1(2) by auto
  next
    case False
    then obtain ns s1 where s1: "L i = Inr ns" "expand D els q ef dels (s\<lparr>s_cand := pq_pop by_first (s_cand s)\<rparr>) ns = Inr s1"
        "search_loop D L els q ef dels s1 = Inr r"
      using 1(3) di by (subst (asm) search_loop.simps) (auto split: if_splits)
    have "top_ok D els q dels (s\<lparr>s_cand := pq_pop by_first (s_cand s)\<rparr>)" using 1(2) by (simp add: top_ok_def)
    then have "top_ok D els q dels s1" using s1(2) by (rule expand_top_ok)
    with False di s1 show ?thesis using 1(1) [of "(d, i)" d i ns s1] by auto
  qed
qed

lemma hnsw_ok_no_deleted:
  "hnsw_ok h \<Longrightarrow> num_deleted h = 0 \<Longrightarrow> i < length (elems h) \<Longrightarrow> \<not> el_deleted (elems h ! i)"
  by (auto simp: hnsw_ok_def filter_empty_conv)

lemma search_start_top_ok: "ep < length els \<Longrightarrow> top_ok D els q dels (search_start D els q dels ep)"
  by (auto simp: top_ok_def search_start_def Let_def)

lemma search_layer_sound:
  assumes "search_layer D L els q ef dels ep = Inr r"
  shows "distinct (map snd r)"
    and "(d, i) \<in> set r \<Longrightarrow> i < length els \<and> (dels \<longrightarrow> \<not> el_deleted (els ! i)) \<and> d = D q (el_data (els ! i))"
proof -
  have "ep < length els" "search_loop D L els q ef dels (search_start D els q dels ep) = Inr r"
    using assms by (auto simp: search_layer_def split: if_splits)
  then obtain s' where "top_ok D els q dels s'" "s_top s' = r"
    using search_loop_top_ok [OF search_start_top_ok] by blast
  then show "distinct (map snd r)"
    "(d, i) \<in> set r \<Longrightarrow> i < length els \<and> (dels \<longrightarrow> \<not> el_deleted (els ! i)) \<and> d = D q (el_data (els ! i))"
    by (auto simp: top_ok_def)
qed

text \<open>The elements that the search of the base layer returns are live, with their own distances.\<close>

lemma search_base_layer_sound:
  assumes ok: "hnsw_ok h" and r: "search_base_layer G h q ef (num_deleted h \<noteq> 0) ep = Inr r"
  shows "distinct (map snd r)"
    and "(d, i) \<in> set r \<Longrightarrow> i < length (elems h) \<and> \<not> el_deleted (elems h ! i) \<and> d = g_dist G q (el_data (elems h ! i))"
  using search_layer_sound [OF r [unfolded search_base_layer_def]] hnsw_ok_no_deleted [OF ok] by auto

lemma hnsw_label_inj:
  assumes "hnsw_ok h"
  shows "inj_on (\<lambda>i. el_label (elems h ! i)) {..<length (elems h)}"
proof (rule inj_onI)
  fix i j assume i: "i \<in> {..<length (elems h)}" and j: "j \<in> {..<length (elems h)}"
    and eq: "el_label (elems h ! i) = el_label (elems h ! j)"
  have "map_of (label_lookup h) (el_label (elems h ! i)) = Some i"
    by (rule hnsw_lookup_label [OF assms]) (use i in simp)
  moreover have "map_of (label_lookup h) (el_label (elems h ! j)) = Some j"
    by (rule hnsw_lookup_label [OF assms]) (use j in simp)
  ultimately show "i = j" unfolding eq by simp
qed

lemma search_knn_sound:
  assumes ok: "hnsw_ok h" and r: "search_knn G h q k = Inr r"
  shows "distinct (map snd r)" and "length r \<le> k"
    and "\<And>d l. (d, l) \<in> set r \<Longrightarrow> \<exists>v. hnsw_vecs h l = Some v \<and> d = g_dist G q v"
proof -
  have "distinct (map snd r) \<and> length r \<le> k \<and>
    (\<forall>d l. (d, l) \<in> set r \<longrightarrow> (\<exists>v. hnsw_vecs h l = Some v \<and> d = g_dist G q v))"
  proof (cases "elems h = []")
    case True
    then show ?thesis using r by (simp add: search_knn_def)
  next
    case False
    then obtain ep top where top: "search_base_layer G h q (max ef_default k) (num_deleted h \<noteq> 0) ep = Inr top"
      and req: "r = map (\<lambda>(d, i). (d, el_label (elems h ! i))) (pq_drain by_first (pq_shrink by_first k top))"
      using r by (auto simp: search_knn_def split: if_splits)
    let ?t = "pq_drain by_first (pq_shrink by_first k top)"
    note sound = search_base_layer_sound [OF ok top]
    have mem: "i < length (elems h) \<and> \<not> el_deleted (elems h ! i) \<and> d = g_dist G q (el_data (elems h ! i))"
      if "(d, i) \<in> set ?t" for d i
      using sound(2) that pq_shrink_set [of by_first k top] by auto
    have "distinct (map snd ?t)" by (intro pq_drain_distinct pq_shrink_distinct sound(1))
    moreover have "inj_on (\<lambda>i. el_label (elems h ! i)) (snd ` set ?t)"
      by (rule inj_on_subset [OF hnsw_label_inj [OF ok]]) (use mem in \<open>auto simp del: pq_drain_set\<close>)
    ultimately have "distinct (map (\<lambda>i. el_label (elems h ! i)) (map snd ?t))"
      by (metis distinct_map list.set_map)
    then have "distinct (map snd r)" unfolding req by (simp add: case_prod_unfold comp_def)
    moreover have "length r \<le> k" by (simp add: req pq_shrink_length)
    moreover have "\<exists>v. hnsw_vecs h l = Some v \<and> d = g_dist G q v" if "(d, l) \<in> set r" for d l
    proof -
      obtain i where i: "(d, i) \<in> set ?t" "l = el_label (elems h ! i)" using \<open>(d, l) \<in> set r\<close> by (auto simp: req)
      then show ?thesis using mem [OF i(1)] hnsw_lookup_label [OF ok, of i] by (simp add: hnsw_vecs_def)
    qed
    ultimately show ?thesis by blast
  qed
  then show "distinct (map snd r)" "length r \<le> k"
    "\<And>d l. (d, l) \<in> set r \<Longrightarrow> \<exists>v. hnsw_vecs h l = Some v \<and> d = g_dist G q v" by blast+
qed

lemma dist_label_weak: "\<forall>(d, l) \<in> A. \<not> f32_is_nan d \<Longrightarrow> weak_on A dist_label_less"
  unfolding weak_on_def by (intro conjI ballI) (auto simp: f32_less_def)

end
