(* ===== verification/Vector_Store.thy ===== *)
theory Vector_Store
  imports Vector_Index
begin

text \<open>
  \<open>vector_store.h\<close> and \<open>vector_store.cpp\<close>: the state of a vector store and its operations, over any index
  (the virtual table \<open>V\<close>).  An operation that may throw after it has changed the state returns both
  the result and the state.  The mutex makes each operation one step.
\<close>

record 'ix vector_store =
  vs_type :: string
  vs_conf :: json
  vs_dim :: nat
  vs_llm :: llm_info
  vs_id_idx :: u64
  vs_data :: "(u64 \<times> string) list"
  vs_index :: 'ix

definition vs_create :: "string \<Rightarrow> json \<Rightarrow> llm_info \<Rightarrow> 'ix \<Rightarrow> 'ix vector_store" where
  "vs_create type conf llm ix =
     \<lparr>vs_type = type, vs_conf = conf, vs_dim = 0, vs_llm = llm, vs_id_idx = 0, vs_data = [], vs_index = ix\<rparr>"

section \<open>Operations\<close>

text \<open>The first item fixes the dimension and initialises the index.\<close>

definition vs_ensure_dim :: "'ix index_ops \<Rightarrow> nat \<Rightarrow> 'ix vector_store \<Rightarrow> unit res \<times> 'ix vector_store" where
  "vs_ensure_dim V d st =
     (if vs_dim st = 0 then
        (case ix_init V d (vs_index st) of (r, ix) \<Rightarrow> (r, st\<lparr>vs_dim := d, vs_index := ix\<rparr>))
      else (Inr (), st))"

text \<open>\<open>VectorStore::add(id, data, embedding)\<close>.\<close>

definition vs_add :: "'ix index_ops \<Rightarrow> u64 \<Rightarrow> string \<Rightarrow> vector \<Rightarrow> 'ix vector_store \<Rightarrow> u64 res \<times> 'ix vector_store" where
  "vs_add V i data embedding st =
     (if embedding = [] then (Inl (Error ''invalid embedding: size is 0''), st)
      else case vs_ensure_dim V (length embedding) st of
        (Inl e, st1) \<Rightarrow> (Inl e, st1)
      | (Inr _, st1) \<Rightarrow>
          if vs_dim st1 \<noteq> length embedding then (Inl (Error ''vector dimension does not match''), st1)
          else (case ix_add V i embedding (vs_index st1) of
             Inl e \<Rightarrow> (Inl e, st1)
           | Inr ix \<Rightarrow> (Inr i, st1\<lparr>vs_index := ix, vs_data := AList.update i data (vs_data st1)\<rparr>)))"

text \<open>\<open>VectorStore::_auto_gen_id\<close> and \<open>VectorStore::add(data, embedding)\<close>: the counter moves even when
  the addition then fails.\<close>

definition vs_auto_gen_id :: "'ix vector_store \<Rightarrow> u64 \<times> 'ix vector_store" where
  "vs_auto_gen_id st = (vs_id_idx st + 1, st\<lparr>vs_id_idx := vs_id_idx st + 1\<rparr>)"

definition vs_add_auto :: "'ix index_ops \<Rightarrow> string \<Rightarrow> vector \<Rightarrow> 'ix vector_store \<Rightarrow> u64 res \<times> 'ix vector_store" where
  "vs_add_auto V data embedding st =
     (case vs_auto_gen_id st of (i, st1) \<Rightarrow> vs_add V i data embedding st1)"

text \<open>\<open>VectorStore::rem\<close>.\<close>

definition vs_rem :: "'ix index_ops \<Rightarrow> u64 \<Rightarrow> 'ix vector_store \<Rightarrow> bool res \<times> 'ix vector_store" where
  "vs_rem V i st =
     (case map_of (vs_data st) i of
        None \<Rightarrow> (Inr False, st)
      | Some _ \<Rightarrow>
          (case ix_rem V i (vs_index st) of
             Inl e \<Rightarrow> (Inl e, st)
           | Inr ix \<Rightarrow> (Inr True, st\<lparr>vs_index := ix, vs_data := AList.delete i (vs_data st)\<rparr>)))"

text \<open>\<open>VectorStore::get\<close>, \<open>data\<close> and \<open>knn\<close>.\<close>

definition vs_get :: "'ix index_ops \<Rightarrow> u64 \<Rightarrow> 'ix vector_store \<Rightarrow> vector option res" where
  "vs_get V i st = (if vs_data st = [] then Inr None else ix_get V i (vs_index st))"

definition vs_data_of :: "u64 \<Rightarrow> 'ix vector_store \<Rightarrow> string option" where
  "vs_data_of i st = map_of (vs_data st) i"

definition vs_knn :: "'ix index_ops \<Rightarrow> vector \<Rightarrow> u64 \<Rightarrow> 'ix vector_store \<Rightarrow> (u64 \<times> f32) list res" where
  "vs_knn V query k st = (if vs_data st = [] then Inr [] else ix_knn V query k (vs_index st))"

definition vs_set_id_idx :: "u64 \<Rightarrow> 'ix vector_store \<Rightarrow> 'ix vector_store" where
  "vs_set_id_idx idx st = st\<lparr>vs_id_idx := idx\<rparr>"

section \<open>Abstract specification\<close>

text \<open>
  What a store promises: a dimension (once it has one) and a finite map from identifiers to a datum
  with its vector.  \<open>vs_inv\<close> is the representation invariant, over the predicates of the index.
\<close>

definition vs_items :: "('ix \<Rightarrow> u64 \<Rightarrow> vector option) \<Rightarrow> 'ix vector_store \<Rightarrow> u64 \<Rightarrow> (string \<times> vector) option" where
  "vs_items vecs st i =
     Option.bind (map_of (vs_data st) i) (\<lambda>s. map_option (Pair s) (vecs (vs_index st) i))"

definition vs_inv ::
    "('ix \<Rightarrow> bool) \<Rightarrow> (nat \<Rightarrow> 'ix \<Rightarrow> bool) \<Rightarrow> ('ix \<Rightarrow> u64 \<Rightarrow> vector option) \<Rightarrow> 'ix vector_store \<Rightarrow> bool" where
  "vs_inv fresh okay vecs st \<longleftrightarrow>
     distinct (keys (vs_data st)) \<and>
     (if vs_dim st = 0 then fresh (vs_index st) \<and> vs_data st = []
      else okay (vs_dim st) (vs_index st) \<and> dom (vecs (vs_index st)) = dom (map_of (vs_data st)))"

lemma vs_create_inv: "fresh ix \<Longrightarrow> vs_inv fresh okay vecs (vs_create type conf llm ix)"
  by (simp add: vs_inv_def vs_create_def)

lemma vs_set_id_idx_simps [simp]:
  "vs_data (vs_set_id_idx i st) = vs_data st" "vs_dim (vs_set_id_idx i st) = vs_dim st"
  "vs_index (vs_set_id_idx i st) = vs_index st" "vs_id_idx (vs_set_id_idx i st) = i"
  "vs_conf (vs_set_id_idx i st) = vs_conf st" "vs_llm (vs_set_id_idx i st) = vs_llm st"
  "vs_type (vs_set_id_idx i st) = vs_type st"
  by (simp_all add: vs_set_id_idx_def)

lemma vs_set_id_idx_inv [simp]: "vs_inv fresh okay vecs (vs_set_id_idx i st) = vs_inv fresh okay vecs st"
  by (simp add: vs_inv_def)

lemma vs_set_id_idx_items [simp]: "vs_items vecs (vs_set_id_idx i st) = vs_items vecs st"
  by (simp add: vs_items_def fun_eq_iff)

lemma vs_add_auto_eq:
  "vs_add_auto V data embedding st =
     vs_add V (vs_id_idx st + 1) data embedding (vs_set_id_idx (vs_id_idx st + 1) st)"
  by (simp add: vs_add_auto_def vs_auto_gen_id_def vs_set_id_idx_def)

text \<open>What no operation changes: the type, the configuration, the LLM; only automatic identifiers move
  the counter.\<close>

lemma vs_ensure_dim_frame:
  "vs_ensure_dim V d st = (r, st') \<Longrightarrow>
     vs_type st' = vs_type st \<and> vs_conf st' = vs_conf st \<and> vs_llm st' = vs_llm st \<and>
     vs_id_idx st' = vs_id_idx st \<and> vs_data st' = vs_data st"
  by (auto simp: vs_ensure_dim_def split: if_splits prod.splits)

lemma vs_add_frame:
  "vs_add V i data emb st = (r, st') \<Longrightarrow>
     vs_type st' = vs_type st \<and> vs_conf st' = vs_conf st \<and> vs_llm st' = vs_llm st \<and> vs_id_idx st' = vs_id_idx st"
  by (auto simp: vs_add_def split: if_splits prod.splits sum.splits dest!: vs_ensure_dim_frame)

lemma vs_rem_frame:
  "vs_rem V i st = (r, st') \<Longrightarrow>
     vs_type st' = vs_type st \<and> vs_conf st' = vs_conf st \<and> vs_llm st' = vs_llm st \<and>
     vs_id_idx st' = vs_id_idx st \<and> vs_dim st' = vs_dim st"
  by (auto simp: vs_rem_def split: option.splits sum.splits)

lemma vs_inv_cases [consumes 1, case_names absent present]:
  assumes "vs_inv fresh okay vecs st"
  obtains "map_of (vs_data st) i = None" and "vs_items vecs st i = None"
    | s v where "map_of (vs_data st) i = Some s" and "vecs (vs_index st) i = Some v"
        and "vs_items vecs st i = Some (s, v)" and "vs_dim st \<noteq> 0" and "okay (vs_dim st) (vs_index st)"
proof (cases "map_of (vs_data st) i")
  case None
  then show ?thesis using that(1) by (simp add: vs_items_def)
next
  case (Some s)
  then have "vs_data st \<noteq> []" by auto
  with assms have d: "vs_dim st \<noteq> 0" and ok: "okay (vs_dim st) (vs_index st)"
    and dom: "dom (vecs (vs_index st)) = dom (map_of (vs_data st))"
    by (auto simp: vs_inv_def split: if_splits)
  from dom Some obtain v where "vecs (vs_index st) i = Some v" by blast
  with Some d ok show ?thesis using that(2) by (simp add: vs_items_def)
qed

lemma vs_inv_nonempty:
  assumes "vs_inv fresh okay vecs st" and "vs_data st \<noteq> []"
  shows "vs_dim st \<noteq> 0" and "okay (vs_dim st) (vs_index st)"
    and "dom (vecs (vs_index st)) = dom (map_of (vs_data st))"
  using assms by (auto simp: vs_inv_def split: if_splits)

section \<open>The store over a lawful index\<close>

context vector_index
begin

lemma ensure_dim_cases:
  assumes "vs_inv fresh okay vecs st" and "vs_ensure_dim V d st = (r, st1)" and "d \<noteq> 0"
  shows "(\<exists>e. r = Inl e \<and> \<not> is_Error e \<and> vs_dim st = 0) \<or>
    (r = Inr () \<and> vs_inv fresh okay vecs st1 \<and> vs_items vecs st1 = vs_items vecs st \<and>
     vs_dim st1 = (if vs_dim st = 0 then d else vs_dim st) \<and> vs_data st1 = vs_data st)"
proof (cases "vs_dim st = 0")
  case True
  with assms(1) have fr: "fresh (vs_index st)" "vs_data st = []" by (auto simp: vs_inv_def)
  obtain ix where init: "ix_init V d (vs_index st) = (r, ix)" "st1 = st\<lparr>vs_dim := d, vs_index := ix\<rparr>"
    using assms(2) True by (auto simp: vs_ensure_dim_def split: prod.splits)
  show ?thesis
  proof (cases r)
    case (Inl e)
    then show ?thesis using init_err [OF fr(1)] init(1) True by simp
  next
    case (Inr u)
    then have "okay d ix \<and> vecs ix = Map.empty" using init_ok [OF fr(1)] init(1) by simp
    then show ?thesis
      using Inr fr init(2) True assms(3) by (auto simp: vs_inv_def vs_items_def fun_eq_iff)
  qed
next
  case False
  then show ?thesis using assms by (auto simp: vs_ensure_dim_def)
qed

text \<open>A successful addition maps the identifier to the datum and its vector, and nothing else changes.\<close>

lemma add_refines:
  assumes okay: "vs_inv fresh okay vecs st" and add: "vs_add V i data emb st = (Inr i', st')"
  shows "i' = i" and "vs_inv fresh okay vecs st'"
    and "vs_items vecs st' = (vs_items vecs st)(i \<mapsto> (data, emb))"
    and "vs_dim st' = length emb" and "vs_dim st = 0 \<or> vs_dim st = length emb"
proof -
  from add have ne: "length emb \<noteq> 0" by (auto simp: vs_add_def)
  obtain r st1 where ens: "vs_ensure_dim V (length emb) st = (r, st1)" by fastforce
  obtain ix where r: "r = Inr ()" and d: "vs_dim st1 = length emb" and "i' = i"
    and ix: "ix_add V i emb (vs_index st1) = Inr ix"
    and st': "st' = st1\<lparr>vs_index := ix, vs_data := AList.update i data (vs_data st1)\<rparr>"
    using add ne ens by (auto simp: vs_add_def split: if_splits sum.splits)
  have st1: "vs_inv fresh okay vecs st1" "vs_items vecs st1 = vs_items vecs st"
    "vs_dim st1 = (if vs_dim st = 0 then length emb else vs_dim st)"
    using ensure_dim_cases [OF okay ens ne] r by auto
  have iv: "okay (length emb) (vs_index st1)" using st1(1) d ne by (auto simp: vs_inv_def)
  note ok = add_ok [OF iv refl ix]
  show "i' = i" by fact
  show "vs_inv fresh okay vecs st'"
    using st1(1) d ne ok by (auto simp: vs_inv_def st')
  show "vs_items vecs st' = (vs_items vecs st)(i \<mapsto> (data, emb))"
    unfolding st1(2) [symmetric] using ok by (simp add: vs_items_def st' fun_eq_iff)
  show "vs_dim st' = length emb" using d by (simp add: st')
  show "vs_dim st = 0 \<or> vs_dim st = length emb" using st1(3) d by (auto split: if_splits)
qed

text \<open>A rejected addition (an \<open>Error\<close>) leaves the items as they were; the dimension may have been set.\<close>

lemma add_rejects:
  assumes okay: "vs_inv fresh okay vecs st" and add: "vs_add V i data emb st = (Inl e, st')" and "is_Error e"
  shows "vs_inv fresh okay vecs st'" and "vs_items vecs st' = vs_items vecs st" and "vs_data st' = vs_data st"
proof -
  have "vs_inv fresh okay vecs st' \<and> vs_items vecs st' = vs_items vecs st \<and> vs_data st' = vs_data st"
  proof (cases "emb = []")
    case True
    then show ?thesis using okay add by (simp add: vs_add_def)
  next
    case False
    obtain r st1 where ens: "vs_ensure_dim V (length emb) st = (r, st1)" by fastforce
    have "st' = st1" "r = Inl e \<or> r = Inr ()"
      using add False ens by (auto simp: vs_add_def split: if_splits sum.splits)
    then show ?thesis using ensure_dim_cases [OF okay ens] False assms(3) by auto
  qed
  then show "vs_inv fresh okay vecs st'" "vs_items vecs st' = vs_items vecs st" "vs_data st' = vs_data st"
    by auto
qed

text \<open>When an addition succeeds: the vector is not empty, fits the dimension and the index has room.\<close>

lemma add_succeeds_iff:
  assumes okay: "vs_inv fresh okay vecs st" and dim: "vs_dim st \<noteq> 0"
  shows "(\<exists>st'. vs_add V i data emb st = (Inr i, st')) \<longleftrightarrow>
    length emb = vs_dim st \<and> room (vs_index st) i"
proof -
  have iv: "okay (vs_dim st) (vs_index st)" using okay dim by (auto simp: vs_inv_def)
  show ?thesis
    using add_room [OF iv, of emb i] dim
    by (auto simp: vs_add_def vs_ensure_dim_def split: sum.splits)
qed

lemma rem_refines:
  assumes okay: "vs_inv fresh okay vecs st" and rem: "vs_rem V i st = (r, st')"
  shows "r = Inr (vs_items vecs st i \<noteq> None)" and "vs_inv fresh okay vecs st'"
    and "vs_items vecs st' = (vs_items vecs st)(i := None)"
proof -
  have "r = Inr (vs_items vecs st i \<noteq> None) \<and> vs_inv fresh okay vecs st' \<and>
    vs_items vecs st' = (vs_items vecs st)(i := None)"
    using okay
  proof (cases rule: vs_inv_cases [where i = i])
    case absent
    then show ?thesis using okay rem by (simp add: vs_rem_def fun_upd_idem)
  next
    case (present s v)
    obtain ix where ix: "ix_rem V i (vs_index st) = Inr ix" "okay (vs_dim st) ix"
      "vecs ix = (vecs (vs_index st))(i := None)"
      using rem_ok [OF present(5,2)] by blast
    have st': "r = Inr True" "st' = st\<lparr>vs_index := ix, vs_data := AList.delete i (vs_data st)\<rparr>"
      using rem present(1) ix(1) by (simp_all add: vs_rem_def)
    have "dom (vecs ix) = dom (map_of (AList.delete i (vs_data st)))"
      using okay present(4) by (simp add: ix(3) vs_inv_def)
    then have "vs_inv fresh okay vecs st'"
      using okay present(4) ix(2) by (simp add: vs_inv_def st'(2) distinct_keys_delete)
    moreover have "vs_items vecs st' = (vs_items vecs st)(i := None)"
      by (simp add: vs_items_def st'(2) ix(3) fun_eq_iff)
    ultimately show ?thesis using st'(1) present(3) by simp
  qed
  then show "r = Inr (vs_items vecs st i \<noteq> None)" "vs_inv fresh okay vecs st'"
    "vs_items vecs st' = (vs_items vecs st)(i := None)"
    by simp_all
qed

lemma get_refines:
  assumes okay: "vs_inv fresh okay vecs st"
  shows "vs_get V i st = Inr (map_option snd (vs_items vecs st i))"
proof (cases "vs_data st = []")
  case True
  then show ?thesis by (simp add: vs_get_def vs_items_def)
next
  case False
  note ne = vs_inv_nonempty [OF okay False]
  have "vecs (vs_index st) i = map_option snd (vs_items vecs st i)"
    using okay
  proof (cases rule: vs_inv_cases [where i = i])
    case absent
    then have "i \<notin> dom (vecs (vs_index st))" unfolding ne(3) by (simp add: domIff)
    with absent show ?thesis by (simp add: domIff)
  next
    case (present s v)
    then show ?thesis by simp
  qed
  then show ?thesis using False get_ok [OF ne(2)] by (simp add: vs_get_def)
qed

lemma data_refines:
  assumes "vs_inv fresh okay vecs st"
  shows "vs_data_of i st = map_option fst (vs_items vecs st i)"
  using assms by (cases rule: vs_inv_cases [where i = i]) (simp_all add: vs_data_of_def)

lemma size_refines:
  assumes "vs_inv fresh okay vecs st"
  shows "length (vs_data st) = card (dom (vs_items vecs st))"
proof -
  have "map_of (vs_data st) i = None \<longleftrightarrow> vs_items vecs st i = None" for i
    using data_refines [OF assms, of i] by (simp add: vs_data_of_def)
  then have "dom (vs_items vecs st) = dom (map_of (vs_data st))" by (simp add: set_eq_iff domIff)
  then show ?thesis using assms length_eq_card_dom [of "vs_data st"] by (simp add: vs_inv_def)
qed

lemma items_dim:
  assumes "vs_inv fresh okay vecs st" and "vs_items vecs st i = Some (s, v)"
  shows "length v = vs_dim st" and "vs_dim st \<noteq> 0"
proof -
  have "length v = vs_dim st \<and> vs_dim st \<noteq> 0"
    using assms(1)
  proof (cases rule: vs_inv_cases [where i = i])
    case absent
    then show ?thesis using assms(2) by simp
  next
    case (present s' v')
    then show ?thesis using assms(2) vecs_dim [OF present(5,2)] by simp
  qed
  then show "length v = vs_dim st" "vs_dim st \<noteq> 0" by simp_all
qed

end

context knn_index
begin

lemma knn_refines:
  assumes okay: "vs_inv fresh okay vecs st" and knn: "vs_knn V q k st = Inr r"
  shows "distinct (map fst r)" and "length r \<le> unat k" and "fst ` set r \<subseteq> dom (vs_items vecs st)"
proof -
  have "distinct (map fst r) \<and> length r \<le> unat k \<and> fst ` set r \<subseteq> dom (vs_items vecs st)"
  proof (cases "vs_data st = []")
    case True
    then show ?thesis using knn by (auto simp: vs_knn_def)
  next
    case False
    note ne = vs_inv_nonempty [OF okay False]
    have "dom (vecs (vs_index st)) \<subseteq> dom (vs_items vecs st)"
    proof
      fix i assume "i \<in> dom (vecs (vs_index st))"
      then have "map_of (vs_data st) i \<noteq> None" unfolding ne(3) by (simp add: domIff)
      with okay show "i \<in> dom (vs_items vecs st)" by (cases rule: vs_inv_cases [where i = i]) auto
    qed
    moreover have "distinct (map fst r) \<and> fst ` set r \<subseteq> dom (vecs (vs_index st)) \<and> length r \<le> unat k"
      using knn False by (intro knn_sound [OF ne(2)]) (simp add: vs_knn_def)
    ultimately show ?thesis by blast
  qed
  then show "distinct (map fst r)" "length r \<le> unat k" "fst ` set r \<subseteq> dom (vs_items vecs st)" by auto
qed

lemma knn_short_undefined:
  assumes okay: "vs_inv fresh okay vecs st" and "vs_data st \<noteq> []" and "length q < vs_dim st"
  shows "vs_knn V q k st = Inl Undefined"
proof -
  have "vs_dim st \<noteq> 0" using assms(3) by simp
  then have "okay (vs_dim st) (vs_index st)" and "dom (vecs (vs_index st)) = dom (map_of (vs_data st))"
    using okay by (auto simp: vs_inv_def)
  moreover from this(2) have "vecs (vs_index st) \<noteq> Map.empty" using assms(2) by (cases "vs_data st") auto
  ultimately show ?thesis using assms(2,3) knn_short by (simp add: vs_knn_def)
qed

end

end
