(* ===== verification/Hnsw.thy ===== *)
theory Hnsw
  imports Hnsw_Search Vector_Store
begin

text \<open>
  \<open>hnsw.h\<close>, \<open>hnsw.cpp\<close> and \<open>VectorStoreFactory\<close>: the index class of the vector store, its virtual table
  \<open>hnsw_ops\<close>, and the proof that it keeps the contract of \<open>Vector_Index\<close>.
\<close>

section \<open>State and construction\<close>

record hnsw_opts =
  o_max_elements :: u64
  o_m :: u64
  o_ef_construction :: u64

text \<open>\<open>Hnsw\<close>: \<open>_opts\<close>, \<open>_space\<close> (an \<open>L2Space\<close> is its dimension) and \<open>_hnsw\<close>, both null at first.\<close>

record 'g hnsw_ix =
  hx_opts :: hnsw_opts
  hx_space :: "nat option"
  hx_hnsw :: "'g hnsw option"

definition hnsw_parse_options :: "json \<Rightarrow> hnsw_opts res" where
  "hnsw_parse_options conf =
     catchR is_JsonException
       (bindR (jvalue get_u64 conf ''max_elements'' 100000) (\<lambda>maxe.
        bindR (jvalue get_u64 conf ''m'' 16) (\<lambda>m.
        bindR (jvalue get_u64 conf ''ef_construction'' 200) (\<lambda>ef.
        Inr \<lparr>o_max_elements = maxe, o_m = m, o_ef_construction = ef\<rparr>))))
       (\<lambda>e. Inl (Error (''failed to parse vector store options: '' @ what e)))"

definition hnsw_create :: "json \<Rightarrow> llm_info \<Rightarrow> 'g hnsw_ix vector_store res" where
  "hnsw_create conf llm =
     bindR (hnsw_parse_options conf) (\<lambda>opts.
       Inr (vs_create ''hnsw'' conf llm \<lparr>hx_opts = opts, hx_space = None, hx_hnsw = None\<rparr>))"

text \<open>\<open>VectorStoreFactory::create\<close>.\<close>

definition vector_store_create :: "string \<Rightarrow> json \<Rightarrow> llm_info \<Rightarrow> 'g hnsw_ix vector_store res" where
  "vector_store_create type conf llm =
     (if type = ''hnsw'' then hnsw_create conf llm
      else Inl (Error (''unknown vector store: '' @ type)))"

section \<open>The virtual functions\<close>

text \<open>\<open>_lazily_init\<close>: the space is set before the allocation of the index, which may throw.\<close>

definition hnsw_lazily_init :: "'g graph_ops \<Rightarrow> nat \<Rightarrow> 'g hnsw_ix \<Rightarrow> unit res \<times> 'g hnsw_ix" where
  "hnsw_lazily_init G dim ix =
     (if hx_space ix = None then
        let ix1 = ix\<lparr>hx_space := Some dim\<rparr> in
        (case hnsw_new G dim (o_max_elements (hx_opts ix)) (o_m (hx_opts ix)) (o_ef_construction (hx_opts ix)) of
           Inl e \<Rightarrow> (Inl e, ix1)
         | Inr h \<Rightarrow> (Inr (), ix1\<lparr>hx_hnsw := Some h\<rparr>))
      else (Inr (), ix))"

text \<open>The operations dereference \<open>_hnsw\<close>.\<close>

definition hnsw_deref :: "'g hnsw_ix \<Rightarrow> 'g hnsw res" where
  "hnsw_deref ix = (case hx_hnsw ix of None \<Rightarrow> Inl Undefined | Some h \<Rightarrow> Inr h)"

definition hnsw_add :: "'g graph_ops \<Rightarrow> u64 \<Rightarrow> vector \<Rightarrow> 'g hnsw_ix \<Rightarrow> 'g hnsw_ix res" where
  "hnsw_add G i embedding ix =
     catchR is_StdException
       (bindR (hnsw_deref ix) (\<lambda>h. bindR (add_point G h embedding i) (\<lambda>h'. Inr (ix\<lparr>hx_hnsw := Some h'\<rparr>))))
       (\<lambda>e. Inl (Error (''failed to do set: '' @ u64_to_string i)))"

definition hnsw_rem :: "u64 \<Rightarrow> 'g hnsw_ix \<Rightarrow> 'g hnsw_ix res" where
  "hnsw_rem i ix =
     catchR is_StdException
       (bindR (hnsw_deref ix) (\<lambda>h. bindR (mark_delete h i) (\<lambda>h'. Inr (ix\<lparr>hx_hnsw := Some h'\<rparr>))))
       (\<lambda>e. Inl (Error (''failed to delete: '' @ u64_to_string i @ '', err: '' @ what e)))"

definition hnsw_get :: "u64 \<Rightarrow> 'g hnsw_ix \<Rightarrow> vector option res" where
  "hnsw_get i ix =
     catchR is_StdException
       (bindR (hnsw_deref ix) (\<lambda>h. bindR (get_data_by_label h i) (\<lambda>v. Inr (Some v))))
       (\<lambda>e. Inr None)"

definition hnsw_knn :: "'g graph_ops \<Rightarrow> vector \<Rightarrow> u64 \<Rightarrow> 'g hnsw_ix \<Rightarrow> (u64 \<times> f32) list res" where
  "hnsw_knn G query k ix =
     catchR is_StdException
       (bindR (hnsw_deref ix) (\<lambda>h. bindR (search_knn G h query (unat k)) (\<lambda>r.
          Inr (rev (map (\<lambda>(d, l). (l, d)) (pq_drain dist_label_less r))))))
       (\<lambda>e. Inl (Error ''failed to do knn''))"

definition hnsw_ops :: "'g graph_ops \<Rightarrow> 'g hnsw_ix index_ops" where
  "hnsw_ops G = \<lparr>ix_init = hnsw_lazily_init G, ix_add = hnsw_add G, ix_rem = hnsw_rem, ix_get = hnsw_get,
                 ix_knn = hnsw_knn G\<rparr>"

lemma hnsw_ops_simps [simp]:
  "ix_init (hnsw_ops G) = hnsw_lazily_init G" "ix_add (hnsw_ops G) = hnsw_add G" "ix_rem (hnsw_ops G) = hnsw_rem"
  "ix_get (hnsw_ops G) = hnsw_get" "ix_knn (hnsw_ops G) = hnsw_knn G"
  by (simp_all add: hnsw_ops_def)

section \<open>The contract\<close>

definition hx_fresh :: "'g hnsw_ix \<Rightarrow> bool" where
  "hx_fresh ix \<longleftrightarrow> hx_space ix = None \<and> hx_hnsw ix = None"

definition hx_okay :: "nat \<Rightarrow> 'g hnsw_ix \<Rightarrow> bool" where
  "hx_okay d ix \<longleftrightarrow> (\<exists>h. hx_hnsw ix = Some h \<and> hnsw_ok h \<and> hdim h = d)"

definition hx_vecs :: "'g hnsw_ix \<Rightarrow> u64 \<Rightarrow> vector option" where
  "hx_vecs ix i = Option.bind (hx_hnsw ix) (\<lambda>h. hnsw_vecs h i)"

definition hx_room :: "'g hnsw_ix \<Rightarrow> u64 \<Rightarrow> bool" where
  "hx_room ix i \<longleftrightarrow> (\<exists>h. hx_hnsw ix = Some h \<and> hnsw_room h i)"

lemma hnsw_init_ok:
  assumes "hx_fresh ix" and "hnsw_lazily_init G d ix = (Inr (), ix')"
  shows "hx_okay d ix' \<and> hx_vecs ix' = Map.empty"
  using assms
  by (auto simp: hx_fresh_def hnsw_lazily_init_def Let_def hx_okay_def hx_vecs_def fun_eq_iff
      dest: hnsw_new_ok split: sum.splits)

lemma hnsw_new_err: "hnsw_new G d maxe m ef = Inl e \<Longrightarrow> \<not> is_Error e"
  by (auto simp: hnsw_new_def split: if_splits)

lemma hnsw_init_err: "hx_fresh ix \<Longrightarrow> hnsw_lazily_init G d ix = (Inl e, ix') \<Longrightarrow> \<not> is_Error e"
  by (auto simp: hx_fresh_def hnsw_lazily_init_def Let_def dest: hnsw_new_err split: sum.splits)

lemma add_point_cases:
  assumes ok: "hnsw_ok h" and d: "length v = hdim h"
  obtains (added) h' where "hnsw_room h i" and "add_point G h v i = Inr h'" and "hnsw_ok h'"
      and "hnsw_vecs h' = (hnsw_vecs h)(i \<mapsto> v)" and "hdim h' = hdim h"
    | (full) "\<not> hnsw_room h i" and "add_point G h v i = Inl (StdException ''The number of elements exceeds the specified limit'')"
proof (cases "map_of (label_lookup h) i")
  case None
  show ?thesis
  proof (cases "length (elems h) < unat (max_elements h)")
    case True
    from add_point_new [OF ok d None this, where G = G] show ?thesis
      using that(1) True by (metis hnsw_room_def)
  next
    case False
    then show ?thesis using that(2) None by (simp add: hnsw_room_def add_point_full)
  qed
next
  case (Some j)
  from add_point_known [OF ok d Some, where G = G] show ?thesis
    using that(1) Some by (metis hnsw_room_def option.distinct(1))
qed

lemma hx_vecs_some: "hx_hnsw ix = Some h \<Longrightarrow> hx_vecs ix = hnsw_vecs h"
  by (simp add: hx_vecs_def fun_eq_iff)

lemma hnsw_add_cases:
  assumes ok: "hx_okay d ix" and d: "length v = d"
  obtains (added) ix' where "hx_room ix i" and "hnsw_add G i v ix = Inr ix'" and "hx_okay d ix'"
      and "hx_vecs ix' = (hx_vecs ix)(i \<mapsto> v)"
    | (full) "\<not> hx_room ix i" and "hnsw_add G i v ix = Inl (Error (''failed to do set: '' @ u64_to_string i))"
proof -
  obtain h where h: "hx_hnsw ix = Some h" "hnsw_ok h" "hdim h = d" using ok by (auto simp: hx_okay_def)
  have dh: "length v = hdim h" using d h(3) by simp
  have rm: "hx_room ix i = hnsw_room h i" using h(1) by (simp add: hx_room_def)
  from h(2) dh show ?thesis
  proof (cases rule: add_point_cases [where i = i and G = G])
    case (added h')
    then show ?thesis
      using h by (intro that(1) [of "ix\<lparr>hx_hnsw := Some h'\<rparr>"])
        (auto simp: rm hnsw_add_def hnsw_deref_def hx_okay_def hx_vecs_some)
  next
    case full
    then show ?thesis using h by (intro that(2)) (simp_all add: rm hnsw_add_def hnsw_deref_def)
  qed
qed

lemma hnsw_rem_ok:
  assumes "hx_okay d ix" and "hx_vecs ix i = Some v"
  shows "\<exists>ix'. hnsw_rem i ix = Inr ix' \<and> hx_okay d ix' \<and> hx_vecs ix' = (hx_vecs ix)(i := None)"
proof -
  obtain h where h: "hx_hnsw ix = Some h" "hnsw_ok h" "hdim h = d" using assms(1) by (auto simp: hx_okay_def)
  have "hnsw_vecs h i = Some v" using assms(2) h(1) by (simp add: hx_vecs_some)
  from mark_delete_ok [OF h(2) this] obtain h' where h': "mark_delete h i = Inr h'" "hnsw_ok h'"
    "hnsw_vecs h' = (hnsw_vecs h)(i := None)" "hdim h' = hdim h" .
  then show ?thesis
    using h by (intro exI [of _ "ix\<lparr>hx_hnsw := Some h'\<rparr>"])
      (simp add: hnsw_rem_def hnsw_deref_def hx_okay_def hx_vecs_some)
qed

lemma hnsw_get_ok: "hx_okay d ix \<Longrightarrow> hnsw_get i ix = Inr (hx_vecs ix i)"
  by (auto simp: hx_okay_def hnsw_get_def hnsw_deref_def hx_vecs_some get_data_by_label_vecs split: option.splits)

lemma hx_vecs_dim: "hx_okay d ix \<Longrightarrow> hx_vecs ix i = Some v \<Longrightarrow> length v = d"
  by (auto simp: hx_okay_def hx_vecs_some hnsw_vecs_def bind_eq_Some_conv hnsw_ok_def split: if_splits)

interpretation hx: vector_index "hnsw_ops G" hx_fresh hx_okay hx_vecs hx_room for G
proof
  fix ix ix' :: "'a hnsw_ix" and d i v e
  show "hx_fresh ix \<Longrightarrow> ix_init (hnsw_ops G) d ix = (Inr (), ix') \<Longrightarrow> hx_okay d ix' \<and> hx_vecs ix' = Map.empty"
    using hnsw_init_ok [of ix G d ix'] by simp
  show "hx_fresh ix \<Longrightarrow> ix_init (hnsw_ops G) d ix = (Inl e, ix') \<Longrightarrow> \<not> is_Error e"
    using hnsw_init_err [of ix G d e ix'] by simp
  show "hx_okay d ix \<Longrightarrow> hx_vecs ix i = Some v \<Longrightarrow>
      \<exists>ix'. ix_rem (hnsw_ops G) i ix = Inr ix' \<and> hx_okay d ix' \<and> hx_vecs ix' = (hx_vecs ix)(i := None)"
    using hnsw_rem_ok [of d ix i v] by simp
  show "hx_okay d ix \<Longrightarrow> ix_get (hnsw_ops G) i ix = Inr (hx_vecs ix i)"
    by (simp add: hnsw_get_ok)
  show "hx_okay d ix \<Longrightarrow> hx_vecs ix i = Some v \<Longrightarrow> length v = d"
    by (rule hx_vecs_dim)
  assume ok: "hx_okay d ix" and d: "length v = d"
  show "(\<exists>ix'. ix_add (hnsw_ops G) i v ix = Inr ix') = hx_room ix i"
    using ok d by (cases rule: hnsw_add_cases [where i = i and G = G]) simp_all
  show "ix_add (hnsw_ops G) i v ix = Inr ix' \<Longrightarrow> hx_okay d ix' \<and> hx_vecs ix' = (hx_vecs ix)(i \<mapsto> v)"
    using ok d by (cases rule: hnsw_add_cases [where i = i and G = G]) simp_all
  show "ix_add (hnsw_ops G) i v ix = Inl e \<Longrightarrow> is_Error e"
    using ok d by (cases rule: hnsw_add_cases [where i = i and G = G]) auto
qed

section \<open>Nearest neighbours\<close>

lemma hnsw_knn_sound:
  assumes ok: "hx_okay d ix" and r: "hnsw_knn G q k ix = Inr r"
  shows "distinct (map fst r)" and "length r \<le> unat k"
    and "\<And>l x. (l, x) \<in> set r \<Longrightarrow> \<exists>v. hx_vecs ix l = Some v \<and> x = g_dist G q v"
    and "(\<And>l v. hx_vecs ix l = Some v \<Longrightarrow> \<not> f32_is_nan (g_dist G q v)) \<Longrightarrow>
      sorted_wrt (\<lambda>a b. \<not> f32_less (snd b) (snd a)) r"
proof -
  obtain h where h: "hx_hnsw ix = Some h" "hnsw_ok h" using ok by (auto simp: hx_okay_def)
  obtain s where s: "search_knn G h q (unat k) = Inr s"
    and req: "r = rev (map (\<lambda>(d, l). (l, d)) (pq_drain dist_label_less s))"
    using r h(1) by (cases "search_knn G h q (unat k)") (auto simp: hnsw_knn_def hnsw_deref_def split: if_splits)
  note sound = search_knn_sound [OF h(2) s]
  have "map fst r = rev (map snd (pq_drain dist_label_less s))"
    by (simp add: req rev_map case_prod_unfold comp_def)
  then show "distinct (map fst r)" using pq_drain_distinct [OF sound(1), of dist_label_less] by simp
  show "length r \<le> unat k" using sound(2) by (simp add: req)
  show vec: "\<exists>v. hx_vecs ix l = Some v \<and> x = g_dist G q v" if "(l, x) \<in> set r" for l x
    using that sound(3) [of x l] h(1) by (auto simp: req hx_vecs_some)
  assume nan: "\<And>l v. hx_vecs ix l = Some v \<Longrightarrow> \<not> f32_is_nan (g_dist G q v)"
  have "\<forall>(x, l) \<in> set s. \<not> f32_is_nan x" using sound(3) nan h(1) by (fastforce simp: hx_vecs_some)
  then have "sorted_wrt (\<lambda>a b. \<not> dist_label_less a b) (pq_drain dist_label_less s)"
    by (rule pq_drain_sorted [OF dist_label_weak])
  then have "sorted_wrt (\<lambda>a b. \<not> f32_less (fst a) (fst b)) (pq_drain dist_label_less s)"
    by (rule sorted_wrt_mono_rel [rotated]) auto
  then show "sorted_wrt (\<lambda>a b. \<not> f32_less (snd b) (snd a)) r"
    by (simp add: req sorted_wrt_rev sorted_wrt_map case_prod_unfold)
qed

lemma hnsw_knn_short:
  assumes ok: "hx_okay d ix" and ne: "hx_vecs ix \<noteq> Map.empty" and q: "length q < d"
  shows "hnsw_knn G q k ix = Inl Undefined"
proof -
  obtain h where h: "hx_hnsw ix = Some h" "hnsw_ok h" "hdim h = d" using ok by (auto simp: hx_okay_def)
  have "elems h \<noteq> []"
  proof
    assume "elems h = []"
    then have "hnsw_vecs h = Map.empty" using h(2) by (auto simp: hnsw_vecs_def fun_eq_iff hnsw_ok_def split: bind_split)
    then show False using ne h(1) by (simp add: hx_vecs_some)
  qed
  then show ?thesis using h q by (simp add: hnsw_knn_def hnsw_deref_def search_knn_def)
qed

interpretation hxk: knn_index "hnsw_ops G" hx_fresh hx_okay hx_vecs hx_room for G
proof
  fix ix :: "'a hnsw_ix" and d q k r
  assume ok: "hx_okay d ix"
  show "ix_knn (hnsw_ops G) q k ix = Inr r \<Longrightarrow>
      distinct (map fst r) \<and> fst ` set r \<subseteq> dom (hx_vecs ix) \<and> length r \<le> unat k"
    using hnsw_knn_sound(1-3) [OF ok, of G q k r] by fastforce
  show "hx_vecs ix \<noteq> Map.empty \<Longrightarrow> length q < d \<Longrightarrow> ix_knn (hnsw_ops G) q k ix = Inl Undefined"
    using hnsw_knn_short [OF ok] by simp
qed

section \<open>A store whose index could not be allocated\<close>

text \<open>
  When the constructor of the index throws, the exception leaves \<open>VectorStore::add\<close> with the dimension
  set, the space set and no index: from then on an addition of that dimension dereferences null.
\<close>

definition hx_broken :: "'g hnsw_ix vector_store \<Rightarrow> bool" where
  "hx_broken st \<longleftrightarrow> vs_dim st \<noteq> 0 \<and> vs_data st = [] \<and> hx_space (vs_index st) \<noteq> None \<and> hx_hnsw (vs_index st) = None"

text \<open>The options are those of the configuration and the capacity is that of the options.\<close>

definition hx_conf_ok :: "'g hnsw_ix vector_store \<Rightarrow> bool" where
  "hx_conf_ok st \<longleftrightarrow>
     vs_type st = ''hnsw'' \<and> hnsw_parse_options (vs_conf st) = Inr (hx_opts (vs_index st)) \<and>
     (\<forall>h. hx_hnsw (vs_index st) = Some h \<longrightarrow> max_elements h = o_max_elements (hx_opts (vs_index st)))"

definition store_ok :: "'g hnsw_ix vector_store \<Rightarrow> bool" where
  "store_ok st \<longleftrightarrow> (vs_inv hx_fresh hx_okay hx_vecs st \<or> hx_broken st) \<and> hx_conf_ok st"

lemma hnsw_init_frame:
  "hnsw_lazily_init G d ix = (r, ix') \<Longrightarrow> hx_fresh ix \<Longrightarrow>
     hx_opts ix' = hx_opts ix \<and> (\<forall>h. hx_hnsw ix' = Some h \<longrightarrow> max_elements h = o_max_elements (hx_opts ix) \<and> elems h = [])"
  by (auto simp: hnsw_lazily_init_def hx_fresh_def Let_def hnsw_new_def split: if_splits sum.splits)

lemma add_point_frame:
  "add_point G h v i = Inr h' \<Longrightarrow> max_elements h' = max_elements h \<and> length (elems h') \<le> Suc (length (elems h))"
  by (auto simp: add_point_def update_point_def unmark_deleted_internal_def Let_def split: option.splits if_splits)

lemma hnsw_add_frame:
  assumes "hnsw_add G i v ix = Inr ix'"
  obtains h h' where "hx_hnsw ix = Some h" and "hx_hnsw ix' = Some h'" and "hx_opts ix' = hx_opts ix"
    and "max_elements h' = max_elements h" and "length (elems h') \<le> Suc (length (elems h))"
proof -
  obtain h h' where "hx_hnsw ix = Some h" "add_point G h v i = Inr h'" "ix' = ix\<lparr>hx_hnsw := Some h'\<rparr>"
    using catchR_eq_Inr [OF assms [unfolded hnsw_add_def]]
    by (auto simp: hnsw_deref_def split: option.splits)
  then show ?thesis using that [of h h'] add_point_frame [of G h v i h'] by simp
qed

lemma hnsw_rem_frame:
  assumes "hnsw_rem i ix = Inr ix'"
  shows "hx_opts ix' = hx_opts ix"
    and "\<And>h'. hx_hnsw ix' = Some h' \<Longrightarrow> \<exists>h. hx_hnsw ix = Some h \<and> max_elements h' = max_elements h"
proof -
  obtain h h' where "hx_hnsw ix = Some h" "mark_delete h i = Inr h'" "ix' = ix\<lparr>hx_hnsw := Some h'\<rparr>"
    using catchR_eq_Inr [OF assms [unfolded hnsw_rem_def]]
    by (auto simp: hnsw_deref_def split: option.splits)
  then show "hx_opts ix' = hx_opts ix"
    "\<And>h'. hx_hnsw ix' = Some h' \<Longrightarrow> \<exists>h. hx_hnsw ix = Some h \<and> max_elements h' = max_elements h"
    by (auto simp: mark_delete_def mark_deleted_internal_def split: option.splits if_splits)
qed

lemma vs_ensure_dim_conf:
  assumes "hx_conf_ok st" and "vs_dim st = 0 \<Longrightarrow> hx_fresh (vs_index st)" and "vs_ensure_dim (hnsw_ops G) d st = (r, st1)"
  shows "hx_conf_ok st1"
  using assms hnsw_init_frame [of G d "vs_index st"]
  by (auto simp: vs_ensure_dim_def hx_conf_ok_def split: if_splits prod.splits)

lemma vs_add_conf:
  assumes "hx_conf_ok st" and "vs_dim st = 0 \<Longrightarrow> hx_fresh (vs_index st)" and "vs_add (hnsw_ops G) i data emb st = (r, st')"
  shows "hx_conf_ok st'"
proof -
  obtain r1 st1 where ens: "vs_ensure_dim (hnsw_ops G) (length emb) st = (r1, st1)" by force
  have c: "hx_conf_ok st1" by (rule vs_ensure_dim_conf [OF assms(1,2) ens])
  have "st' = st \<or> st' = st1 \<or> (\<exists>ix. hnsw_add G i emb (vs_index st1) = Inr ix \<and>
      st' = st1\<lparr>vs_index := ix, vs_data := AList.update i data (vs_data st1)\<rparr>)"
    using assms(3) ens by (auto simp: vs_add_def split: if_splits sum.splits)
  then show ?thesis
  proof (elim disjE exE conjE)
    fix ix assume a: "hnsw_add G i emb (vs_index st1) = Inr ix"
      and st': "st' = st1\<lparr>vs_index := ix, vs_data := AList.update i data (vs_data st1)\<rparr>"
    from a show ?thesis by (rule hnsw_add_frame) (use c in \<open>auto simp: hx_conf_ok_def st'\<close>)
  qed (use assms(1) c in simp_all)
qed

lemma vs_rem_conf:
  assumes "hx_conf_ok st" and "vs_rem (hnsw_ops G) i st = (r, st')"
  shows "hx_conf_ok st'"
proof -
  have "st' = st \<or> (\<exists>ix. hnsw_rem i (vs_index st) = Inr ix \<and>
      st' = st\<lparr>vs_index := ix, vs_data := AList.delete i (vs_data st)\<rparr>)"
    using assms(2) by (auto simp: vs_rem_def split: option.splits sum.splits)
  then show ?thesis
  proof (elim disjE exE conjE)
    fix ix assume a: "hnsw_rem i (vs_index st) = Inr ix"
      and st': "st' = st\<lparr>vs_index := ix, vs_data := AList.delete i (vs_data st)\<rparr>"
    show ?thesis using assms(1) hnsw_rem_frame [OF a] by (auto simp: hx_conf_ok_def st')
  qed (use assms(1) in simp)
qed

lemma vs_add_broken:
  assumes "hx_broken st" and "emb \<noteq> []"
  shows "vs_add (hnsw_ops G) i data emb st =
    (Inl (if vs_dim st = length emb then Undefined else Error ''vector dimension does not match''), st)"
  using assms by (simp add: hx_broken_def vs_add_def vs_ensure_dim_def hnsw_add_def hnsw_deref_def)

lemma vs_add_alloc_fails:
  assumes okay: "vs_inv hx_fresh hx_okay hx_vecs st" and add: "vs_add (hnsw_ops G) i data emb st = (Inl e, st')"
    and e: "\<not> is_Error e"
  shows "hx_broken st'" and "vs_dim st = 0"
    and "hnsw_new G (length emb) (o_max_elements (hx_opts (vs_index st))) (o_m (hx_opts (vs_index st)))
      (o_ef_construction (hx_opts (vs_index st))) = Inl e"
proof -
  have ne: "emb \<noteq> []" using add e by (auto simp: vs_add_def)
  have d: "vs_dim st = 0"
  proof (rule ccontr)
    assume d: "vs_dim st \<noteq> 0"
    then have ok: "hx_okay (vs_dim st) (vs_index st)" using okay by (simp add: vs_inv_def)
    have "vs_dim st = length emb" using add e d ne by (auto simp: vs_add_def vs_ensure_dim_def split: if_splits)
    with hx.add_err [OF ok, of emb G i e] add e d ne show False
      by (auto simp: vs_add_def vs_ensure_dim_def split: sum.splits)
  qed
  then have fr: "hx_fresh (vs_index st)" "vs_data st = []" using okay by (simp_all add: vs_inv_def)
  obtain r ix where init: "hnsw_lazily_init G (length emb) (vs_index st) = (r, ix)" by force
  have r: "r = Inl e" and st': "st' = st\<lparr>vs_dim := length emb, vs_index := ix\<rparr>"
  proof -
    have "r = Inl e \<and> st' = st\<lparr>vs_dim := length emb, vs_index := ix\<rparr>"
    proof (cases r)
      case (Inl e')
      then show ?thesis using add ne d init by (auto simp: vs_add_def vs_ensure_dim_def)
    next
      case (Inr u)
      then have ok: "hx_okay (length emb) ix" using hx.init_ok [OF fr(1), of G "length emb" ix] init by simp
      with hx.add_err [OF ok refl, of G i e] add e d ne init Inr show ?thesis
        by (auto simp: vs_add_def vs_ensure_dim_def split: sum.splits)
    qed
    then show "r = Inl e" "st' = st\<lparr>vs_dim := length emb, vs_index := ix\<rparr>" by simp_all
  qed
  show "vs_dim st = 0" by (rule d)
  show "hx_broken st'" using fr ne init r
    by (auto simp: hx_broken_def st' hx_fresh_def hnsw_lazily_init_def Let_def split: sum.splits)
  show "hnsw_new G (length emb) (o_max_elements (hx_opts (vs_index st))) (o_m (hx_opts (vs_index st)))
      (o_ef_construction (hx_opts (vs_index st))) = Inl e"
    using fr init r by (auto simp: hx_fresh_def hnsw_lazily_init_def Let_def split: sum.splits)
qed

lemma store_ok_fresh: "store_ok st \<Longrightarrow> vs_dim st = 0 \<Longrightarrow> hx_fresh (vs_index st)"
  by (auto simp: store_ok_def vs_inv_def hx_broken_def)

lemma vs_add_store_ok:
  assumes ok: "store_ok st" and add: "vs_add (hnsw_ops G) i data emb st = (r, st')"
  shows "store_ok st'"
proof -
  have "hx_conf_ok st'" by (rule vs_add_conf [OF _ store_ok_fresh [OF ok] add]) (use ok in \<open>simp_all add: store_ok_def\<close>)
  moreover have "vs_inv hx_fresh hx_okay hx_vecs st' \<or> hx_broken st'"
  proof (cases "hx_broken st")
    case True
    then show ?thesis using add vs_add_broken [OF True, of emb G i data] by (cases "emb = []") (auto simp: vs_add_def)
  next
    case False
    then have inv: "vs_inv hx_fresh hx_okay hx_vecs st" using ok by (simp add: store_ok_def)
    show ?thesis
    proof (cases r)
      case (Inr i')
      then show ?thesis using hx.add_refines(2) [OF inv] add by simp
    next
      case (Inl e)
      then show ?thesis using hx.add_rejects(1) [OF inv] vs_add_alloc_fails(1) [OF inv] add
        by (cases "is_Error e") auto
    qed
  qed
  ultimately show ?thesis by (simp add: store_ok_def)
qed

lemma vs_set_id_idx_store_ok [simp]: "store_ok (vs_set_id_idx i st) = store_ok st"
  by (simp add: store_ok_def hx_broken_def hx_conf_ok_def)

lemma vs_add_auto_store_ok:
  "store_ok st \<Longrightarrow> vs_add_auto (hnsw_ops G) data emb st = (r, st') \<Longrightarrow> store_ok st'"
  by (auto simp: vs_add_auto_eq dest: vs_add_store_ok [rotated])

lemma vs_rem_store_ok:
  assumes ok: "store_ok st" and rem: "vs_rem (hnsw_ops G) i st = (r, st')"
  shows "store_ok st'" and "\<exists>b. r = Inr b"
proof -
  have "hx_conf_ok st'" by (rule vs_rem_conf [OF _ rem]) (use ok in \<open>simp add: store_ok_def\<close>)
  moreover have "(vs_inv hx_fresh hx_okay hx_vecs st' \<or> hx_broken st') \<and> (\<exists>b. r = Inr b)"
  proof (cases "hx_broken st")
    case True
    then show ?thesis using rem by (auto simp: hx_broken_def vs_rem_def)
  next
    case False
    then have inv: "vs_inv hx_fresh hx_okay hx_vecs st" using ok by (simp add: store_ok_def)
    show ?thesis using hx.rem_refines(1,2) [OF inv rem] by simp
  qed
  ultimately show "store_ok st'" "\<exists>b. r = Inr b" by (simp_all add: store_ok_def)
qed

lemma hnsw_create_store_ok: "hnsw_create conf llm = Inr st \<Longrightarrow> store_ok st"
  by (auto simp: hnsw_create_def store_ok_def hx_conf_ok_def vs_inv_def vs_create_def hx_fresh_def)

text \<open>A store never holds more items than its capacity.\<close>

lemma store_size_bound:
  assumes ok: "store_ok st"
  shows "length (vs_data st) \<le> unat (o_max_elements (hx_opts (vs_index st)))"
proof (cases "vs_data st = []")
  case False
  then have inv: "vs_inv hx_fresh hx_okay hx_vecs st" using ok by (auto simp: store_ok_def hx_broken_def)
  note ne = vs_inv_nonempty [OF inv False]
  obtain h where h: "hx_hnsw (vs_index st) = Some h" "hnsw_ok h" using ne(2) by (auto simp: hx_okay_def)
  have "length (vs_data st) = card (dom (hnsw_vecs h))"
    using inv length_eq_card_dom [of "vs_data st"] ne(3) by (simp add: vs_inv_def hx_vecs_some [OF h(1)])
  also have "\<dots> \<le> card (el_label ` set (elems h))"
    by (intro card_mono) (use h(2) in \<open>auto simp: hnsw_vecs_def bind_eq_Some_conv hnsw_ok_def\<close>)
  also have "\<dots> \<le> length (elems h)" by (metis card_length length_map list.set_map)
  also have "\<dots> \<le> unat (o_max_elements (hx_opts (vs_index st)))"
    using h ok by (auto simp: hnsw_ok_def store_ok_def hx_conf_ok_def)
  finally show ?thesis .
qed simp

section \<open>Properties\<close>

text \<open>A graph for examples: every element is linked to every other, the distance is 0 or 1.\<close>

definition sample_graph :: "nat graph_ops" where
  "sample_graph =
     \<lparr>g_empty = (\<lambda>m ef. 0), g_insert = (\<lambda>g els i. length els), g_update = (\<lambda>g els i. g), g_descend = (\<lambda>g els q. Inr 0),
      g_links = (\<lambda>g i. Inr [0..<g]), g_dist = (\<lambda>a b. if a = b then 0 else 0x3F800000), mem_ok = (\<lambda>d mx m. True)\<rparr>"

definition sample_store :: "nat hnsw_ix vector_store" where
  "sample_store =
     vs_create ''hnsw'' (JObject []) llm_info_default
       \<lparr>hx_opts = \<lparr>o_max_elements = 100000, o_m = 16, o_ef_construction = 200\<rparr>, hx_space = None, hx_hnsw = None\<rparr>"

abbreviation store_inv :: "'g hnsw_ix vector_store \<Rightarrow> bool" where
  "store_inv \<equiv> vs_inv hx_fresh hx_okay hx_vecs"

abbreviation store_items :: "'g hnsw_ix vector_store \<Rightarrow> u64 \<Rightarrow> (string \<times> vector) option" where
  "store_items \<equiv> vs_items hx_vecs"

lemma sample_store_inv: "store_inv sample_store"
  unfolding sample_store_def by (rule vs_create_inv) (simp add: hx_fresh_def)

lemmas sample_eval = sample_store_def sample_graph_def vs_create_def vs_add_def vs_ensure_dim_def hnsw_lazily_init_def hnsw_new_def
  hnsw_add_def hnsw_deref_def add_point_def Let_def

lemma sample_add: "\<exists>st. vs_add (hnsw_ops sample_graph) 7 ''a'' [0x3F800000] sample_store = (Inr 7, st) \<and>
    vs_data st = [(7, ''a'')] \<and> vs_dim st = 1"
  by (simp add: sample_eval)

text \<open>C2. \<open>VectorStore::add\<close> over the HNSW index, when it returns: it returns the identifier it was given, the
  abstract map gains exactly that item (an item with the same identifier is replaced), the dimension is
  the length of the vector, and the store stays consistent.\<close>

theorem store_add:
  assumes "store_inv st" and "vs_add (hnsw_ops G) i data emb st = (Inr i', st')"
  shows "i' = i \<and> store_inv st' \<and> store_items st' = (store_items st)(i \<mapsto> (data, emb)) \<and> vs_dim st' = length emb"
  using hx.add_refines [OF assms] by blast

theorem store_add_witness:
  "\<exists>st. vs_add (hnsw_ops sample_graph) 7 ''a'' [0x3F800000] sample_store = (Inr 7, st) \<and>
     store_items st = [7 \<mapsto> (''a'', [0x3F800000])]"
proof -
  obtain st where st: "vs_add (hnsw_ops sample_graph) 7 ''a'' [0x3F800000] sample_store = (Inr 7, st)" using sample_add by blast
  have "store_items sample_store = Map.empty" by (simp add: sample_store_def vs_create_def vs_items_def fun_eq_iff)
  then show ?thesis using store_add [OF sample_store_inv st] st by simp
qed



text \<open>C11. The other operations agree with the abstract map: \<open>rem\<close> never fails, says whether the item was there and
  removes exactly it; \<open>get\<close> and \<open>data\<close> give the vector and the datum of the item; the size is the number of items.\<close>

theorem store_operations:
  assumes "store_inv st"
  shows "(\<exists>st'. vs_rem (hnsw_ops G) i st = (Inr (store_items st i \<noteq> None), st') \<and> store_inv st' \<and>
      store_items st' = (store_items st)(i := None)) \<and>
    vs_get (hnsw_ops G) i st = Inr (map_option snd (store_items st i)) \<and>
    vs_data_of i st = map_option fst (store_items st i) \<and>
    length (vs_data st) = card (dom (store_items st))"
proof -
  obtain r st' where r: "vs_rem (hnsw_ops G) i st = (r, st')" by force
  show ?thesis
    using hx.rem_refines [OF assms r] r hx.get_refines [OF assms, of G i] hx.data_refines [OF assms, of i]
      hx.size_refines [OF assms] by auto
qed

theorem store_operations_witness:
  "vs_get (hnsw_ops sample_graph) 3 sample_store = Inr None \<and> vs_data_of 3 sample_store = None"
proof -
  have "store_items sample_store 3 = None" by (simp add: sample_store_def vs_create_def vs_items_def)
  then show ?thesis using store_operations [OF sample_store_inv, of sample_graph 3] by simp
qed

text \<open>C5. Nearest neighbours: the answer has at most \<open>k\<close> entries, no identifier twice, each of them an item of the store with
  its own distance to the query (so no removed item is found), in ascending order of distance unless a
  distance is not a number.  This holds for every graph of links and every search through it.\<close>

theorem store_knn:
  assumes "store_inv st" and "vs_knn (hnsw_ops G) q k st = Inr r"
  shows "distinct (map fst r) \<and> length r \<le> unat k \<and>
    (\<forall>(i, x) \<in> set r. \<exists>s v. store_items st i = Some (s, v) \<and> x = g_dist G q v) \<and>
    ((\<forall>i s v. store_items st i = Some (s, v) \<longrightarrow> \<not> f32_is_nan (g_dist G q v)) \<longrightarrow>
      sorted_wrt (\<lambda>a b. \<not> f32_less (snd b) (snd a)) r)"
proof (cases "vs_data st = []")
  case True
  then show ?thesis using assms(2) by (simp add: vs_knn_def)
next
  case False
  note ne = vs_inv_nonempty [OF assms(1) False]
  have knn: "hnsw_knn G q k (vs_index st) = Inr r" using assms(2) False by (simp add: vs_knn_def)
  note snd = hnsw_knn_sound [OF ne(2) knn]
  have it: "\<exists>s. store_items st i = Some (s, v)" if "hx_vecs (vs_index st) i = Some v" for i v
  proof -
    have "i \<in> dom (map_of (vs_data st))" using that ne(3) by auto
    then show ?thesis using that by (auto simp: vs_items_def)
  qed
  show ?thesis
    using snd(1,2,3) it snd(4) by (auto; fastforce)
qed

lemma sample_knn:
  "\<exists>st. vs_add (hnsw_ops sample_graph) 7 ''a'' [0x3F800000] sample_store = (Inr 7, st) \<and>
     vs_knn (hnsw_ops sample_graph) [0x3F800000] 1 st = Inr [(7, 0)]"
  by (simp add: sample_eval vs_knn_def hnsw_knn_def search_knn_def search_base_layer_def search_layer_def search_start_def search_loop.simps
      expand_one_def ef_default_def pq_top_def pq_pop_def pq_shrink.simps pq_drain.simps f32_less_def f32_minus_def f32_key_def
      f32_is_nan_def)

theorem store_knn_witness:
  "\<exists>st. vs_knn (hnsw_ops sample_graph) [0x3F800000] 1 st = Inr [(7, 0)] \<and> store_items st 7 = Some (''a'', [0x3F800000]) \<and>
     (\<forall>(i, x) \<in> set [(7 :: u64, 0 :: f32)]. \<exists>s v. store_items st i = Some (s, v) \<and> x = g_dist sample_graph [0x3F800000] v)"
proof -
  obtain st where st: "vs_add (hnsw_ops sample_graph) 7 ''a'' [0x3F800000] sample_store = (Inr 7, st)"
    "vs_knn (hnsw_ops sample_graph) [0x3F800000] 1 st = Inr [(7, 0)]"
    using sample_knn by blast
  have inv: "store_inv st" "store_items st 7 = Some (''a'', [0x3F800000])"
    using hx.add_refines(2,3) [OF sample_store_inv st(1)] by simp_all
  then show ?thesis using store_knn [OF inv(1) st(2)] st(2) by blast
qed

text \<open>C39. A query that is shorter than the dimension makes the index read past the end of the query (undefined
  behaviour): LLM.KNN does not compare the two lengths, and an empty embedding is the shortest query.\<close>

theorem knn_reads_past_query:
  assumes "store_inv st" and "vs_data st \<noteq> []" and "length q < vs_dim st"
  shows "vs_knn (hnsw_ops G) q k st = Inl Undefined"
proof -
  note ne = vs_inv_nonempty [OF assms(1,2)]
  have "hx_vecs (vs_index st) \<noteq> Map.empty" using ne(3) assms(2) by (cases "vs_data st") fastforce+
  then show ?thesis using hnsw_knn_short [OF ne(2) _ assms(3)] assms(2) by (simp add: vs_knn_def)
qed

theorem knn_reads_past_query_witness:
  "\<exists>st. vs_add (hnsw_ops sample_graph) 7 ''a'' [0x3F800000] sample_store = (Inr 7, st) \<and>
     vs_knn (hnsw_ops sample_graph) [] 10 st = Inl Undefined"
proof -
  obtain st where st: "vs_add (hnsw_ops sample_graph) 7 ''a'' [0x3F800000] sample_store = (Inr 7, st)"
    "vs_data st = [(7, ''a'')]" "vs_dim st = 1"
    using sample_add by blast
  have "store_inv st" using hx.add_refines(2) [OF sample_store_inv st(1)] .
  then show ?thesis using knn_reads_past_query [of st "[]" sample_graph 10] st by simp
qed

text \<open>Automatic identifiers count up from the stored counter and do not look whether the identifier is in use:
  an item that was added under that identifier by hand is replaced; the counter moves even when the
  addition then fails.\<close>

lemma auto_id_overwrites:
  assumes "store_inv st" and "vs_add_auto (hnsw_ops G) data emb st = (r, st')"
  shows "vs_id_idx st' = vs_id_idx st + 1 \<and>
    (\<forall>i. r = Inr i \<longrightarrow> i = vs_id_idx st + 1 \<and> store_items st' = (store_items st)(vs_id_idx st + 1 \<mapsto> (data, emb)))"
proof -
  let ?st = "vs_set_id_idx (vs_id_idx st + 1) st"
  have a: "vs_add (hnsw_ops G) (vs_id_idx st + 1) data emb ?st = (r, st')" using assms(2) by (simp add: vs_add_auto_eq)
  have inv: "store_inv ?st" using assms(1) by simp
  show ?thesis
  proof (intro conjI allI impI)
    show "vs_id_idx st' = vs_id_idx st + 1" using vs_add_frame [OF a] by simp
    fix i assume "r = Inr i"
    then show "i = vs_id_idx st + 1" "store_items st' = (store_items st)(vs_id_idx st + 1 \<mapsto> (data, emb))"
      using hx.add_refines(1,3) [OF inv] a by simp_all
  qed
qed


lemma sample_store_ok: "store_ok sample_store"
  by (rule hnsw_create_store_ok [of "JObject []" llm_info_default])
    (simp add: hnsw_create_def hnsw_parse_options_def sample_store_def)


text \<open>C40. An index that cannot be allocated (a configuration with a huge \<open>max_elements\<close>) throws through \<open>add\<close> what no
  handler takes, and leaves the store with a dimension and no index: the next addition of that
  dimension dereferences a null pointer.\<close>

theorem failed_allocation_breaks_store:
  assumes "store_inv st" and "vs_dim st = 0" and "emb \<noteq> []"
    and "hnsw_new G (length emb) (o_max_elements (hx_opts (vs_index st))) (o_m (hx_opts (vs_index st)))
      (o_ef_construction (hx_opts (vs_index st))) = Inl e"
  shows "\<exists>st'. vs_add (hnsw_ops G) i data emb st = (Inl e, st') \<and> \<not> is_Error e \<and> vs_dim st' = length emb \<and>
    (\<forall>emb2. length emb2 = length emb \<longrightarrow> vs_add (hnsw_ops G) i2 data2 emb2 st' = (Inl Undefined, st'))"
proof -
  have fr: "hx_fresh (vs_index st)" "vs_data st = []" using assms(1,2) by (simp_all add: vs_inv_def)
  let ?st' = "st\<lparr>vs_dim := length emb, vs_index := (vs_index st)\<lparr>hx_space := Some (length emb)\<rparr>\<rparr>"
  have "vs_add (hnsw_ops G) i data emb st = (Inl e, ?st')"
    using assms(2-4) fr(1) by (simp add: vs_add_def vs_ensure_dim_def hnsw_lazily_init_def hx_fresh_def Let_def)
  moreover have "hx_broken ?st'" using assms(3) fr by (simp add: hx_broken_def hx_fresh_def)
  then have "vs_add (hnsw_ops G) i2 data2 emb2 ?st' = (Inl Undefined, ?st')" if "length emb2 = length emb" for emb2
    using vs_add_broken [of ?st' emb2 G i2 data2] assms(3) that by fastforce
  ultimately show ?thesis using hnsw_new_err [OF assms(4)] by simp
qed

theorem failed_allocation_breaks_store_witness:
  "\<exists>conf st st'. hnsw_create conf llm_info_default = Inr st \<and> conf = JObject [(''max_elements'', JUInt (2 ^ 63))] \<and>
     vs_add (hnsw_ops sample_graph) 1 ''a'' [0] st = (Inl (StdException ''cannot create std::vector larger than max_size()''), st') \<and>
     vs_add (hnsw_ops sample_graph) 2 ''b'' [0] st' = (Inl Undefined, st')"
proof -
  let ?conf = "JObject [(''max_elements'', JUInt (2 ^ 63))]"
  obtain st :: "nat hnsw_ix vector_store" where st: "hnsw_create ?conf llm_info_default = Inr st" "vs_dim st = 0"
    "o_max_elements (hx_opts (vs_index st)) = 2 ^ 63"
    by (simp add: hnsw_create_def hnsw_parse_options_def vs_create_def)
  have inv: "store_inv st" using hnsw_create_store_ok [OF st(1)] st(2) by (auto simp: store_ok_def hx_broken_def)
  have "hnsw_new sample_graph (length [0 :: f32]) (o_max_elements (hx_opts (vs_index st))) (o_m (hx_opts (vs_index st)))
      (o_ef_construction (hx_opts (vs_index st))) = Inl (StdException ''cannot create std::vector larger than max_size()'')"
    by (simp add: st(3) hnsw_new_def)
  from failed_allocation_breaks_store [OF inv st(2) _ this, of 1 "''a''" 2 "''b''"] st(1) show ?thesis by fastforce
qed

end
