(* ===== verification/Http_Client.thy ===== *)
theory Http_Client
  imports Json
begin

text \<open>
  \<open>http_client.h\<close> and \<open>http_client.cpp\<close>: time options, the HTTP client over \<open>libcurl\<close>, and the connection
  pool.  The clock and \<open>libcurl\<close> are parameters (\<open>outside\<close>): operations on the state \<open>'w\<close> of the world.
\<close>

section \<open>Options\<close>

text \<open>
  \<open>parse_time\<close>: the count is a signed 64-bit number of units; the conversion to milliseconds multiplies,
  and a signed overflow is undefined.
\<close>

definition duration_ms :: "int \<Rightarrow> u64 \<Rightarrow> int res" where
  "duration_ms scale n =
     (let v = sint n * scale in if v < - (2 ^ 63) \<or> 2 ^ 63 \<le> v then Inl Undefined else Inr v)"

definition parse_time :: "string \<Rightarrow> int res" where
  "parse_time str =
     bindR (catchR is_StdException (stoul_pos str)
              (\<lambda>e. Inl (Error (''invalid timeout type: '' @ str @ '', err: '' @ what e))))
       (\<lambda>(timeout, pos).
          let unit = drop pos str in
          if unit = ''ms'' then duration_ms 1 timeout
          else if unit = ''s'' then duration_ms 1000 timeout
          else if unit = ''m'' then duration_ms 60000 timeout
          else Inl (Error (''unknown timeout unit: '' @ unit)))"

record http_opts =
  ho_uri :: string
  ho_socket_timeout :: int
  ho_connect_timeout :: int
  ho_bearer_token :: string
  ho_verify :: bool
  ho_proxy_host :: string
  ho_proxy_port :: "32 word"

definition http_opts_default :: http_opts where
  "http_opts_default = \<lparr>ho_uri = [], ho_socket_timeout = 5000, ho_connect_timeout = 5000, ho_bearer_token = [],
     ho_verify = False, ho_proxy_host = [], ho_proxy_port = 0\<rparr>"

text \<open>\<open>iter = conf.find(k); if (iter != conf.end()) member = iter.value().get<T>();\<close>\<close>

definition opt_field :: "json \<Rightarrow> string \<Rightarrow> (json \<Rightarrow> 'a res) \<Rightarrow> ('a \<Rightarrow> 'o \<Rightarrow> 'o) \<Rightarrow> 'o \<Rightarrow> 'o res" where
  "opt_field conf k get upd opts =
     (case jfind conf k of None \<Rightarrow> Inr opts | Some v \<Rightarrow> bindR (get v) (\<lambda>x. Inr (upd x opts)))"

definition get_time :: "json \<Rightarrow> int res" where
  "get_time v = bindR (get_string v) parse_time"

definition http_opts_of :: "json \<Rightarrow> http_opts res" where
  "http_opts_of conf =
     bindR (opt_field conf ''uri'' get_string (\<lambda>x. ho_uri_update (\<lambda>_. x)) http_opts_default) (\<lambda>o1.
     bindR (opt_field conf ''socket_timeout'' get_time (\<lambda>x. ho_socket_timeout_update (\<lambda>_. x)) o1) (\<lambda>o2.
     bindR (opt_field conf ''connect_timeout'' get_time (\<lambda>x. ho_connect_timeout_update (\<lambda>_. x)) o2) (\<lambda>o3.
     bindR (opt_field conf ''bearer_token'' get_string (\<lambda>x. ho_bearer_token_update (\<lambda>_. x)) o3) (\<lambda>o4.
     bindR (opt_field conf ''enable_certificate_verification'' get_bool (\<lambda>x. ho_verify_update (\<lambda>_. x)) o4) (\<lambda>o5.
     bindR (opt_field conf ''proxy_host'' get_string (\<lambda>x. ho_proxy_host_update (\<lambda>_. x)) o5) (\<lambda>o6.
     opt_field conf ''proxy_port'' get_int (\<lambda>x. ho_proxy_port_update (\<lambda>_. x)) o6))))))"

record http_pool_opts =
  po_size :: u64
  po_wait_timeout :: int
  po_connection_lifetime :: int

definition http_pool_opts_default :: http_pool_opts where
  "http_pool_opts_default = \<lparr>po_size = 5, po_wait_timeout = 0, po_connection_lifetime = 0\<rparr>"

definition http_pool_opts_of :: "json \<Rightarrow> http_pool_opts res" where
  "http_pool_opts_of conf =
     bindR (opt_field conf ''size'' get_u64 (\<lambda>x. po_size_update (\<lambda>_. x)) http_pool_opts_default) (\<lambda>o1.
     bindR (opt_field conf ''wait_timeout'' get_time (\<lambda>x. po_wait_timeout_update (\<lambda>_. x)) o1) (\<lambda>o2.
     opt_field conf ''connection_lifetime'' get_time (\<lambda>x. po_connection_lifetime_update (\<lambda>_. x)) o2))"

section \<open>The client\<close>

text \<open>A request as it is handed to \<open>libcurl\<close>, and what \<open>curl_easy_perform\<close> did.\<close>

record http_request =
  rq_opts :: http_opts
  rq_url :: string
  rq_headers :: "string list"
  rq_body :: string

datatype http_outcome = Curl_Failed string | Response nat string

text \<open>\<open>steady_clock::now()\<close>, whether \<open>curl_easy_init\<close> gives a handle, and \<open>curl_easy_perform\<close>.\<close>

record 'w outside =
  ow_now :: "'w \<Rightarrow> int \<times> 'w"
  ow_curl_init :: "'w \<Rightarrow> bool \<times> 'w"
  ow_perform :: "http_request \<Rightarrow> 'w \<Rightarrow> http_outcome \<times> 'w"

text \<open>\<open>hc_handle\<close>: whether \<open>_cli\<close> is set (\<open>broken()\<close> is its negation).\<close>

record http_client =
  hc_opts :: http_opts
  hc_create_time :: int
  hc_handle :: bool

definition make_client :: "'w outside \<Rightarrow> ('w, unit) act" where
  "make_client W w =
     (case ow_curl_init W w of (okay, w1) \<Rightarrow>
        (if okay then Inr () else Inl (Error ''failed to create curl handle''), w1))"

definition http_client_new :: "'w outside \<Rightarrow> http_opts \<Rightarrow> ('w, http_client) act" where
  "http_client_new W opts w =
     (case ow_now W w of (t, w1) \<Rightarrow>
        bindS (make_client W) (\<lambda>_. returnS \<lparr>hc_opts = opts, hc_create_time = t, hc_handle = True\<rparr>) w1)"

text \<open>\<open>reconnect\<close> assigns \<open>_cli\<close> only.\<close>

definition http_reconnect :: "'w outside \<Rightarrow> http_client \<Rightarrow> ('w, http_client) act" where
  "http_reconnect W cli = bindS (make_client W) (\<lambda>_. returnS (cli\<lparr>hc_handle := True\<rparr>))"

text \<open>\<open>_build_header\<close>; the order of an \<open>unordered_multimap\<close> is the order of the list.\<close>

definition build_header :: "http_opts \<Rightarrow> string \<Rightarrow> (string \<times> string) list \<Rightarrow> string list" where
  "build_header opts content_type headers =
     (let h1 = headers @ (if ho_bearer_token opts \<noteq> [] then [(''Authorization'', ''Bearer '' @ ho_bearer_token opts)] else []);
          h2 = h1 @ (if content_type \<noteq> [] then [(''Content-Type'', content_type)] else [])
      in map (\<lambda>(key, value). key @ '': '' @ value) h2)"

text \<open>
  \<open>post\<close>: a null handle makes the first \<open>curl_easy_setopt\<close> fail; a failed transfer drops the handle.
\<close>

definition http_post ::
    "'w outside \<Rightarrow> string \<Rightarrow> (string \<times> string) list \<Rightarrow> string \<Rightarrow> string \<Rightarrow> (http_client \<times> 'w, string) act" where
  "http_post W path headers body content_type s =
     (case s of (cli, w) \<Rightarrow>
        if \<not> hc_handle cli then (Inl (Error ''failed to set curl option: 10023''), (cli, w))
        else (case ow_perform W \<lparr>rq_opts = hc_opts cli, rq_url = ho_uri (hc_opts cli) @ path,
                 rq_headers = build_header (hc_opts cli) content_type headers, rq_body = body\<rparr> w of
          (Curl_Failed err, w1) \<Rightarrow> (Inl (Error (''failed to do post: '' @ err)), (cli\<lparr>hc_handle := False\<rparr>, w1))
        | (Response code response, w1) \<Rightarrow>
            (if code \<noteq> 200 then Inl (Error (''failed to do post: '' @ response)) else Inr response, (cli, w1))))"

section \<open>The pool\<close>

record http_pool =
  hp_opts :: http_opts
  hp_pool_opts :: http_pool_opts
  hp_pool :: "http_client list"
  hp_used :: u64

definition http_pool_new :: "http_opts \<Rightarrow> http_pool_opts \<Rightarrow> http_pool res" where
  "http_pool_new opts pool_opts =
     (if po_size pool_opts = 0 then Inl (Error ''cannot create an empty pool'')
      else Inr \<lparr>hp_opts = opts, hp_pool_opts = pool_opts, hp_pool = [], hp_used = 0\<rparr>)"

definition need_reconnect :: "'w outside \<Rightarrow> http_client \<Rightarrow> int \<Rightarrow> ('w, bool) act" where
  "need_reconnect W cli lifetime w =
     (if \<not> hc_handle cli then (Inr True, w)
      else if 0 < lifetime then (case ow_now W w of (t, w1) \<Rightarrow> (Inr (lifetime < t - hc_create_time cli), w1))
      else (Inr False, w))"

definition pool_release :: "http_client \<Rightarrow> http_pool \<Rightarrow> http_pool" where
  "pool_release cli p = p\<lparr>hp_pool := hp_pool p @ [cli]\<rparr>"

text \<open>The rest of \<open>fetch\<close> once the pool is not empty: take the first client, reconnect it if need be; a
  client that cannot be reconnected goes back.\<close>

definition pool_take :: "'w outside \<Rightarrow> (http_pool \<times> 'w, http_client) act" where
  "pool_take W s =
     (case s of (p, w) \<Rightarrow>
        let cli = hd (hp_pool p); p1 = p\<lparr>hp_pool := tl (hp_pool p)\<rparr> in
        (case need_reconnect W cli (po_connection_lifetime (hp_pool_opts p)) w of
           (Inr True, w1) \<Rightarrow>
             (case http_reconnect W cli w1 of
                (Inl e, w2) \<Rightarrow> (Inl e, (pool_release cli p1, w2))
              | (Inr cli1, w2) \<Rightarrow> (Inr cli1, (p1, w2)))
         | (_, w1) \<Rightarrow> (Inr cli, (p1, w1))))"

text \<open>\<open>fetch\<close>; the value \<open>None\<close> means that the caller enters \<open>_wait_for_client\<close>.\<close>

definition pool_fetch :: "'w outside \<Rightarrow> (http_pool \<times> 'w, http_client option) act" where
  "pool_fetch W s =
     (case s of (p, w) \<Rightarrow>
        if hp_pool p = [] then
          if hp_used p = po_size (hp_pool_opts p) then (Inr None, (p, w))
          else (case http_client_new W (hp_opts p) w of
                  (Inl e, w1) \<Rightarrow> (Inl e, (p, w1))
                | (Inr cli, w1) \<Rightarrow> (Inr (Some cli), (p\<lparr>hp_used := hp_used p + 1\<rparr>, w1)))
        else bindS (pool_take W) (\<lambda>cli. returnS (Some cli)) (p, w))"

text \<open>\<open>_wait_for_client\<close> when no other thread gives a client back: the timeout, or no end.\<close>

definition wait_alone :: "http_pool \<Rightarrow> exn" where
  "wait_alone p =
     (let t = po_wait_timeout (hp_pool_opts p) in
      if 0 < t then Error (''failed to fetch a client in '' @ nat_to_string (nat t) @ '' milliseconds'')
      else Blocked)"

text \<open>\<open>SafeClient cli(pool); cli.client().post(..., body)\<close>: the body is computed once the client is fetched,
  and may throw; the destructor releases the client on every path.\<close>

definition safe_post ::
    "'w outside \<Rightarrow> string \<Rightarrow> (string \<times> string) list \<Rightarrow> string res \<Rightarrow> (http_pool \<times> 'w, string) act" where
  "safe_post W path headers body =
     bindS (pool_fetch W) (\<lambda>c.
       (case c of
          None \<Rightarrow> (\<lambda>s. (Inl (wait_alone (fst s)), s))
        | Some cli \<Rightarrow>
            (\<lambda>(p, w). case bindS (liftR body) (\<lambda>b. http_post W path headers b ''application/json'') (cli, w) of
               (r, (cli1, w1)) \<Rightarrow> (r, (pool_release cli1 p, w1)))))"

section \<open>The pool between requests\<close>

text \<open>No connection is lost: the counter is the number of clients in the pool and outside it.\<close>

definition pool_inv :: "http_pool \<Rightarrow> nat \<Rightarrow> bool" where
  "pool_inv p out \<longleftrightarrow>
     po_size (hp_pool_opts p) \<noteq> 0 \<and> unat (hp_used p) = length (hp_pool p) + out \<and>
     unat (hp_used p) \<le> unat (po_size (hp_pool_opts p))"

lemma http_pool_new_inv: "http_pool_new opts popts = Inr p \<Longrightarrow> pool_inv p 0"
  by (auto simp: http_pool_new_def pool_inv_def split: if_splits)

lemma pool_release_inv: "pool_inv p (Suc out) \<Longrightarrow> pool_inv (pool_release cli p) out"
  by (simp add: pool_inv_def pool_release_def)

lemma pool_take_cases:
  assumes "pool_take W (p, w) = (r, (p', w'))"
  obtains cli where "r = Inr cli" and "hc_handle cli" and "p' = p\<lparr>hp_pool := tl (hp_pool p)\<rparr>"
    | e where "r = Inl e" and "is_Error e" and "p' = pool_release (hd (hp_pool p)) (p\<lparr>hp_pool := tl (hp_pool p)\<rparr>)"
  using assms
  by (auto simp: pool_take_def Let_def need_reconnect_def http_reconnect_def make_client_def bindS_def
      split: if_splits prod.splits sum.splits bool.splits)

lemma pool_take_inv:
  assumes "pool_inv p out" and "hp_pool p \<noteq> []" and "pool_take W (p, w) = (r, (p', w'))"
  shows "case r of Inl e \<Rightarrow> is_Error e \<and> pool_inv p' out | Inr cli \<Rightarrow> hc_handle cli \<and> pool_inv p' (Suc out)"
  using assms(3)
proof (cases rule: pool_take_cases)
  case (1 cli)
  then show ?thesis using assms(1,2) by (cases "hp_pool p") (auto simp: pool_inv_def)
next
  case (2 e)
  then show ?thesis using assms(1,2) by (cases "hp_pool p") (auto simp: pool_inv_def pool_release_def)
qed

lemma pool_fetch_cases:
  assumes "pool_fetch W (p, w) = (r, (p', w'))"
  obtains (wait) "r = Inr None" and "p' = p" and "hp_pool p = []" and "hp_used p = po_size (hp_pool_opts p)"
    | (create) cli where "r = Inr (Some cli)" and "hc_handle cli" and "p' = p\<lparr>hp_used := hp_used p + 1\<rparr>"
        and "hp_pool p = []" and "hp_used p \<noteq> po_size (hp_pool_opts p)"
    | (no_create) e where "r = Inl e" and "is_Error e" and "p' = p"
    | (take_ok) cli where "r = Inr (Some cli)" and "hp_pool p \<noteq> []" and "pool_take W (p, w) = (Inr cli, (p', w'))"
    | (take_fail) e where "r = Inl e" and "hp_pool p \<noteq> []" and "pool_take W (p, w) = (Inl e, (p', w'))"
proof (cases "hp_pool p = []")
  case True
  show ?thesis
  proof (cases "hp_used p = po_size (hp_pool_opts p)")
    case True
    with \<open>hp_pool p = []\<close> assms show ?thesis by (intro wait) (simp_all add: pool_fetch_def)
  next
    case False
    with \<open>hp_pool p = []\<close> assms show ?thesis
      using create no_create
      by (auto simp: pool_fetch_def http_client_new_def make_client_def bindS_def split: prod.splits if_splits)
  qed
next
  case False
  with assms have "bindS (pool_take W) (\<lambda>cli. returnS (Some cli)) (p, w) = (r, (p', w'))"
    by (simp add: pool_fetch_def)
  then show ?thesis by (cases rule: bindS_cases) (use take_ok take_fail False in auto)
qed

lemma pool_fetch_inv:
  assumes inv: "pool_inv p out" and f: "pool_fetch W (p, w) = (r, (p', w'))"
  shows "case r of Inl e \<Rightarrow> is_Error e \<and> pool_inv p' out
         | Inr None \<Rightarrow> p' = p \<and> hp_pool p = [] \<and> unat (hp_used p) = unat (po_size (hp_pool_opts p))
         | Inr (Some cli) \<Rightarrow> hc_handle cli \<and> pool_inv p' (Suc out)"
  using f
proof (cases rule: pool_fetch_cases)
  case (create cli)
  have "unat (hp_used p) \<noteq> unat (po_size (hp_pool_opts p))" using create(5) by (simp add: word_unat_eq_iff)
  then have lt: "unat (hp_used p) < unat (po_size (hp_pool_opts p))" using inv by (simp add: pool_inv_def)
  then have "unat (hp_used p) + 1 < 2 ^ 64" using unsigned_less [of "po_size (hp_pool_opts p)", where 'a = nat] by simp
  then have "unat (hp_used p + 1) = Suc (unat (hp_used p))" by (simp add: unat_word_ariths)
  then show ?thesis using create inv lt by (simp add: pool_inv_def)
next
  case (take_ok cli)
  then show ?thesis using pool_take_inv [OF inv take_ok(2,3)] by simp
next
  case (take_fail e)
  then show ?thesis using pool_take_inv [OF inv take_fail(2,3)] by simp
qed (use inv in auto)

text \<open>A request by a thread on its own never waits, and gives its client back however it ends.\<close>

lemma safe_post_obeys:
  assumes body: "\<And>e. body = Inl e \<Longrightarrow> is_StdException e"
  shows "obeys is_StdException (\<lambda>(p, w). pool_inv p 0) (safe_post W path headers body)"
proof (rule obeysI)
  fix s s' :: "http_pool \<times> 'a" and r
  assume inv: "case s of (p, w) \<Rightarrow> pool_inv p 0" and r: "safe_post W path headers body s = (r, s')"
  from r show "(case s' of (p, w) \<Rightarrow> pool_inv p 0) \<and> (\<forall>e. r = Inl e \<longrightarrow> is_StdException e)"
    unfolding safe_post_def
  proof (cases rule: bindS_cases)
    case (throw e)
    then show ?thesis using inv pool_fetch_inv [of "fst s" 0 W "snd s" "Inl e" "fst s'" "snd s'"] by auto
  next
    case (step c s1)
    then have fi: "case c of None \<Rightarrow> fst s1 = fst s \<and> hp_pool (fst s) = [] \<and>
        unat (hp_used (fst s)) = unat (po_size (hp_pool_opts (fst s)))
      | Some cli \<Rightarrow> hc_handle cli \<and> pool_inv (fst s1) (Suc 0)"
      using inv pool_fetch_inv [of "fst s" 0 W "snd s" "Inr c" "fst s1" "snd s1"] by auto
    show ?thesis
    proof (cases c)
      case None
      then show ?thesis using fi inv by (auto simp: pool_inv_def unsigned_eq_0_iff)
    next
      case (Some cli)
      then show ?thesis using fi step(2) body
        by (cases body)
          (auto simp: bindS_def http_post_def split: prod.splits if_splits http_outcome.splits intro: pool_release_inv)
    qed
  qed
qed

text \<open>\<open>parse_time\<close> reads the three units.\<close>

lemma parse_time_ms:
  assumes "unat n < 2 ^ 63" and "u = ''ms'' \<and> k = 1 \<or> u = ''s'' \<and> k = 1000 \<or> u = ''m'' \<and> k = 60000"
    and "uint n * k < 2 ^ 63"
  shows "parse_time (u64_to_string n @ u) = Inr (uint n * k)"
proof -
  have "digits_val (nat_to_string (unat n)) < 2 ^ 64" using unsigned_less [of n] by simp
  moreover have "\<not> isdigit (hd u)" using assms(2) by (auto simp: isdigit_def byte_def)
  ultimately have p: "stoul_pos (u64_to_string n @ u) = Inr (n, length (u64_to_string n))"
    unfolding u64_to_string_def
    by (subst stoul_pos_digits [OF nat_to_string_nonempty nat_to_string_digits]) simp_all
  have "int (unat n) < int (2 ^ 63)" using assms(1) by (simp only: of_nat_less_iff)
  then have "uint n < 2 ^ 63" unfolding uint_nat [symmetric] by simp
  then have "sint n = uint n" by (simp add: sint_uint signed_take_bit_int_eq_self order.trans [of _ 0])
  moreover have "0 \<le> uint n * k" using assms(2) by auto
  ultimately have "duration_ms k n = Inr (uint n * k)"
    using assms(3) by (simp add: duration_ms_def)
  then show ?thesis using assms(2) p by (auto simp: parse_time_def Let_def)
qed

section \<open>Properties\<close>

text \<open>An outside world for examples: a clock that stands still, a transfer that always gives the same body.\<close>

definition sample_outside :: "string \<Rightarrow> unit outside" where
  "sample_outside body = \<lparr>ow_now = (\<lambda>w. (0, w)), ow_curl_init = (\<lambda>w. (True, w)), ow_perform = (\<lambda>rq w. (Response 200 body, w))\<rparr>"

text \<open>\<open>parse_time\<close> reads a number and one of the units \<open>ms\<close>, \<open>s\<close>, \<open>m\<close> as that many milliseconds, whenever
  the number and the product fit the signed 64-bit count of \<open>std::chrono\<close>.\<close>

lemma parse_time_reads:
  assumes "unat n < 2 ^ 63" and "u = ''ms'' \<and> k = 1 \<or> u = ''s'' \<and> k = 1000 \<or> u = ''m'' \<and> k = 60000"
    and "uint n * k < 2 ^ 63"
  shows "parse_time (u64_to_string n @ u) = Inr (uint n * k)"
  by (rule parse_time_ms [OF assms])

text \<open>\<open>reconnect\<close> renews the handle and not the creation time: once the lifetime of a pooled client is over,
  the client is still expired right after it was reconnected, at every later time of the clock, so
  every further request opens a new connection.\<close>

lemma reconnect_stays_expired:
  assumes "need_reconnect W cli lifetime w = (Inr True, w1)" and "hc_handle cli" and "ow_now W w = (t, w1)"
    and "http_reconnect W cli w1 = (Inr cli', w2)" and "ow_now W w2 = (t', w3)" and "t \<le> t'"
  shows "need_reconnect W cli' lifetime w2 = (Inr True, w3)"
proof -
  have "0 < lifetime" "lifetime < t - hc_create_time cli" using assms(1-3) by (auto simp: need_reconnect_def split: if_splits)
  moreover have "hc_create_time cli' = hc_create_time cli" "hc_handle cli'"
    using assms(4) by (auto simp: http_reconnect_def make_client_def bindS_def split: prod.splits if_splits)
  ultimately show ?thesis using assms(5,6) by (simp add: need_reconnect_def)
qed

end
