(* ===== verification/Llm_Models.thy ===== *)
theory Llm_Models
  imports Http_Client
begin

text \<open>
  The LLM models: \<open>llm_model.h\<close> and \<open>.cpp\<close> (the class, its virtual functions and the factory), \<open>openai\<close>,
  \<open>azure_openai\<close>, \<open>llama_cpp\<close>, and the embedding models (\<open>embedding_model\<close>, \<open>openai_embedding\<close>).
  The network is the parameter \<open>W\<close> of \<open>Http_Client\<close>, the JSON text form the parameter \<open>J\<close>.
\<close>

section \<open>Requests and answers\<close>

text \<open>\<open>j[k]\<close> on an answer that is not used afterwards: a missing member is null.\<close>

fun jref :: "json \<Rightarrow> string \<Rightarrow> json res" where
  "jref JNull k = Inr JNull"
| "jref (JObject m) k = Inr (case map_of m k of None \<Rightarrow> JNull | Some v \<Rightarrow> v)"
| "jref j k = type_error ''305'' (''cannot use operator[] with a string argument with '' @ type_name j)"

text \<open>\<open>for (auto &ele : j)\<close>.\<close>

fun json_elems :: "json \<Rightarrow> json list" where
  "json_elems JNull = []"
| "json_elems (JArray xs) = xs"
| "json_elems (JObject m) = map snd m"
| "json_elems j = [j]"

fun push_all :: "json \<Rightarrow> json list \<Rightarrow> json res" where
  "push_all msgs [] = Inr msgs"
| "push_all msgs (x # xs) = bindR (jpush_back msgs x) (\<lambda>msgs1. push_all msgs1 xs)"

definition role_msg :: "string \<Rightarrow> string \<Rightarrow> json res" where
  "role_msg role content = bindR (jput JNull ''role'' (JString role)) (\<lambda>m. jput m ''content'' (JString content))"

text \<open>\<open>_construct_msg\<close> (the same in \<open>openai.cpp\<close> and \<open>azure_openai.cpp\<close>).\<close>

definition construct_msg :: "string \<Rightarrow> string \<Rightarrow> json \<Rightarrow> json res" where
  "construct_msg input system_info recent_history =
     bindR (if system_info \<noteq> [] then bindR (role_msg ''system'' system_info) (jpush_back JNull) else Inr JNull) (\<lambda>msgs.
     bindR (push_all msgs (json_elems recent_history)) (\<lambda>msgs1.
     bindR (role_msg ''user'' input) (jpush_back msgs1)))"

text \<open>\<open>ans["choices"][0]["message"]["content"]\<close> and \<open>ans["data"][0]["embedding"]\<close>, with the checks on them.\<close>

definition chat_content :: "json \<Rightarrow> string res" where
  "chat_content ans =
     bindR (jref ans ''choices'') (\<lambda>choices.
       case choices of
         JArray (c # cs) \<Rightarrow>
           bindR (jref c ''message'') (\<lambda>message. bindR (jref message ''content'') (\<lambda>content.
             case content of JString s \<Rightarrow> Inr s | _ \<Rightarrow> Inl (Error ''invalid chat choices'')))
       | _ \<Rightarrow> Inl (Error ''invalid chat choices''))"

definition embedding_content :: "json \<Rightarrow> vector res" where
  "embedding_content ans =
     bindR (jref ans ''data'') (\<lambda>data.
       case data of
         JArray (c # cs) \<Rightarrow>
           bindR (jref c ''embedding'') (\<lambda>embedding.
             case embedding of JArray xs \<Rightarrow> get_vector (JArray xs) | _ \<Rightarrow> Inl (Error ''invalid embedding response''))
       | _ \<Rightarrow> Inl (Error ''invalid embedding response''))"

section \<open>OpenAI\<close>

record openai_opts =
  oo_api_key :: string
  oo_chat :: json
  oo_chat_path :: string
  oo_embedding :: json
  oo_embedding_path :: string
  oo_http :: http_opts
  oo_http_pool :: http_pool_opts

definition parse_http_options :: "json \<Rightarrow> (http_opts \<times> http_pool_opts) res" where
  "parse_http_options conf =
     (case jfind conf ''http'' of
        None \<Rightarrow> Inr (http_opts_default, http_pool_opts_default)
      | Some http_conf \<Rightarrow>
          bindR (http_opts_of http_conf) (\<lambda>http.
          bindR (case jfind http_conf ''pool'' of None \<Rightarrow> Inr http_pool_opts_default | Some c \<Rightarrow> http_pool_opts_of c)
            (\<lambda>pool. Inr (http, pool))))"

text \<open>\<open>if (j.find("model") == j.end()) j["model"] = ...\<close>\<close>

definition default_model :: "json \<Rightarrow> string \<Rightarrow> json res" where
  "default_model j model = (case jfind j ''model'' of None \<Rightarrow> jput j ''model'' (JString model) | Some _ \<Rightarrow> Inr j)"

definition openai_parse_options :: "json_text \<Rightarrow> json \<Rightarrow> openai_opts res" where
  "openai_parse_options J conf =
     catchR is_JsonException
       (bindR (bindR (jat conf ''api_key'') get_string) (\<lambda>api_key.
        bindR (jvalue get_json conf ''chat'' JNull) (\<lambda>chat.
        bindR (jvalue get_string conf ''chat_path'' ''/v1/chat/completions'') (\<lambda>chat_path.
        bindR (jvalue get_json conf ''embedding'' JNull) (\<lambda>embedding.
        bindR (jvalue get_string conf ''embedding_path'' ''/v1/embeddings'') (\<lambda>embedding_path.
        bindR (default_model chat ''gpt-3.5-turbo'') (\<lambda>chat1.
        bindR (default_model embedding ''text-embedding-ada-002'') (\<lambda>embedding1.
        bindR (parse_http_options conf) (\<lambda>(http, pool).
        Inr \<lparr>oo_api_key = api_key, oo_chat = chat1, oo_chat_path = chat_path, oo_embedding = embedding1,
             oo_embedding_path = embedding_path,
             oo_http = http\<lparr>ho_uri := ''https://api.openai.com'', ho_bearer_token := api_key\<rparr>,
             oo_http_pool = pool\<rparr>)))))))))
       (\<lambda>e. bindR (jdump J conf) (\<lambda>dump. Inl (Error (''failed to parse openai options: '' @ what e @ '':'' @ dump))))"

definition openai_query :: "'w outside \<Rightarrow> json_text \<Rightarrow> string \<Rightarrow> json \<Rightarrow> (http_pool \<times> 'w, json) act" where
  "openai_query W J path req = bindS (safe_post W path [] (jdump J req)) (\<lambda>output. liftR (jparse J output))"

definition openai_predict :: "'w outside \<Rightarrow> json_text \<Rightarrow> openai_opts \<Rightarrow> string \<Rightarrow> (http_pool \<times> 'w, string) act" where
  "openai_predict W J opts input =
     catchS is_StdException
       (if oo_chat opts = JNull then throwS (Error ''no chat conf is specified'')
        else bindS (liftR (bindR (construct_msg input [] JNull) (jput (oo_chat opts) ''messages''))) (\<lambda>req.
             bindS (openai_query W J (oo_chat_path opts) req) (\<lambda>ans. liftR (chat_content ans))))
       (\<lambda>e. throwS (Error (''failed to predict with openai: '' @ what e)))"

definition openai_chat ::
    "'w outside \<Rightarrow> json_text \<Rightarrow> openai_opts \<Rightarrow> string \<Rightarrow> string \<Rightarrow> json \<Rightarrow> (http_pool \<times> 'w, string) act" where
  "openai_chat W J opts input system_msg recent_history =
     catchS is_StdException
       (if oo_chat opts = JNull then throwS (Error ''no chat conf is specified'')
        else bindS (liftR (bindR (construct_msg input system_msg recent_history) (jput (oo_chat opts) ''messages''))) (\<lambda>req.
             bindS (openai_query W J (oo_chat_path opts) req) (\<lambda>ans. liftR (chat_content ans))))
       (\<lambda>e. throwS (Error (''failed to predict: '' @ what e)))"

definition openai_embedding :: "'w outside \<Rightarrow> json_text \<Rightarrow> openai_opts \<Rightarrow> string \<Rightarrow> (http_pool \<times> 'w, vector) act" where
  "openai_embedding W J opts input =
     catchS is_StdException
       (if oo_embedding opts = JNull then throwS (Error ''no embedding config is specified'')
        else bindS (liftR (jput (oo_embedding opts) ''input'' (JString input))) (\<lambda>req.
             bindS (openai_query W J (oo_embedding_path opts) req) (\<lambda>ans. liftR (embedding_content ans))))
       (\<lambda>e. throwS (Error (''failed to request embedding: '' @ what e)))"

section \<open>Azure OpenAI\<close>

record azure_opts =
  ao_resource_name :: string
  ao_chat_deployment_id :: string
  ao_embedding_deployment_id :: string
  ao_api_version :: string
  ao_api_key :: string
  ao_chat :: json
  ao_embedding :: json
  ao_http :: http_opts
  ao_http_pool :: http_pool_opts

definition azure_parse_options :: "json_text \<Rightarrow> json \<Rightarrow> azure_opts res" where
  "azure_parse_options J conf =
     catchR is_JsonException
       (bindR (bindR (jat conf ''api_key'') get_string) (\<lambda>api_key.
        bindR (bindR (jat conf ''resource_name'') get_string) (\<lambda>resource_name.
        bindR (bindR (jat conf ''chat_deployment_id'') get_string) (\<lambda>chat_deployment_id.
        bindR (bindR (jat conf ''embedding_deployment_id'') get_string) (\<lambda>embedding_deployment_id.
        bindR (bindR (jat conf ''api_version'') get_string) (\<lambda>api_version.
        bindR (jvalue get_json conf ''chat'' JNull) (\<lambda>chat.
        bindR (jvalue get_json conf ''embedding'' JNull) (\<lambda>embedding.
        bindR (parse_http_options conf) (\<lambda>(http, pool).
        Inr \<lparr>ao_resource_name = resource_name, ao_chat_deployment_id = chat_deployment_id,
             ao_embedding_deployment_id = embedding_deployment_id, ao_api_version = api_version,
             ao_api_key = api_key, ao_chat = chat, ao_embedding = embedding,
             ao_http = http\<lparr>ho_uri := ''https://'' @ resource_name @ ''.openai.azure.com''\<rparr>,
             ao_http_pool = pool\<rparr>)))))))))
       (\<lambda>e. bindR (jdump J conf) (\<lambda>dump. Inl (Error (''failed to parse openai options: '' @ what e @ '':'' @ dump))))"

definition azure_query ::
    "'w outside \<Rightarrow> json_text \<Rightarrow> azure_opts \<Rightarrow> string \<Rightarrow> json \<Rightarrow> (http_pool \<times> 'w, json) act" where
  "azure_query W J opts path req =
     bindS (safe_post W path [(''api-key'', ao_api_key opts)] (jdump J req)) (\<lambda>output. liftR (jparse J output))"

definition azure_chat_path :: "azure_opts \<Rightarrow> string" where
  "azure_chat_path opts =
     ''/openai/deployments/'' @ ao_chat_deployment_id opts @ ''/chat/completions?api-version='' @ ao_api_version opts"

definition azure_predict :: "'w outside \<Rightarrow> json_text \<Rightarrow> azure_opts \<Rightarrow> string \<Rightarrow> (http_pool \<times> 'w, string) act" where
  "azure_predict W J opts input =
     catchS is_StdException
       (bindS (liftR (bindR (construct_msg input [] JNull) (jput (ao_chat opts) ''messages''))) (\<lambda>req.
        bindS (azure_query W J opts (azure_chat_path opts) req) (\<lambda>ans. liftR (chat_content ans))))
       (\<lambda>e. throwS (Error (''failed to predict with openai: '' @ what e)))"

definition azure_chat ::
    "'w outside \<Rightarrow> json_text \<Rightarrow> azure_opts \<Rightarrow> string \<Rightarrow> string \<Rightarrow> json \<Rightarrow> (http_pool \<times> 'w, string) act" where
  "azure_chat W J opts input system_msg recent_history =
     catchS is_StdException
       (bindS (liftR (bindR (construct_msg input system_msg recent_history) (jput (ao_chat opts) ''messages''))) (\<lambda>req.
        bindS (azure_query W J opts (azure_chat_path opts) req) (\<lambda>ans. liftR (chat_content ans))))
       (\<lambda>e. throwS (Error (''failed to predict: '' @ what e)))"

definition azure_embedding :: "'w outside \<Rightarrow> json_text \<Rightarrow> azure_opts \<Rightarrow> string \<Rightarrow> (http_pool \<times> 'w, vector) act" where
  "azure_embedding W J opts input =
     catchS is_StdException
       (bindS (liftR (jput (ao_embedding opts) ''input'' (JString input))) (\<lambda>req.
        bindS (azure_query W J opts
          (''/openai/deployments/'' @ ao_embedding_deployment_id opts @ ''/embeddings?api-version='' @ ao_api_version opts) req)
          (\<lambda>ans. liftR (embedding_content ans))))
       (\<lambda>e. throwS (Error (''failed to request embedding: '' @ what e)))"

section \<open>The class \<open>LlmModel\<close>\<close>

text \<open>The derived classes with their members; \<open>LlamaCpp\<close> keeps its \<open>sub_type\<close>.\<close>

datatype llm_impl =
    OpenAi openai_opts http_pool
  | AzureOpenAi azure_opts http_pool
  | LlamaCpp string

record llm_model =
  lm_type :: string
  lm_conf :: json
  lm_impl :: llm_impl

definition openai_create :: "json_text \<Rightarrow> json \<Rightarrow> llm_model res" where
  "openai_create J conf =
     bindR (openai_parse_options J conf) (\<lambda>opts.
     bindR (http_pool_new (oo_http opts) (oo_http_pool opts)) (\<lambda>pool.
     Inr \<lparr>lm_type = ''openai'', lm_conf = conf, lm_impl = OpenAi opts pool\<rparr>))"

definition azure_create :: "json_text \<Rightarrow> json \<Rightarrow> llm_model res" where
  "azure_create J conf =
     bindR (azure_parse_options J conf) (\<lambda>opts.
     bindR (http_pool_new (ao_http opts) (ao_http_pool opts)) (\<lambda>pool.
     Inr \<lparr>lm_type = ''azure_openai'', lm_conf = conf, lm_impl = AzureOpenAi opts pool\<rparr>))"

definition llama_create :: "json \<Rightarrow> llm_model res" where
  "llama_create conf =
     bindR (catchR is_JsonException (bindR (jat conf ''sub_type'') get_string)
              (\<lambda>e. Inl (Error (''failed to parse llama options: '' @ what e))))
       (\<lambda>sub_type. Inr \<lparr>lm_type = ''llamacpp'', lm_conf = conf, lm_impl = LlamaCpp sub_type\<rparr>)"

text \<open>\<open>LlmModelFactory::create\<close>.\<close>

definition llm_create :: "json_text \<Rightarrow> string \<Rightarrow> json \<Rightarrow> llm_model res" where
  "llm_create J type conf =
     (if type = ''openai'' then openai_create J conf
      else if type = ''llamacpp'' then llama_create conf
      else if type = ''azure_openai'' then azure_create J conf
      else Inl (Error (''unknown LLM model: '' @ type)))"

text \<open>A request of the model uses its pool.\<close>

definition on_pool :: "(http_pool \<Rightarrow> llm_impl) \<Rightarrow> http_pool \<Rightarrow> (http_pool \<times> 'w, 'a) act \<Rightarrow> (llm_model \<times> 'w, 'a) act" where
  "on_pool C p m s =
     (case s of (lm, w) \<Rightarrow> (case m (p, w) of (r, (p1, w1)) \<Rightarrow> (r, (lm\<lparr>lm_impl := C p1\<rparr>, w1))))"

text \<open>The virtual functions; every one ignores its last argument \<open>params\<close>.\<close>

definition llm_embedding :: "'w outside \<Rightarrow> json_text \<Rightarrow> string \<Rightarrow> json \<Rightarrow> (llm_model \<times> 'w, vector) act" where
  "llm_embedding W J input params s =
     (case lm_impl (fst s) of
        OpenAi opts p \<Rightarrow> on_pool (OpenAi opts) p (openai_embedding W J opts input) s
      | AzureOpenAi opts p \<Rightarrow> on_pool (AzureOpenAi opts) p (azure_embedding W J opts input) s
      | LlamaCpp sub_type \<Rightarrow> (Inr [], s))"

definition llm_predict :: "'w outside \<Rightarrow> json_text \<Rightarrow> string \<Rightarrow> json \<Rightarrow> (llm_model \<times> 'w, string) act" where
  "llm_predict W J input params s =
     (case lm_impl (fst s) of
        OpenAi opts p \<Rightarrow> on_pool (OpenAi opts) p (openai_predict W J opts input) s
      | AzureOpenAi opts p \<Rightarrow> on_pool (AzureOpenAi opts) p (azure_predict W J opts input) s
      | LlamaCpp sub_type \<Rightarrow> (Inr [], s))"

definition llm_chat ::
    "'w outside \<Rightarrow> json_text \<Rightarrow> string \<Rightarrow> string \<Rightarrow> json \<Rightarrow> json \<Rightarrow> (llm_model \<times> 'w, string) act" where
  "llm_chat W J input system_msg recent_history params s =
     (case lm_impl (fst s) of
        OpenAi opts p \<Rightarrow> on_pool (OpenAi opts) p (openai_chat W J opts input system_msg recent_history) s
      | AzureOpenAi opts p \<Rightarrow> on_pool (AzureOpenAi opts) p (azure_chat W J opts input system_msg recent_history) s
      | LlamaCpp sub_type \<Rightarrow> (Inr [], s))"

text \<open>\<open>EmbeddingModel\<close>, \<open>OpenAiEmbedding\<close> and their factory.\<close>

record embedding_model =
  em_type :: string
  em_conf :: json
  em_open_ai :: llm_model

definition embedding_create :: "json_text \<Rightarrow> string \<Rightarrow> json \<Rightarrow> embedding_model res" where
  "embedding_create J type conf =
     (if type = ''openai'' then
        bindR (openai_create J conf) (\<lambda>lm. Inr \<lparr>em_type = ''openai'', em_conf = conf, em_open_ai = lm\<rparr>)
      else Inl (Error (''unknown embedding model: '' @ type)))"

definition openai_embedding_embedding :: "'w outside \<Rightarrow> json_text \<Rightarrow> string \<Rightarrow> (embedding_model \<times> 'w, vector) act" where
  "openai_embedding_embedding W J input s =
     (case s of (em, w) \<Rightarrow>
        (case llm_embedding W J input (JObject []) (em_open_ai em, w) of
           (r, (lm, w1)) \<Rightarrow> (r, (em\<lparr>em_open_ai := lm\<rparr>, w1))))"

section \<open>Requests\<close>

lemma role_msg_eq:
  "role_msg role content = Inr (JObject [(''content'', JString content), (''role'', JString role)])"
proof -
  have "(''content'' :: string) < ''role''" "(''content'' :: string) \<noteq> ''role''" by code_simp+
  then show ?thesis by (simp add: role_msg_def)
qed

lemma push_all_array: "push_all (JArray ms) xs = Inr (JArray (ms @ xs))"
  by (induction xs arbitrary: ms) simp_all

lemma push_all_null: "push_all JNull xs = Inr (if xs = [] then JNull else JArray xs)"
  by (cases xs) (simp_all add: push_all_array)

text \<open>The messages of a request: the system message if there is one, the history in order, the input last.\<close>

lemma construct_msg_eq:
  "construct_msg input system_info recent_history =
     Inr (JArray ((if system_info = [] then [] else
         [JObject [(''content'', JString system_info), (''role'', JString ''system'')]])
       @ json_elems recent_history @ [JObject [(''content'', JString input), (''role'', JString ''user'')]]))"
  by (cases "system_info = []"; cases "json_elems recent_history = []")
    (simp_all add: construct_msg_def role_msg_eq push_all_array push_all_null)

lemma openai_options_chat:
  assumes "openai_parse_options J conf = Inr opts"
  shows "\<exists>m. oo_chat opts = JObject m" and "\<exists>m. oo_embedding opts = JObject m"
proof -
  have d: "default_model j model = Inr j' \<Longrightarrow> \<exists>m. j' = JObject m" for j model j'
    by (cases j) (auto simp: default_model_def type_error_def split: option.splits)
  have "\<And>e x. bindR (jdump J conf) (\<lambda>dump. Inl (Error (f e dump))) \<noteq> (Inr x :: openai_opts res)" for f
    by auto
  then have "(\<exists>m. oo_chat opts = JObject m) \<and> (\<exists>m. oo_embedding opts = JObject m)"
    using assms unfolding openai_parse_options_def
    by (intro conjI) (drule catchR_eq_Inr; force dest: d)+
  then show "\<exists>m. oo_chat opts = JObject m" "\<exists>m. oo_embedding opts = JObject m" by simp_all
qed

section \<open>What the models throw\<close>

lemma jref_fails [fails_intros]: "fails is_JsonException (jref j k)"
  by (cases "(j, k)" rule: jref.cases) (auto simp: type_error_fails intro: fails_intros)

lemma std_fails: "fails is_JsonException m \<Longrightarrow> fails is_StdException m"
  by (erule fails_weaken) simp

lemma chat_content_fails: "fails is_StdException (chat_content ans)"
proof -
  have e: "fails is_StdException (Inl (Error m) :: string res)" for m by (simp add: fails_def)
  show ?thesis
    unfolding chat_content_def
    by (intro fails_bindR std_fails [OF jref_fails])
      (auto split: json.split list.split intro!: fails_bindR std_fails [OF jref_fails] e fails_values)
qed

lemma embedding_content_fails: "fails is_StdException (embedding_content ans)"
proof -
  have e: "fails is_StdException (Inl (Error m) :: vector res)" for m by (simp add: fails_def)
  show ?thesis
    unfolding embedding_content_def
    by (intro fails_bindR std_fails [OF jref_fails])
      (auto split: json.split list.split intro!: fails_bindR std_fails [OF jref_fails] std_fails [OF get_vector_fails] e simp del: get_vector.simps)
qed

definition llm_inv :: "llm_model \<Rightarrow> bool" where
  "llm_inv lm = (case lm_impl lm of OpenAi opts p \<Rightarrow> pool_inv p 0 | AzureOpenAi opts p \<Rightarrow> pool_inv p 0 | LlamaCpp s \<Rightarrow> True)"

lemma query_obeys:
  assumes "json_text_ok J"
  shows "obeys is_StdException (\<lambda>(p, w). pool_inv p 0) (openai_query W J path req)"
    and "obeys is_StdException (\<lambda>(p, w). pool_inv p 0) (azure_query W J opts path req)"
proof -
  have d: "jdump J j = Inl e \<Longrightarrow> is_StdException e" for j e
    using assms by (auto simp: json_text_ok_def fails_def)
  have p: "fails is_StdException (jparse J s)" for s
    using assms by (auto simp: json_text_ok_def intro: std_fails)
  show "obeys is_StdException (\<lambda>(p, w). pool_inv p 0) (openai_query W J path req)"
    "obeys is_StdException (\<lambda>(p, w). pool_inv p 0) (azure_query W J opts path req)"
    unfolding openai_query_def azure_query_def by (intro obeys_intros safe_post_obeys d p; assumption)+
qed

lemma request_obeys:
  assumes "json_text_ok J"
  shows "obeys is_Error (\<lambda>(p, w). pool_inv p 0) (openai_predict W J opts input)"
    "obeys is_Error (\<lambda>(p, w). pool_inv p 0) (openai_chat W J opts input sys h)"
    "obeys is_Error (\<lambda>(p, w). pool_inv p 0) (openai_embedding W J opts input)"
    "obeys is_Error (\<lambda>(p, w). pool_inv p 0) (azure_predict W J aopts input)"
    "obeys is_Error (\<lambda>(p, w). pool_inv p 0) (azure_chat W J aopts input sys h)"
    "obeys is_Error (\<lambda>(p, w). pool_inv p 0) (azure_embedding W J aopts input)"
  unfolding openai_predict_def openai_chat_def openai_embedding_def azure_predict_def azure_chat_def azure_embedding_def
  by (rule obeys_catchS [where E = is_StdException];
      (simp; fail | intro obeys_intros query_obeys [OF assms] chat_content_fails embedding_content_fails
        fails_bindR std_fails json_fails; simp add: construct_msg_eq fails_def))+

text \<open>A request keeps the model's type and configuration and its pool whole; what it throws is an \<open>Error\<close>:
  it neither waits for ever nor lets another exception out.\<close>

definition llm_state_ok :: "string \<Rightarrow> json \<Rightarrow> llm_model \<times> 'w \<Rightarrow> bool" where
  "llm_state_ok type conf s \<longleftrightarrow> llm_inv (fst s) \<and> lm_type (fst s) = type \<and> lm_conf (fst s) = conf"

lemma on_pool_case:
  assumes "obeys is_Error (\<lambda>(p, w). pool_inv p 0) m" and "pool_inv p 0"
    and "lm_type (fst s) = type" and "lm_conf (fst s) = conf"
    and "\<And>lm p. lm_impl lm = C p \<Longrightarrow> pool_inv p 0 \<Longrightarrow> llm_inv lm"
    and "on_pool C p m s = (r, s')"
  shows "llm_state_ok type conf s' \<and> (\<forall>e. r = Inl e \<longrightarrow> is_Error e)"
proof -
  obtain lm w where s: "s = (lm, w)" by force
  obtain r1 p1 w1 where m: "m (p, w) = (r1, (p1, w1))" by (metis prod.exhaust)
  have "pool_inv p1 0 \<and> (\<forall>e. r1 = Inl e \<longrightarrow> is_Error e)"
    using obeys_state [OF assms(1), of "(p, w)"] obeys_throws [OF assms(1), of "(p, w)"] assms(2) m by auto
  then show ?thesis using assms(3-6) m by (auto simp: s on_pool_def llm_state_ok_def)
qed

lemma on_pool_obeys:
  assumes m1: "\<And>opts. obeys is_Error (\<lambda>(p, w). pool_inv p 0) (m1 opts)"
    and m2: "\<And>opts. obeys is_Error (\<lambda>(p, w). pool_inv p 0) (m2 opts)"
    and f: "\<And>s. f s = (case lm_impl (fst s) of
        OpenAi opts p \<Rightarrow> on_pool (OpenAi opts) p (m1 opts) s
      | AzureOpenAi opts p \<Rightarrow> on_pool (AzureOpenAi opts) p (m2 opts) s
      | LlamaCpp sub_type \<Rightarrow> (Inr x, s))"
  shows "obeys is_Error (llm_state_ok type conf) f"
proof (rule obeysI)
  fix s r s' assume ok: "llm_state_ok type conf s" and r: "f s = (r, s')"
  have t: "lm_type (fst s) = type" "lm_conf (fst s) = conf" "llm_inv (fst s)" using ok by (simp_all add: llm_state_ok_def)
  show "llm_state_ok type conf s' \<and> (\<forall>e. r = Inl e \<longrightarrow> is_Error e)"
  proof (cases "lm_impl (fst s)")
    case (OpenAi opts p)
    then show ?thesis using r t(3)
      by (intro on_pool_case [OF m1 _ t(1,2), of p "OpenAi opts" opts]) (simp_all add: f llm_inv_def)
  next
    case (AzureOpenAi opts p)
    then show ?thesis using r t(3)
      by (intro on_pool_case [OF m2 _ t(1,2), of p "AzureOpenAi opts" opts]) (simp_all add: f llm_inv_def)
  next
    case (LlamaCpp st)
    then show ?thesis using r ok by (auto simp: f)
  qed
qed

lemma llm_obeys:
  assumes "json_text_ok J"
  shows "obeys is_Error (llm_state_ok type conf) (llm_embedding W J input params)"
    and "obeys is_Error (llm_state_ok type conf) (llm_predict W J input params)"
    and "obeys is_Error (llm_state_ok type conf) (llm_chat W J input sys h params)"
  by (rule on_pool_obeys [OF request_obeys(3,6) [OF assms] llm_embedding_def]
      on_pool_obeys [OF request_obeys(1,4) [OF assms] llm_predict_def]
      on_pool_obeys [OF request_obeys(2,5) [OF assms] llm_chat_def])+

section \<open>Creation\<close>

lemma llm_create_ok:
  "llm_create J type conf = Inr lm \<Longrightarrow> llm_inv lm \<and> lm_type lm = type \<and> lm_conf lm = conf"
  by (auto simp: llm_create_def openai_create_def azure_create_def llama_create_def llm_inv_def
      dest: http_pool_new_inv split: if_splits)

text \<open>What creation throws: an \<open>Error\<close>, unless a number in the configuration is out of range (undefined), or
  the configuration is in error and cannot be written as text for the message.\<close>

definition conf_error :: "exn \<Rightarrow> bool" where
  "conf_error e \<longleftrightarrow> is_Error e \<or> json_or_undefined e"

definition error_or_undefined :: "exn \<Rightarrow> bool" where
  "error_or_undefined e \<longleftrightarrow> is_Error e \<or> e = Undefined"

lemma conf_fails:
  "fails is_JsonException m \<Longrightarrow> fails conf_error m" "fails json_or_undefined m \<Longrightarrow> fails conf_error m"
  "fails error_or_undefined m \<Longrightarrow> fails conf_error m"
  by (auto simp: fails_def conf_error_def json_or_undefined_def error_or_undefined_def)

lemma parse_time_fails: "fails error_or_undefined (parse_time s)"
  unfolding parse_time_def duration_ms_def Let_def
  by (intro fails_bindR fails_pair fails_if fails_catchR [where E = is_StdException] fails_values)
    (auto simp: error_or_undefined_def fails_def stoul_pos_def Let_def split: prod.splits if_splits)

lemma opt_field_fails: "(\<And>v. fails E (get v)) \<Longrightarrow> fails E (opt_field conf k get upd opts)"
  unfolding opt_field_def by (intro fails_intros)

lemma get_time_fails: "fails conf_error (get_time v)"
  unfolding get_time_def by (intro fails_bindR conf_fails(1) json_fails conf_fails(3) parse_time_fails)

lemma http_options_fails:
  "fails conf_error (http_opts_of conf)" "fails conf_error (http_pool_opts_of conf)"
  "fails conf_error (parse_http_options conf)"
proof -
  note f = fails_bindR opt_field_fails get_time_fails conf_fails(1) [OF json_fails(4)] conf_fails(1) [OF json_fails(5)]
    conf_fails(2) [OF get_int_fails(1)] conf_fails(2) [OF get_int_fails(3)]
  show 1: "fails conf_error (http_opts_of conf)" "fails conf_error (http_pool_opts_of conf)" for conf
    unfolding http_opts_of_def http_pool_opts_of_def by (intro f)+
  show "fails conf_error (parse_http_options conf)"
    unfolding parse_http_options_def by (intro fails_intros 1)
qed

lemma get_json_jvalue_fails: "fails conf_error (jvalue get_json j k d)" "fails conf_error (jvalue get_string j k t)"
  by (rule jvalue_fails; auto simp: conf_error_def json_or_undefined_def fails_def dest: get_string_Inl)+

lemma default_model_fails: "fails conf_error (default_model j m)"
  unfolding default_model_def by (intro fails_intros conf_fails(1) json_fails)

lemma openai_parse_options_fails:
  assumes "\<And>e. jdump J conf \<noteq> Inl e"
  shows "fails error_or_undefined (openai_parse_options J conf)"
proof -
  have d: "\<exists>s. jdump J conf = Inr s" using assms by (cases "jdump J conf") auto
  note f = fails_bindR fails_pair fails_values get_json_jvalue_fails default_model_fails http_options_fails
    conf_fails(1) [OF json_fails(1)] conf_fails(1) [OF json_fails(4)]
  show ?thesis
    unfolding openai_parse_options_def
  proof (rule fails_catchR [where E = conf_error])
    show "fails error_or_undefined (bindR (jdump J conf)
        (\<lambda>dump. Inl (Error (''failed to parse openai options: '' @ what e @ '':'' @ dump)) :: openai_opts res))" for e
      using d by (auto simp: fails_def error_or_undefined_def)
    show "conf_error e \<Longrightarrow> \<not> is_JsonException e \<Longrightarrow> error_or_undefined e" for e
      by (auto simp: conf_error_def json_or_undefined_def error_or_undefined_def)
  qed (intro f)
qed

lemma azure_parse_options_fails:
  assumes "\<And>e. jdump J conf \<noteq> Inl e"
  shows "fails error_or_undefined (azure_parse_options J conf)"
proof -
  have d: "\<exists>s. jdump J conf = Inr s" using assms by (cases "jdump J conf") auto
  note f = fails_bindR fails_pair fails_values get_json_jvalue_fails http_options_fails
    conf_fails(1) [OF json_fails(1)] conf_fails(1) [OF json_fails(4)]
  show ?thesis
    unfolding azure_parse_options_def
  proof (rule fails_catchR [where E = conf_error])
    show "fails error_or_undefined (bindR (jdump J conf)
        (\<lambda>dump. Inl (Error (''failed to parse openai options: '' @ what e @ '':'' @ dump)) :: azure_opts res))" for e
      using d by (auto simp: fails_def error_or_undefined_def)
    show "conf_error e \<Longrightarrow> \<not> is_JsonException e \<Longrightarrow> error_or_undefined e" for e
      by (auto simp: conf_error_def json_or_undefined_def error_or_undefined_def)
  qed (intro f)
qed

lemma llm_create_fails:
  assumes "\<And>e. jdump J conf \<noteq> Inl e"
  shows "fails error_or_undefined (llm_create J type conf)"
proof -
  have p: "fails error_or_undefined (http_pool_new o1 o2)" for o1 o2
    by (auto simp: http_pool_new_def fails_def error_or_undefined_def)
  have l: "fails error_or_undefined (llama_create conf)"
    unfolding llama_create_def
    by (intro fails_bindR fails_values fails_catchR [where E = is_JsonException] json_fails)
      (auto simp: error_or_undefined_def fails_def)
  show ?thesis
    unfolding llm_create_def openai_create_def azure_create_def
    by (intro fails_if fails_bindR fails_values p l openai_parse_options_fails azure_parse_options_fails assms)
      (simp add: error_or_undefined_def)
qed

section \<open>Properties\<close>


text \<open>The messages of a chat request: the system message when there is one, then the history in its order, then
  the user's message; \<open>_construct_msg\<close> never fails.\<close>

lemma chat_messages:
  "construct_msg input system_info recent_history =
     Inr (JArray ((if system_info = [] then [] else
         [JObject [(''content'', JString system_info), (''role'', JString ''system'')]])
       @ json_elems recent_history @ [JObject [(''content'', JString input), (''role'', JString ''user'')]]))"
  by (rule construct_msg_eq)

text \<open>The factory of LLM models throws \<open>Error\<close> for every unknown type, missing key, wrong JSON type, bad duration
  and empty pool (or converts a number out of range, which is undefined), when the configuration can be written as text.\<close>

lemma llm_factory_errors:
  assumes "\<And>e. jdump J conf \<noteq> Inl e" and "llm_create J type conf = Inl e"
  shows "is_Error e \<or> e = Undefined"
  using llm_create_fails [OF assms(1), of type] assms(2) by (auto simp: fails_def error_or_undefined_def)

text \<open>A model for examples.\<close>

definition sample_llm :: llm_model where
  "sample_llm = \<lparr>lm_type = ''llamacpp'', lm_conf = JObject [], lm_impl = LlamaCpp ''x''\<rparr>"


end
