(* ===== verification/Application.thy ===== *)
theory Application
  imports Llm_Info Llm_Models
begin

text \<open>
  Applications: \<open>prompt\<close>, the data of \<open>chat_history\<close>, and the classes of \<open>application\<close>,
  \<open>simple_application\<close>, \<open>search_application\<close> and \<open>chat_application\<close> with their constructors and factory.
  Running an application is in \<open>App_Run\<close>.  The template engine \<open>inja\<close> is a parameter.
\<close>

section \<open>Prompts\<close>

text \<open>\<open>Environment::parse\<close> and \<open>Environment::render\<close> of a parsed template, which is named by its text.\<close>

record inja =
  tpl_parse :: "string \<Rightarrow> unit res"
  tpl_render :: "string \<Rightarrow> json \<Rightarrow> string res"

text \<open>The documented behaviour: it throws \<open>inja::InjaError\<close>, a \<open>std::exception\<close>.\<close>

definition inja_ok :: "inja \<Rightarrow> bool" where
  "inja_ok T \<longleftrightarrow> (\<forall>t. fails is_StdException (tpl_parse T t)) \<and> (\<forall>t d. fails is_StdException (tpl_render T t d))"

record prompt =
  pr_raw_tpl :: string
  pr_tpl :: string

text \<open>The constructor does not assign \<open>_raw_tpl\<close>.\<close>

definition prompt_new :: "inja \<Rightarrow> string \<Rightarrow> prompt res" where
  "prompt_new T tpl = bindR (tpl_parse T tpl) (\<lambda>_. Inr \<lparr>pr_raw_tpl = [], pr_tpl = tpl\<rparr>)"

definition prompt_render :: "inja \<Rightarrow> prompt \<Rightarrow> json \<Rightarrow> string res" where
  "prompt_render T p data =
     catchR is_StdException (tpl_render T (pr_tpl p) data) (\<lambda>e. Inl (Error (''failed to render prompt: '' @ what e)))"

definition prompt_dump :: "prompt \<Rightarrow> string" where
  "prompt_dump p = pr_raw_tpl p"

abbreviation nl :: string where
  "nl \<equiv> [CHR 0x0A]"

section \<open>Chat history: options and messages\<close>

record chat_opts =
  co_summary_cnt :: u32
  co_summary_ctx_cnt :: u32
  co_summary_prompt :: string
  co_msg_ctx_cnt :: u32
  co_ai_role :: string
  co_llm :: llm_info
  co_store_type :: string
  co_store_params :: json

definition summary_prompt_default :: string where \<open>summary_prompt_default =
  ''Give a concise and comprehensive summary of the given conversation (in JSON format). The summary should capture the main points and supporting details.''
  @ nl @ ''Conversation: """'' @ nl @ ''{{conversation}}'' @ nl @ ''"""'' @ nl @ ''Summary: ''\<close>

definition chat_opts_default :: chat_opts where
  "chat_opts_default = \<lparr>co_summary_cnt = 20, co_summary_ctx_cnt = 1, co_summary_prompt = summary_prompt_default,
     co_msg_ctx_cnt = 10, co_ai_role = ''assistant'', co_llm = llm_info_default, co_store_type = ''hnsw'',
     co_store_params = JObject []\<rparr>"

text \<open>\<open>ChatHistoryOptions(conf)\<close>; \<open>store_params\<close> is read as a string.\<close>

definition chat_opts_of :: "json \<Rightarrow> chat_opts res" where
  "chat_opts_of conf =
     (if conf = JNull then Inr chat_opts_default
      else
        bindR (opt_field conf ''summary_cnt'' get_u32 (\<lambda>x. co_summary_cnt_update (\<lambda>_. x)) chat_opts_default) (\<lambda>o1.
        bindR (opt_field conf ''summary_ctx_cnt'' get_u32 (\<lambda>x. co_summary_ctx_cnt_update (\<lambda>_. x)) o1) (\<lambda>o2.
        bindR (opt_field conf ''summary_prompt'' get_string (\<lambda>x. co_summary_prompt_update (\<lambda>_. x)) o2) (\<lambda>o3.
        bindR (opt_field conf ''msg_ctx_cnt'' get_u32 (\<lambda>x. co_msg_ctx_cnt_update (\<lambda>_. x)) o3) (\<lambda>o4.
        bindR (opt_field conf ''store_type'' get_string (\<lambda>x. co_store_type_update (\<lambda>_. x)) o4) (\<lambda>o5.
        opt_field conf ''store_params'' get_string (\<lambda>x. co_store_params_update (\<lambda>_. JString x)) o5))))))"

type_synonym msg = "string \<times> string"

record chat_history =
  ch_opts :: chat_opts
  ch_summary_prompt :: prompt
  ch_to_summarize :: "msg list"
  ch_latest :: "msg list"

definition chat_history_new :: "inja \<Rightarrow> chat_opts \<Rightarrow> chat_history res" where
  "chat_history_new T opts =
     bindR (prompt_new T (co_summary_prompt opts)) (\<lambda>p.
       Inr \<lparr>ch_opts = opts, ch_summary_prompt = p, ch_to_summarize = [], ch_latest = []\<rparr>)"

text \<open>The loop of \<open>_get_latest_msgs\<close> and of \<open>_summarize\<close>: messages as a JSON array, null when there is none.\<close>

definition msgs_json :: "msg list \<Rightarrow> json res" where
  "msgs_json ms = foldl (\<lambda>acc (role, content). bindR acc (\<lambda>j. bindR (role_msg role content) (jpush_back j))) (Inr JNull) ms"

text \<open>\<open>while (_latest_msgs.size() > cnt) _latest_msgs.pop_front();\<close>\<close>

fun pop_front_until :: "nat \<Rightarrow> 'a list \<Rightarrow> 'a list" where
  "pop_front_until n [] = []"
| "pop_front_until n (x # xs) = (if n < length (x # xs) then pop_front_until n xs else x # xs)"

definition push_latest :: "msg \<Rightarrow> chat_history \<Rightarrow> chat_history" where
  "push_latest m h = h\<lparr>ch_latest := pop_front_until (unat (co_msg_ctx_cnt (ch_opts h))) (ch_latest h @ [m])\<rparr>"

section \<open>Applications\<close>

text \<open>The members of the derived classes.\<close>

datatype app_impl =
    SimpleApplication prompt
  | SearchApplication prompt string u64
  | ChatApplication prompt chat_history string

record application =
  ap_type :: string
  ap_llm :: llm_info
  ap_conf :: json
  ap_impl :: app_impl

definition search_prompt_default :: string where \<open>search_prompt_default =
  ''Please answer the following question based on the given context.'' @ nl @ ''Context: """'' @ nl @ ''{{context}}''
  @ nl @ ''"""'' @ nl @ ''Question: """'' @ nl @ ''{{question}}'' @ nl @ ''"""'' @ nl @ ''Answer: ''\<close>

definition chat_prompt_default :: string where \<open>chat_prompt_default =
  ''You are a friendly chatbot. The following is a summary of parts of your chat history with user: """'' @ nl
  @ ''{{history}}'' @ nl @ ''"""''\<close>

text \<open>The constructors; they catch nothing.\<close>

definition simple_app_create :: "inja \<Rightarrow> llm_info \<Rightarrow> json \<Rightarrow> application res" where
  "simple_app_create T llm conf =
     bindR (bindR (jvalue get_string conf ''prompt'' []) (prompt_new T)) (\<lambda>p.
       Inr \<lparr>ap_type = ''app'', ap_llm = llm, ap_conf = conf, ap_impl = SimpleApplication p\<rparr>)"

definition search_app_create :: "inja \<Rightarrow> llm_info \<Rightarrow> json \<Rightarrow> application res" where
  "search_app_create T llm conf =
     bindR (bindR (jvalue get_string conf ''prompt'' search_prompt_default) (prompt_new T)) (\<lambda>p.
     bindR (bindR (jat conf ''vector-store'') get_string) (\<lambda>vector_store.
     bindR (bindR (jat conf ''k'') get_u64) (\<lambda>k.
       Inr \<lparr>ap_type = ''search'', ap_llm = llm, ap_conf = conf, ap_impl = SearchApplication p vector_store k\<rparr>)))"

definition create_chat_history :: "inja \<Rightarrow> llm_info \<Rightarrow> json \<Rightarrow> chat_history res" where
  "create_chat_history T llm conf =
     bindR (chat_opts_of conf) (\<lambda>opts. chat_history_new T (opts\<lparr>co_llm := llm\<rparr>))"

definition chat_app_create :: "inja \<Rightarrow> llm_info \<Rightarrow> json \<Rightarrow> application res" where
  "chat_app_create T llm conf =
     bindR (bindR (jvalue get_string conf ''prompt'' chat_prompt_default) (prompt_new T)) (\<lambda>p.
     bindR (bindR (jvalue get_json conf ''history'' JNull) (create_chat_history T llm)) (\<lambda>history.
     bindR (bindR (jat conf ''vector-store'') get_string) (\<lambda>vector_store.
       Inr \<lparr>ap_type = ''chat'', ap_llm = llm, ap_conf = conf, ap_impl = ChatApplication p history vector_store\<rparr>)))"

text \<open>\<open>ApplicationFactory::create\<close>.\<close>

definition app_create :: "inja \<Rightarrow> string \<Rightarrow> llm_info \<Rightarrow> json \<Rightarrow> application res" where
  "app_create T type llm conf =
     (if type = ''app'' then simple_app_create T llm conf
      else if type = ''search'' then search_app_create T llm conf
      else if type = ''chat'' then chat_app_create T llm conf
      else Inl (Error (''unknown application model: '' @ type)))"

section \<open>Properties\<close>

lemma prompt_new_dump: "prompt_new T tpl = Inr p \<Longrightarrow> prompt_dump p = []"
  by (auto simp: prompt_new_def prompt_dump_def)

lemma prompt_render_fails: "inja_ok T \<Longrightarrow> fails is_Error (prompt_render T p d)"
  unfolding prompt_render_def inja_ok_def
  by (intro fails_catchR [where E = is_StdException]) (auto simp: fails_def)

lemma msgs_json_eq:
  "msgs_json ms = Inr (if ms = [] then JNull
     else JArray (map (\<lambda>(role, content). JObject [(''content'', JString content), (''role'', JString role)]) ms))"
proof (induction ms rule: rev_induct)
  case Nil
  then show ?case by (simp add: msgs_json_def)
next
  case (snoc m ms)
  have "msgs_json (ms @ [m]) = bindR (msgs_json ms) (\<lambda>j. bindR (role_msg (fst m) (snd m)) (jpush_back j))"
    by (simp add: msgs_json_def case_prod_unfold)
  then show ?case using snoc by (cases m) (simp add: role_msg_eq)
qed

text \<open>The latest messages are the last \<open>msg_ctx_cnt\<close> ones.\<close>

lemma pop_front_until_eq: "pop_front_until n xs = drop (length xs - n) xs"
  by (induction n xs rule: pop_front_until.induct) (auto simp: Suc_diff_le)

lemma push_latest_eq:
  "ch_latest (push_latest m h) =
     (let ms = ch_latest h @ [m] in drop (length ms - unat (co_msg_ctx_cnt (ch_opts h))) ms)"
  by (simp add: push_latest_def pop_front_until_eq Let_def)

lemma push_latest_bound: "length (ch_latest (push_latest m h)) \<le> unat (co_msg_ctx_cnt (ch_opts h))"
  by (simp add: push_latest_eq Let_def)

lemma app_create_ok:
  "app_create T type llm conf = Inr app \<Longrightarrow> ap_type app = type \<and> ap_llm app = llm \<and> ap_conf app = conf"
  by (auto simp: app_create_def simple_app_create_def search_app_create_def chat_app_create_def split: if_splits)

text \<open>A simple application whose configuration is not an object cannot be created, and what is thrown is
  a \<open>json::exception\<close>, not an \<open>Error\<close>.\<close>

lemma app_create_not_object:
  assumes "\<And>m. conf \<noteq> JObject m" and "type \<in> {''app'', ''search'', ''chat''}"
  shows "\<exists>e. app_create T type llm conf = Inl e \<and> is_JsonException e \<and> \<not> is_Error e"
  using assms
  by (cases conf) (auto simp: app_create_def simple_app_create_def search_app_create_def chat_app_create_def type_error_def)

text \<open>A template engine for examples: an opening brace without a closing one does not parse, the rendered text is the template.\<close>

definition sample_inja :: inja where
  "sample_inja = \<lparr>tpl_parse = (\<lambda>t. if t = ''{{'' then Inl (StdException ''[inja.exception.parser_error]'') else Inr ()),
                  tpl_render = (\<lambda>t d. Inr t)\<rparr>"

lemma push_latest_opts [simp]: "ch_opts (push_latest m h) = ch_opts h"
  by (simp add: push_latest_def)

lemma fold_push_latest_opts [simp]: "ch_opts (fold push_latest ms h) = ch_opts h"
  by (induction ms arbitrary: h) simp_all

lemma fold_push_latest:
  assumes "length (ch_latest h) \<le> unat (co_msg_ctx_cnt (ch_opts h))"
  shows "ch_latest (fold push_latest ms h) =
    drop (length (ch_latest h @ ms) - unat (co_msg_ctx_cnt (ch_opts h))) (ch_latest h @ ms)"
  using assms
proof (induction ms rule: rev_induct)
  case Nil
  then show ?case by simp
next
  case (snoc m ms)
  let ?n = "unat (co_msg_ctx_cnt (ch_opts h))" and ?xs = "ch_latest h @ ms"
  have "ch_latest (fold push_latest (ms @ [m]) h) = (let ys = drop (length ?xs - ?n) ?xs @ [m] in drop (length ys - ?n) ys)"
    using snoc by (simp add: push_latest_eq)
  also have "\<dots> = drop (length (?xs @ [m]) - ?n) (?xs @ [m])"
  proof -
    have "drop (length ?xs - ?n) ?xs @ [m] = drop (length ?xs - ?n) (?xs @ [m])" by simp
    moreover have "length (drop (length ?xs - ?n) (?xs @ [m])) - ?n + (length ?xs - ?n) = length (?xs @ [m]) - ?n"
      by (simp only: length_drop length_append list.size)
    ultimately show ?thesis by (simp only: Let_def drop_drop)
  qed
  finally show ?case by simp
qed



text \<open>The factory of applications keeps what it is given: the type, LLM and configuration that persistence writes
  are those of the command; and a configuration that is not an object makes every constructor throw a
  \<open>json::exception\<close>, which no handler of the commands takes.\<close>

lemma application_factory:
  "(app_create T type llm conf = Inr a \<longrightarrow> ap_type a = type \<and> ap_llm a = llm \<and> ap_conf a = conf \<and> (\<exists>m. conf = JObject m)) \<and>
   (type \<in> {''app'', ''search'', ''chat''} \<and> (\<nexists>m. conf = JObject m) \<longrightarrow>
     (\<exists>e. app_create T type llm conf = Inl e \<and> is_JsonException e))"
proof (intro conjI impI)
  assume c: "app_create T type llm conf = Inr a"
  then have "type \<in> {''app'', ''search'', ''chat''}" by (auto simp: app_create_def split: if_splits)
  then show "\<exists>m. conf = JObject m" using app_create_not_object [of conf type T llm] c by auto
qed (use app_create_ok app_create_not_object in \<open>blast+\<close>)

end
