(* ===== verification/Worker_Pool.thy ===== *)
theory Worker_Pool
  imports Cxx_Std
begin

text \<open>
  \<open>worker_pool.h\<close> and \<open>worker_pool.cpp\<close>: a bounded queue of tasks and the threads that run them.  The
  mutex makes each critical section one step; the steps of the threads and of the client interleave
  in any order.  \<open>wp_accepted\<close> and \<open>wp_started\<close> are history: the tasks that \<open>enqueue\<close> took and the tasks
  that a worker began, in the order in which this happened.
\<close>

record worker_pool_opts =
  wo_pool_size :: u64
  wo_queue_size :: u64

definition worker_pool_opts_default :: worker_pool_opts where
  "worker_pool_opts_default = \<lparr>wo_pool_size = 10, wo_queue_size = 1000\<rparr>"

text \<open>\<open>wp_idle\<close> workers are in the loop without a task, \<open>wp_running\<close> are the tasks under way and
  \<open>wp_exited\<close> workers have left the loop.\<close>

record 't worker_pool =
  wp_opts :: worker_pool_opts
  wp_tasks :: "'t list"
  wp_quit :: bool
  wp_idle :: nat
  wp_running :: "'t list"
  wp_exited :: nat
  wp_accepted :: "'t list"
  wp_started :: "'t list"

text \<open>The constructor starts the workers: the counter \<open>idx\<close> of its loop is an \<open>unsigned\<close>, compared with a
  \<open>size_t\<close>; for \<open>pool_size < 2 ^ 32\<close> the loop ends.\<close>

definition worker_pool_new :: "worker_pool_opts \<Rightarrow> 't worker_pool" where
  "worker_pool_new opts =
     \<lparr>wp_opts = opts, wp_tasks = [], wp_quit = False, wp_idle = unat (wo_pool_size opts), wp_running = [],
      wp_exited = 0, wp_accepted = [], wp_started = []\<rparr>"

definition wp_enqueue :: "'t \<Rightarrow> ('t worker_pool, unit) act" where
  "wp_enqueue t p =
     (if length (wp_tasks p) = unat (wo_queue_size (wp_opts p)) then (Inl (Error ''worker queue is full''), p)
      else (Inr (), p\<lparr>wp_tasks := wp_tasks p @ [t], wp_accepted := wp_accepted p @ [t]\<rparr>))"

text \<open>One pass of \<open>_run\<close> through the critical section: wait for \<open>_quit\<close> or a task; with an empty queue leave
  the loop, otherwise take the first task.\<close>

definition wp_take :: "'t worker_pool \<Rightarrow> 't worker_pool option" where
  "wp_take p =
     (if wp_idle p = 0 \<or> \<not> (wp_quit p \<or> wp_tasks p \<noteq> []) then None
      else case wp_tasks p of
        [] \<Rightarrow> Some (p\<lparr>wp_idle := wp_idle p - 1, wp_exited := wp_exited p + 1\<rparr>)
      | t # ts \<Rightarrow> Some (p\<lparr>wp_idle := wp_idle p - 1, wp_tasks := ts, wp_running := wp_running p @ [t],
                          wp_started := wp_started p @ [t]\<rparr>))"

text \<open>\<open>task()\<close> returns; a \<open>packaged_task\<close> keeps every exception, so the worker goes on in any case.\<close>

definition wp_finish :: "nat \<Rightarrow> 't worker_pool \<Rightarrow> 't worker_pool" where
  "wp_finish i p = p\<lparr>wp_running := take i (wp_running p) @ drop (Suc i) (wp_running p), wp_idle := wp_idle p + 1\<rparr>"

definition wp_stop :: "'t worker_pool \<Rightarrow> 't worker_pool" where
  "wp_stop p = p\<lparr>wp_quit := True\<rparr>"

section \<open>Runs\<close>

datatype 't wp_event = Enqueue 't | Worker | Finish nat | Stop

inductive wp_step :: "'t worker_pool \<Rightarrow> 't wp_event \<Rightarrow> 't worker_pool \<Rightarrow> bool" where
  enqueue: "wp_enqueue t p = (r, p') \<Longrightarrow> wp_step p (Enqueue t) p'"
| worker: "wp_take p = Some p' \<Longrightarrow> wp_step p Worker p'"
| finish: "i < length (wp_running p) \<Longrightarrow> wp_step p (Finish i) (wp_finish i p)"
| stop: "wp_step p Stop (wp_stop p)"

inductive_cases wp_stepE: "wp_step p e p'"

inductive wp_run :: "'t worker_pool \<Rightarrow> 't wp_event list \<Rightarrow> 't worker_pool \<Rightarrow> bool" where
  none: "wp_run p [] p"
| more: "wp_run p es p1 \<Longrightarrow> wp_step p1 e p2 \<Longrightarrow> wp_run p (es @ [e]) p2"

code_pred wp_step .

text \<open>Nothing is lost or run twice, the order is that of the queue, the bounds hold, no worker vanishes.\<close>

definition wp_inv :: "'t worker_pool \<Rightarrow> bool" where
  "wp_inv p \<longleftrightarrow>
     wp_started p @ wp_tasks p = wp_accepted p \<and>
     length (wp_tasks p) \<le> unat (wo_queue_size (wp_opts p)) \<and>
     wp_idle p + length (wp_running p) + wp_exited p = unat (wo_pool_size (wp_opts p)) \<and>
     (0 < wp_exited p \<longrightarrow> wp_quit p)"

lemma worker_pool_new_inv: "wp_inv (worker_pool_new opts)"
  by (simp add: wp_inv_def worker_pool_new_def)

lemma wp_step_inv: "wp_step p e p' \<Longrightarrow> wp_inv p \<Longrightarrow> wp_inv p' \<and> wp_opts p' = wp_opts p"
  by (erule wp_stepE)
    (auto simp: wp_inv_def wp_enqueue_def wp_take_def wp_finish_def wp_stop_def split: if_splits list.splits)

lemma wp_run_inv: "wp_run p es p' \<Longrightarrow> wp_inv p \<Longrightarrow> wp_inv p' \<and> wp_opts p' = wp_opts p"
  by (induction rule: wp_run.induct) (auto dest: wp_step_inv)

text \<open>\<open>enqueue\<close> refuses a task exactly when the queue holds \<open>queue_size\<close> tasks.\<close>

lemma wp_enqueue_refuses:
  "wp_inv p \<Longrightarrow> (\<exists>e p'. wp_enqueue t p = (Inl e, p')) \<longleftrightarrow> unat (wo_queue_size (wp_opts p)) \<le> length (wp_tasks p)"
  by (auto simp: wp_enqueue_def wp_inv_def)

text \<open>A queued task can always be taken unless every worker runs a task or has left.\<close>

lemma wp_take_enabled: "wp_tasks p \<noteq> [] \<Longrightarrow> 0 < wp_idle p \<Longrightarrow> \<exists>p'. wp_step p Worker p' \<and> wp_started p' = wp_started p @ [hd (wp_tasks p)]"
  by (cases "wp_tasks p") (auto simp: wp_take_def intro!: exI worker)

section \<open>The destructor\<close>

fun no_enqueue :: "'t wp_event \<Rightarrow> bool" where
  "no_enqueue (Enqueue t) = False"
| "no_enqueue _ = True"

lemma wp_step_drain:
  "wp_step p e p' \<Longrightarrow> no_enqueue e \<Longrightarrow> (0 < wp_exited p \<longrightarrow> wp_tasks p = []) \<Longrightarrow>
     (0 < wp_exited p' \<longrightarrow> wp_tasks p' = []) \<and> wp_accepted p' = wp_accepted p"
  by (erule wp_stepE)
    (auto simp: wp_take_def wp_finish_def wp_stop_def split: if_splits list.splits)

lemma wp_run_drain:
  "wp_run p es p' \<Longrightarrow> list_all no_enqueue es \<Longrightarrow> wp_exited p = 0 \<Longrightarrow>
     (0 < wp_exited p' \<longrightarrow> wp_tasks p' = []) \<and> wp_accepted p' = wp_accepted p"
  by (induction rule: wp_run.induct) (auto dest: wp_step_drain)

text \<open>When every worker has been joined, every task that was accepted has been run to its end.\<close>

lemma wp_joined:
  assumes "wp_run (worker_pool_new opts) es p" and "\<not> wp_quit p"
    and "wp_run (wp_stop p) fs p'" and "list_all no_enqueue fs"
    and "wp_exited p' = unat (wo_pool_size opts)" and "wo_pool_size opts \<noteq> 0"
  shows "wp_started p' = wp_accepted p" and "wp_running p' = []"
proof -
  have p: "wp_inv p" "wp_opts p = opts"
    using wp_run_inv [OF assms(1) worker_pool_new_inv] by (simp_all add: worker_pool_new_def)
  then have ex: "wp_exited p = 0" using assms(2) by (auto simp: wp_inv_def)
  have "wp_inv (wp_stop p)" using p(1) by (simp add: wp_inv_def wp_stop_def)
  then have p': "wp_inv p'" "wp_opts p' = opts"
    using wp_run_inv [OF assms(3)] p(2) by (simp_all add: wp_stop_def)
  have pos: "0 < wp_exited p'" using assms(5,6) by (simp add: unat_gt_0)
  have d: "wp_tasks p' = []" "wp_accepted p' = wp_accepted p"
    using wp_run_drain [OF assms(3,4)] ex pos by (simp_all add: wp_stop_def)
  show "wp_started p' = wp_accepted p" using p'(1) d by (simp add: wp_inv_def)
  show "wp_running p' = []" using p' assms(5) by (simp add: wp_inv_def)
qed

text \<open>A pool without workers accepts tasks and runs none.\<close>

lemma wp_no_workers:
  "wp_run p es p' \<Longrightarrow> wp_inv p \<Longrightarrow> wo_pool_size (wp_opts p) = 0 \<Longrightarrow> wp_started p' = wp_started p"
proof (induction rule: wp_run.induct)
  case (more p es p1 e p2)
  then have "wp_inv p1" "wp_opts p1 = wp_opts p" using wp_run_inv by blast+
  then have "wp_idle p1 = 0" using more.prems by (simp add: wp_inv_def)
  then have "wp_started p2 = wp_started p1"
    using more.hyps(2) by (auto elim!: wp_stepE simp: wp_enqueue_def wp_take_def wp_finish_def wp_stop_def split: if_splits)
  with more show ?case by simp
qed simp

section \<open>Executing a run\<close>

fun wp_exec :: "'t wp_event \<Rightarrow> 't worker_pool \<Rightarrow> 't worker_pool option" where
  "wp_exec (Enqueue t) p = Some (snd (wp_enqueue t p))"
| "wp_exec Worker p = wp_take p"
| "wp_exec (Finish i) p = (if i < length (wp_running p) then Some (wp_finish i p) else None)"
| "wp_exec Stop p = Some (wp_stop p)"

lemma wp_step_iff: "wp_step p e p' \<longleftrightarrow> wp_exec e p = Some p'"
proof
  show "wp_step p e p' \<Longrightarrow> wp_exec e p = Some p'" by (auto elim!: wp_stepE)
  show "wp_exec e p = Some p' \<Longrightarrow> wp_step p e p'"
    by (cases e) (auto split: if_splits intro: wp_step.intros prod.collapse [symmetric])
qed

fun wp_exec_all :: "'t wp_event list \<Rightarrow> 't worker_pool \<Rightarrow> 't worker_pool option" where
  "wp_exec_all [] p = Some p"
| "wp_exec_all (e # es) p = Option.bind (wp_exec e p) (wp_exec_all es)"

lemma wp_run_Cons: "wp_run p1 es p2 \<Longrightarrow> wp_step p e p1 \<Longrightarrow> wp_run p (e # es) p2"
proof (induction rule: wp_run.induct)
  case (none p)
  then show ?case using wp_run.more [OF wp_run.none] by fastforce
next
  case (more p es p1 e' p2)
  then show ?case using wp_run.more [of _ "e # es" p1 e' p2] by simp
qed

lemma wp_exec_all_run: "wp_exec_all es p = Some p' \<Longrightarrow> wp_run p es p'"
  by (induction es arbitrary: p) (auto simp: bind_eq_Some_conv wp_step_iff [symmetric] intro: wp_run.none wp_run_Cons)

lemmas wp_exec_simps = worker_pool_new_def wp_enqueue_def wp_take_def wp_finish_def wp_stop_def

section \<open>Properties\<close>

text \<open>C21. In every interleaving of producers, workers and the destructor, tasks are begun in the order in which
  \<open>enqueue\<close> accepted them, none is lost and none is begun twice; the queue never exceeds \<open>queue_size\<close>; every
  worker is idle, running one task, or has left; a worker leaves only after \<open>_stop\<close>; and \<open>enqueue\<close> refuses a
  task exactly when the queue holds \<open>queue_size\<close> tasks.\<close>

theorem worker_pool_safe:
  assumes "wp_run (worker_pool_new opts) es p"
  shows "wp_started p @ wp_tasks p = wp_accepted p \<and> length (wp_tasks p) \<le> unat (wo_queue_size opts) \<and>
    wp_idle p + length (wp_running p) + wp_exited p = unat (wo_pool_size opts) \<and> (0 < wp_exited p \<longrightarrow> wp_quit p) \<and>
    ((\<exists>e p'. wp_enqueue t p = (Inl e, p')) \<longleftrightarrow> length (wp_tasks p) = unat (wo_queue_size opts))"
proof -
  have "wp_inv p" "wp_opts p = opts"
    using wp_run_inv [OF assms worker_pool_new_inv] by (simp_all add: worker_pool_new_def)
  then show ?thesis using wp_enqueue_refuses [of p t] by (auto simp: wp_inv_def)
qed

theorem worker_pool_safe_witness:
  "\<exists>p. wp_exec_all [Enqueue (1 :: nat), Worker, Enqueue 2, Enqueue 3, Finish 0]
      (worker_pool_new \<lparr>wo_pool_size = 1, wo_queue_size = 1\<rparr>) = Some p \<and>
    wp_accepted p = [1, 2] \<and> wp_started p @ wp_tasks p = wp_accepted p \<and> wp_idle p = 1"
proof -
  let ?es = "[Enqueue (1 :: nat), Worker, Enqueue 2, Enqueue 3, Finish 0]" and ?o = "\<lparr>wo_pool_size = 1, wo_queue_size = 1\<rparr>"
  obtain p where p: "wp_exec_all ?es (worker_pool_new ?o) = Some p" "wp_accepted p = [1, 2]" "wp_idle p = 1"
    by (simp add: wp_exec_simps)
  then show ?thesis using worker_pool_safe [OF wp_exec_all_run [OF p(1)], of 0] by blast
qed

text \<open>C34. The destructor waits for the queue: when every worker has been joined, every accepted task has been
  run to its end (with at least one worker, and no task added during the destruction).\<close>

theorem destructor_drains:
  assumes "wp_run (worker_pool_new opts) es p" and "\<not> wp_quit p"
    and "wp_run (wp_stop p) fs p'" and "list_all no_enqueue fs"
    and "wp_exited p' = unat (wo_pool_size opts)" and "wo_pool_size opts \<noteq> 0"
  shows "wp_started p' = wp_accepted p \<and> wp_tasks p' = [] \<and> wp_running p' = []"
proof -
  note j = wp_joined [OF assms]
  have inv: "wp_inv p" using wp_run_inv [OF assms(1) worker_pool_new_inv] by simp
  then have "wp_inv (wp_stop p)" by (simp add: wp_inv_def wp_stop_def)
  then have "wp_inv p'" using wp_run_inv [OF assms(3)] by simp
  moreover have "wp_accepted p' = wp_accepted p"
    using wp_run_drain [OF assms(3,4)] inv assms(2) by (auto simp: wp_inv_def wp_stop_def)
  ultimately show ?thesis using j by (simp add: wp_inv_def)
qed

theorem destructor_drains_witness:
  "\<exists>p p'. wp_exec_all [Enqueue (1 :: nat)] (worker_pool_new \<lparr>wo_pool_size = 1, wo_queue_size = 1\<rparr>) = Some p \<and>
     wp_exec_all [Worker, Finish 0, Worker] (wp_stop p) = Some p' \<and> wp_started p' = [1] \<and> wp_running p' = []"
proof -
  let ?o = "\<lparr>wo_pool_size = 1, wo_queue_size = 1\<rparr>"
  obtain p where p: "wp_exec_all [Enqueue (1 :: nat)] (worker_pool_new ?o) = Some p" by (simp add: wp_exec_simps)
  moreover from p obtain p' where p': "wp_exec_all [Worker, Finish 0, Worker] (wp_stop p) = Some p'"
    and "wp_exited p' = unat (wo_pool_size ?o)" and "\<not> wp_quit p" and "wp_accepted p = [1]"
    by (auto simp: wp_exec_simps)
  ultimately show ?thesis
    using destructor_drains [OF wp_exec_all_run [OF p] _ wp_exec_all_run [OF p']] by auto
qed

text \<open>With \<open>--POOL_SIZE 0\<close>, which the options accept, tasks are accepted and never begun: the clients that wait
  for them are never answered by a worker.\<close>

lemma empty_pool_starves:
  assumes "wp_run (worker_pool_new opts) es p" and "wo_pool_size opts = 0"
  shows "wp_started p = [] \<and> wp_running p = [] \<and> wp_tasks p = wp_accepted p"
proof -
  have "wp_inv p" "wp_opts p = opts"
    using wp_run_inv [OF assms(1) worker_pool_new_inv] by (simp_all add: worker_pool_new_def)
  moreover have "wp_started p = []"
    using wp_no_workers [OF assms(1) worker_pool_new_inv] assms(2) by (simp add: worker_pool_new_def)
  ultimately show ?thesis using assms(2) by (auto simp: wp_inv_def)
qed

end
