(* ===== verification/Command_Args.thy ===== *)
theory Command_Args
  imports Llm_Info Http_Client Worker_Pool
begin

text \<open>
  The arguments of the commands: the structures \<open>Args\<close> of the command classes and their \<open>_parse_args\<close>,
  and the module options of \<open>options.cpp\<close>.  \<open>argv\<close> is the list of arguments with the command's name first.
\<close>

section \<open>The loop over the options\<close>

text \<open>
  \<open>step args opt rest\<close> looks at one argument: \<open>None\<close> ends the loop (the \<open>break\<close>), otherwise the new
  \<open>args\<close> and how many of the arguments that follow it has used.
\<close>

fun parse_loop ::
    "('a \<Rightarrow> string \<Rightarrow> string list \<Rightarrow> ('a \<times> nat) option res) \<Rightarrow> 'a \<Rightarrow> string list \<Rightarrow> ('a \<times> string list) res" where
  "parse_loop step args [] = Inr (args, [])"
| "parse_loop step args (opt # rest) =
     bindR (step args opt rest) (\<lambda>r.
       case r of None \<Rightarrow> Inr (args, opt # rest)
       | Some (args', n) \<Rightarrow> parse_loop step args' (drop n rest))"

text \<open>An option with a value: \<open>if (idx + 1 >= argc) throw Error("syntax error"); ++idx; ...\<close>\<close>

definition opt_value :: "string list \<Rightarrow> (string \<Rightarrow> 'a res) \<Rightarrow> ('a \<times> nat) option res" where
  "opt_value rest f =
     (case rest of [] \<Rightarrow> Inl (Error ''syntax error'') | v # _ \<Rightarrow> bindR (f v) (\<lambda>a. Inr (Some (a, 1))))"

definition opt_flag :: "'a \<Rightarrow> ('a \<times> nat) option res" where
  "opt_flag a = Inr (Some (a, 0))"

definition stoul_or :: "(string \<Rightarrow> string) \<Rightarrow> string \<Rightarrow> u64 res" where
  "stoul_or msg v = catchR is_StdException (stoul v) (\<lambda>e. Inl (Error (msg (what e))))"

text \<open>\<open>util::to_json\<close>, and \<open>std::chrono::milliseconds(std::stoul(...))\<close>: a signed 64-bit count.\<close>

definition to_json :: "json_text \<Rightarrow> string \<Rightarrow> json res" where
  "to_json J v = catchR is_JsonException (jparse J v) (\<lambda>e. Inl (Error (''failed to parse json: '' @ what e)))"

definition timeout_arg :: "string \<Rightarrow> int res" where
  "timeout_arg v = bindR (stoul_or (\<lambda>w. ''timeout should be a number: '' @ w) v) (\<lambda>n. Inr (sint n))"

section \<open>LLM.ADD\<close>

record add_args =
  aa_key :: string
  aa_id :: "u64 option"
  aa_data :: string
  aa_embedding :: vector
  aa_timeout :: int

definition add_opt :: "add_args \<Rightarrow> string \<Rightarrow> string list \<Rightarrow> (add_args \<times> nat) option res" where
  "add_opt args opt rest =
     (if str_case_equal opt ''--ID'' then
        opt_value rest (\<lambda>v. bindR (stoul_or (\<lambda>_. ''invalid id'') v) (\<lambda>i. Inr (args\<lparr>aa_id := Some i\<rparr>)))
      else if str_case_equal opt ''--EMBEDDING'' then
        opt_value rest (\<lambda>v. bindR (parse_embedding v) (\<lambda>e. Inr (args\<lparr>aa_embedding := e\<rparr>)))
      else if str_case_equal opt ''--TIMEOUT'' then
        opt_value rest (\<lambda>v. bindR (timeout_arg v) (\<lambda>t. Inr (args\<lparr>aa_timeout := t\<rparr>)))
      else Inr None)"

definition add_parse_args :: "string list \<Rightarrow> add_args res" where
  "add_parse_args argv =
     (if length argv < 3 then Inl WrongArityError
      else bindR (parse_loop add_opt
          \<lparr>aa_key = argv ! 1, aa_id = None, aa_data = [], aa_embedding = [], aa_timeout = 0\<rparr> (drop 2 argv))
        (\<lambda>(args, rest). case rest of [data] \<Rightarrow> Inr (args\<lparr>aa_data := data\<rparr>) | _ \<Rightarrow> Inl WrongArityError))"

section \<open>LLM.REM, LLM.GET and LLM.SIZE\<close>

record id_args =
  ia_key :: string
  ia_id :: u64

definition id_parse_args :: "string list \<Rightarrow> id_args res" where
  "id_parse_args argv =
     (if length argv \<noteq> 3 then Inl WrongArityError
      else bindR (stoul_or (\<lambda>_. ''invalid id'') (argv ! 2)) (\<lambda>i. Inr \<lparr>ia_key = argv ! 1, ia_id = i\<rparr>))"

definition size_parse_args :: "string list \<Rightarrow> string res" where
  "size_parse_args argv = (if length argv \<noteq> 2 then Inl WrongArityError else Inr (argv ! 1))"

section \<open>LLM.KNN\<close>

record knn_args =
  ka_key :: string
  ka_query :: string
  ka_k :: u64
  ka_timeout :: int
  ka_embedding :: vector

definition knn_opt :: "knn_args \<Rightarrow> string \<Rightarrow> string list \<Rightarrow> (knn_args \<times> nat) option res" where
  "knn_opt args opt rest =
     (if str_case_equal opt ''--K'' then
        opt_value rest (\<lambda>v. bindR (stoul_or (\<lambda>w. ''invalid k: '' @ w) v) (\<lambda>k. Inr (args\<lparr>ka_k := k\<rparr>)))
      else if str_case_equal opt ''--EMBEDDING'' then
        opt_value rest (\<lambda>v. bindR (parse_embedding v) (\<lambda>e. Inr (args\<lparr>ka_embedding := e\<rparr>)))
      else if str_case_equal opt ''--TIMEOUT'' then
        opt_value rest (\<lambda>v. bindR (timeout_arg v) (\<lambda>t. Inr (args\<lparr>ka_timeout := t\<rparr>)))
      else Inr None)"

definition knn_parse_args :: "string list \<Rightarrow> knn_args res" where
  "knn_parse_args argv =
     (if length argv < 3 then Inl WrongArityError
      else bindR (parse_loop knn_opt
          \<lparr>ka_key = argv ! 1, ka_query = [], ka_k = 10, ka_timeout = 0, ka_embedding = []\<rparr> (drop 2 argv))
        (\<lambda>(args, rest). case rest of [] \<Rightarrow> Inr args | [q] \<Rightarrow> Inr (args\<lparr>ka_query := q\<rparr>) | _ \<Rightarrow> Inl WrongArityError))"

section \<open>LLM.RUN\<close>

record run_args =
  ra_key :: string
  ra_vars :: json
  ra_input :: string
  ra_verbose :: bool
  ra_timeout :: int

definition run_opt :: "json_text \<Rightarrow> run_args \<Rightarrow> string \<Rightarrow> string list \<Rightarrow> (run_args \<times> nat) option res" where
  "run_opt J args opt rest =
     (if str_case_equal opt ''--VARS'' then
        opt_value rest (\<lambda>v. bindR (to_json J v) (\<lambda>vars. Inr (args\<lparr>ra_vars := vars\<rparr>)))
      else if str_case_equal opt ''--VERBOSE'' then opt_flag (args\<lparr>ra_verbose := True\<rparr>)
      else Inr None)"

definition run_parse_args :: "json_text \<Rightarrow> string list \<Rightarrow> run_args res" where
  "run_parse_args J argv =
     (if length argv < 2 then Inl WrongArityError
      else bindR (parse_loop (run_opt J)
          \<lparr>ra_key = argv ! 1, ra_vars = JNull, ra_input = [], ra_verbose = False, ra_timeout = 0\<rparr> (drop 2 argv))
        (\<lambda>(args, rest). case rest of [] \<Rightarrow> Inr args | [i] \<Rightarrow> Inr (args\<lparr>ra_input := i\<rparr>) | _ \<Rightarrow> Inl WrongArityError))"

section \<open>The LLM.CREATE commands\<close>

datatype create_option = NX | XX | NONE

text \<open>The \<open>Args\<close> of the five classes; \<open>ca_type\<close> is the type of the object that is created.\<close>

record create_args =
  ca_key :: string
  ca_type :: string
  ca_opt :: create_option
  ca_params :: json
  ca_llm :: llm_info

definition create_args_init :: "string \<Rightarrow> string \<Rightarrow> create_args" where
  "create_args_init key type =
     \<lparr>ca_key = key, ca_type = type, ca_opt = NONE, ca_params = JObject [], ca_llm = llm_info_default\<rparr>"

text \<open>\<open>args.params[k] = v\<close>: a \<open>json::exception\<close> here is not caught.\<close>

definition set_param :: "string \<Rightarrow> json \<Rightarrow> create_args \<Rightarrow> create_args res" where
  "set_param k v args = bindR (jput (ca_params args) k v) (\<lambda>p. Inr (args\<lparr>ca_params := p\<rparr>))"

definition create_llm_opt :: "json_text \<Rightarrow> create_args \<Rightarrow> string \<Rightarrow> string list \<Rightarrow> (create_args \<times> nat) option res" where
  "create_llm_opt J args opt rest =
     (if str_case_equal opt ''--NX'' then opt_flag (args\<lparr>ca_opt := NX\<rparr>)
      else if str_case_equal opt ''--XX'' then opt_flag (args\<lparr>ca_opt := XX\<rparr>)
      else if str_case_equal opt ''--TYPE'' then opt_value rest (\<lambda>v. Inr (args\<lparr>ca_type := v\<rparr>))
      else if str_case_equal opt ''--PARAMS'' then
        opt_value rest (\<lambda>v. bindR (to_json J v) (\<lambda>p. Inr (args\<lparr>ca_params := p\<rparr>)))
      else Inr None)"

definition create_store_opt :: "json_text \<Rightarrow> create_args \<Rightarrow> string \<Rightarrow> string list \<Rightarrow> (create_args \<times> nat) option res" where
  "create_store_opt J args opt rest =
     (if str_case_equal opt ''--NX'' then opt_flag (args\<lparr>ca_opt := NX\<rparr>)
      else if str_case_equal opt ''--XX'' then opt_flag (args\<lparr>ca_opt := XX\<rparr>)
      else if str_case_equal opt ''--TYPE'' then opt_value rest (\<lambda>v. Inr (args\<lparr>ca_type := v\<rparr>))
      else if str_case_equal opt ''--PARAMS'' then
        opt_value rest (\<lambda>v. bindR (to_json J v) (\<lambda>p. Inr (args\<lparr>ca_params := p\<rparr>)))
      else if str_case_equal opt ''--LLM'' then
        opt_value rest (\<lambda>v. bindR (llm_info_of J v) (\<lambda>i. Inr (args\<lparr>ca_llm := i\<rparr>)))
      else Inr None)"

definition create_app_opt :: "json_text \<Rightarrow> create_args \<Rightarrow> string \<Rightarrow> string list \<Rightarrow> (create_args \<times> nat) option res" where
  "create_app_opt J args opt rest =
     (if str_case_equal opt ''--NX'' then opt_flag (args\<lparr>ca_opt := NX\<rparr>)
      else if str_case_equal opt ''--XX'' then opt_flag (args\<lparr>ca_opt := XX\<rparr>)
      else if str_case_equal opt ''--LLM'' then
        opt_value rest (\<lambda>v. bindR (llm_info_of J v) (\<lambda>i. Inr (args\<lparr>ca_llm := i\<rparr>)))
      else if str_case_equal opt ''--PARAMS'' then
        opt_value rest (\<lambda>v. bindR (to_json J v) (\<lambda>p. Inr (args\<lparr>ca_params := p\<rparr>)))
      else if str_case_equal opt ''--PROMPT'' then opt_value rest (\<lambda>v. set_param ''prompt'' (JString v) args)
      else Inr None)"

definition create_chat_opt :: "json_text \<Rightarrow> create_args \<Rightarrow> string \<Rightarrow> string list \<Rightarrow> (create_args \<times> nat) option res" where
  "create_chat_opt J args opt rest =
     (if str_case_equal opt ''--NX'' then opt_flag (args\<lparr>ca_opt := NX\<rparr>)
      else if str_case_equal opt ''--XX'' then opt_flag (args\<lparr>ca_opt := XX\<rparr>)
      else if str_case_equal opt ''--LLM'' then
        opt_value rest (\<lambda>v. bindR (llm_info_of J v) (\<lambda>i. Inr (args\<lparr>ca_llm := i\<rparr>)))
      else if str_case_equal opt ''--PROMPT'' then opt_value rest (\<lambda>v. set_param ''prompt'' (JString v) args)
      else if str_case_equal opt ''--HISTORY'' then
        opt_value rest (\<lambda>v. bindR (to_json J v) (\<lambda>h. set_param ''history'' h args))
      else if str_case_equal opt ''--VECTOR-STORE'' then opt_value rest (\<lambda>v. set_param ''vector-store'' (JString v) args)
      else Inr None)"

definition create_search_opt :: "json_text \<Rightarrow> create_args \<Rightarrow> string \<Rightarrow> string list \<Rightarrow> (create_args \<times> nat) option res" where
  "create_search_opt J args opt rest =
     (if str_case_equal opt ''--NX'' then opt_flag (args\<lparr>ca_opt := NX\<rparr>)
      else if str_case_equal opt ''--XX'' then opt_flag (args\<lparr>ca_opt := XX\<rparr>)
      else if str_case_equal opt ''--LLM'' then
        opt_value rest (\<lambda>v. bindR (llm_info_of J v) (\<lambda>i. Inr (args\<lparr>ca_llm := i\<rparr>)))
      else if str_case_equal opt ''--VECTOR-STORE'' then opt_value rest (\<lambda>v. set_param ''vector-store'' (JString v) args)
      else if str_case_equal opt ''--PROMPT'' then opt_value rest (\<lambda>v. set_param ''prompt'' (JString v) args)
      else if str_case_equal opt ''--K'' then
        opt_value rest (\<lambda>v.
          catchR is_StdException (bindR (stoul v) (\<lambda>k. set_param ''k'' (JUInt k) args))
            (\<lambda>e. Inl (Error (''invalid k'' @ what e))))
      else Inr None)"

text \<open>The frame the five parsers share: at least a key, the loop, and \<open>fin\<close> on what is left.\<close>

definition create_parse ::
    "(create_args \<Rightarrow> string \<Rightarrow> string list \<Rightarrow> (create_args \<times> nat) option res) \<Rightarrow> string \<Rightarrow>
     (create_args \<Rightarrow> string list \<Rightarrow> create_args res) \<Rightarrow> string list \<Rightarrow> create_args res" where
  "create_parse step type fin argv =
     (if length argv < 2 then Inl WrongArityError
      else bindR (parse_loop step (create_args_init (argv ! 1) type) (drop 2 argv)) (\<lambda>(args, rest). fin args rest))"

definition no_more :: "create_args \<Rightarrow> string list \<Rightarrow> create_args res" where
  "no_more args rest = (if rest \<noteq> [] then Inl WrongArityError else Inr args)"

definition create_llm_parse_args :: "json_text \<Rightarrow> string list \<Rightarrow> create_args res" where
  "create_llm_parse_args J = create_parse (create_llm_opt J) ''openai'' no_more"

definition create_store_parse_args :: "json_text \<Rightarrow> string list \<Rightarrow> create_args res" where
  "create_store_parse_args J = create_parse (create_store_opt J) ''hnsw'' no_more"

definition create_app_parse_args :: "json_text \<Rightarrow> string list \<Rightarrow> create_args res" where
  "create_app_parse_args J = create_parse (create_app_opt J) ''app'' no_more"

definition create_chat_parse_args :: "json_text \<Rightarrow> string list \<Rightarrow> create_args res" where
  "create_chat_parse_args J = create_parse (create_chat_opt J) ''chat''
     (\<lambda>args rest. if jfind (ca_params args) ''vector-store'' = None then Inl (Error ''no vector-store is specified'')
                  else no_more args rest)"

definition create_search_parse_args :: "json_text \<Rightarrow> string list \<Rightarrow> create_args res" where
  "create_search_parse_args J = create_parse (create_search_opt J) ''search''
     (\<lambda>args rest. bindR (no_more args rest) (\<lambda>args.
        if jfind (ca_params args) ''vector-store'' = None then Inl (Error ''no vector store is specified'')
        else if jfind (ca_params args) ''k'' = None then set_param ''k'' (JInt 3) args
        else Inr args))"

section \<open>Module options\<close>

definition module_opt :: "worker_pool_opts \<Rightarrow> string \<Rightarrow> string list \<Rightarrow> (worker_pool_opts \<times> nat) option res" where
  "module_opt opts opt rest =
     (if str_case_equal opt ''--POOL_SIZE'' then
        opt_value rest (\<lambda>v. bindR (stoul_or (\<lambda>_. ''invalid id'') v) (\<lambda>n. Inr (opts\<lparr>wo_pool_size := n\<rparr>)))
      else if str_case_equal opt ''--QUEUE_SIZE'' then
        opt_value rest (\<lambda>v. bindR (stoul_or (\<lambda>_. ''invalid id'') v) (\<lambda>n. Inr (opts\<lparr>wo_queue_size := n\<rparr>)))
      else Inl (Error (''unknown option: '' @ opt)))"

text \<open>\<open>Options::load\<close> assigns the members only at the end, so a failed load changes nothing.\<close>

definition options_load :: "string list \<Rightarrow> worker_pool_opts res" where
  "options_load argv = bindR (parse_loop module_opt worker_pool_opts_default argv) (\<lambda>(opts, rest). Inr opts)"

section \<open>Properties of the parsers\<close>

text \<open>Comparisons of option names.\<close>

lemmas eval_names = str_case_equal_iff toupper_def byte_def

lemma add_names [simp]:
  "\<not> str_case_equal ''--EMBEDDING'' ''--ID''" "\<not> str_case_equal ''--WITHEMBEDDING'' ''--ID''"
  "\<not> str_case_equal ''--WITHEMBEDDING'' ''--EMBEDDING''" "\<not> str_case_equal ''--WITHEMBEDDING'' ''--TIMEOUT''"
  by (simp_all add: eval_names)

lemma create_names [simp]:
  "\<not> str_case_equal ''--TYPE'' ''--NX''" "\<not> str_case_equal ''--TYPE'' ''--XX''" "\<not> str_case_equal ''--TYPE'' ''--LLM''"
  "\<not> str_case_equal ''--TYPE'' ''--PARAMS''" "\<not> str_case_equal ''--TYPE'' ''--PROMPT''"
  "\<not> str_case_equal ''--PARAMS'' ''--NX''" "\<not> str_case_equal ''--PARAMS'' ''--XX''"
  "\<not> str_case_equal ''--PARAMS'' ''--TYPE''" "\<not> str_case_equal ''--PARAMS'' ''--LLM''"
  "\<not> str_case_equal ''--LLM'' ''--NX''" "\<not> str_case_equal ''--LLM'' ''--XX''"
  "\<not> str_case_equal ''--PROMPT'' ''--NX''" "\<not> str_case_equal ''--PROMPT'' ''--XX''" "\<not> str_case_equal ''--PROMPT'' ''--LLM''"
  "\<not> str_case_equal ''--PROMPT'' ''--PARAMS''"
  by (simp_all add: eval_names)

lemma parse_loop_inv:
  assumes step: "\<And>a opt rest a' n. P a \<Longrightarrow> step a opt rest = Inr (Some (a', n)) \<Longrightarrow> P a'"
  shows "parse_loop step a xs = Inr (a', rest) \<Longrightarrow> P a \<Longrightarrow> P a'"
proof (induction "length xs" arbitrary: a xs rule: less_induct)
  case less
  show ?case
  proof (cases xs)
    case Nil
    then show ?thesis using less.prems by simp
  next
    case (Cons opt ys)
    then obtain r where r: "step a opt ys = Inr r" using less.prems by auto
    show ?thesis
    proof (cases r)
      case None
      then show ?thesis using less.prems Cons r by simp
    next
      case (Some p)
      obtain b n where p: "p = (b, n)" by force
      have "P b" using step [OF less.prems(2)] r Some p by simp
      moreover have "parse_loop step b (drop n ys) = Inr (a', rest)" using less.prems(1) Cons r Some p by simp
      ultimately show ?thesis using less.hyps [of "drop n ys" b] Cons by simp
    qed
  qed
qed

lemma parse_loop_fails:
  assumes "\<And>a opt rest. fails E (step a opt rest)"
  shows "fails E (parse_loop step a xs)"
proof (induction "length xs" arbitrary: a xs rule: less_induct)
  case less
  show ?case
  proof (cases xs)
    case Nil
    then show ?thesis by (simp add: fails_values)
  next
    case (Cons opt ys)
    have "fails E (case r of None \<Rightarrow> Inr (a, opt # ys) | Some (b, n) \<Rightarrow> parse_loop step b (drop n ys))" for r
      using less.hyps Cons by (cases r) (auto intro: fails_values)
    then show ?thesis using Cons assms by (auto intro: fails_bindR)
  qed
qed

lemma opt_value_fails [fails_intros]: "(\<And>v. fails E (f v)) \<Longrightarrow> E (Error ''syntax error'') \<Longrightarrow> fails E (opt_value rest f)"
  by (cases rest) (auto simp: opt_value_def intro!: fails_intros)

lemma opt_flag_fails [fails_intros]: "fails E (opt_flag a)"
  by (simp add: opt_flag_def fails_def)

lemma stoul_or_fails [fails_intros]: "fails is_Error (stoul_or msg v)"
  by (auto simp: stoul_or_def fails_def catchR_def split: sum.splits if_splits dest: stoul_Inl)

lemma timeout_arg_fails [fails_intros]: "fails is_Error (timeout_arg v)"
  unfolding timeout_arg_def by (intro fails_intros)

lemma parse_embedding_fails [fails_intros]: "fails is_Error (parse_embedding v)"
  by (auto simp: fails_def dest: parse_embedding_Inl)

lemma to_json_fails: "json_text_ok J \<Longrightarrow> fails is_Error (to_json J v)"
  unfolding to_json_def by (rule fails_catchR [where E = is_JsonException]) (auto simp: json_text_ok_def fails_def)

text \<open>The parsers of LLM.ADD, REM, GET, KNN and RUN throw \<open>Error\<close> only, so a wrong argument is always
  answered with an error reply.\<close>

lemma add_parse_args_fails: "fails is_Error (add_parse_args argv)"
  unfolding add_parse_args_def add_opt_def
  by (intro fails_intros parse_loop_fails) (auto intro!: fails_intros split: list.split)

lemma id_parse_args_fails: "fails is_Error (id_parse_args argv)"
  unfolding id_parse_args_def by (intro fails_intros) simp

lemma size_parse_args_fails: "fails is_Error (size_parse_args argv)"
  unfolding size_parse_args_def by (intro fails_intros) simp

lemma knn_parse_args_fails: "fails is_Error (knn_parse_args argv)"
  unfolding knn_parse_args_def knn_opt_def
  by (intro fails_intros parse_loop_fails) (auto intro!: fails_intros split: list.split)

lemma run_parse_args_fails: "json_text_ok J \<Longrightarrow> fails is_Error (run_parse_args J argv)"
  unfolding run_parse_args_def run_opt_def
  by (intro fails_intros parse_loop_fails to_json_fails) (auto intro!: fails_intros split: list.split)

lemma options_load_fails: "fails is_Error (options_load argv)"
  unfolding options_load_def module_opt_def by (intro fails_intros parse_loop_fails) auto

text \<open>What is sent to replicas reads back: the identifier as it was, the vector with six decimals, the datum
  unless it looks like an option.\<close>

definition is_add_option :: "string \<Rightarrow> bool" where
  "is_add_option s \<longleftrightarrow> str_case_equal s ''--ID'' \<or> str_case_equal s ''--EMBEDDING'' \<or> str_case_equal s ''--TIMEOUT''"

lemma add_opt_data: "\<not> is_add_option data \<Longrightarrow> add_opt args data rest = Inr None"
  by (simp add: add_opt_def is_add_option_def)

lemma add_opt_id: "add_opt args ''--ID'' (u64_to_string i # rest) = Inr (Some (args\<lparr>aa_id := Some i\<rparr>, 1))"
  by (simp add: add_opt_def opt_value_def stoul_or_def)

lemma add_opt_embedding:
  "add_opt args ''--EMBEDDING'' (dump_embedding v # rest) = Inr (Some (args\<lparr>aa_embedding := map f32_canon v\<rparr>, 1))"
  by (simp add: add_opt_def opt_value_def parse_dump_embedding)

lemma add_parse_replicated:
  assumes "\<not> is_add_option data"
  shows "add_parse_args [cmd, key, ''--ID'', u64_to_string i, ''--EMBEDDING'', dump_embedding v, data] =
      Inr \<lparr>aa_key = key, aa_id = Some i, aa_data = data, aa_embedding = map f32_canon v, aa_timeout = 0\<rparr>"
    and "add_parse_args [cmd, key, ''--EMBEDDING'', dump_embedding v, data] =
      Inr \<lparr>aa_key = key, aa_id = None, aa_data = data, aa_embedding = map f32_canon v, aa_timeout = 0\<rparr>"
  using assms by (simp_all add: add_parse_args_def add_opt_id add_opt_embedding add_opt_data)

lemma add_parse_option_data:
  assumes "is_add_option data"
  shows "add_parse_args [cmd, key, ''--EMBEDDING'', dump_embedding v, data] = Inl (Error ''syntax error'')"
proof -
  have "add_opt args data [] = Inl (Error ''syntax error'')" for args
    using assms by (auto simp: add_opt_def is_add_option_def opt_value_def)
  then show ?thesis by (simp add: add_parse_args_def add_opt_embedding)
qed

text \<open>The two commands of the AOF that the parsers refuse, and the two they accept.\<close>

lemma add_parse_withembedding:
  "add_parse_args [cmd, key, ''--WITHEMBEDDING'', i, data, emb] = Inl WrongArityError"
  by (simp add: add_parse_args_def add_opt_def)

lemma create_app_parse_type:
  "create_app_parse_args J (cmd # key # ''--TYPE'' # rest) = Inl WrongArityError"
  by (simp add: create_app_parse_args_def create_parse_def create_app_opt_def no_more_def)

lemma create_parse_type_params:
  assumes "jparse J p = Inr conf"
  shows "create_llm_parse_args J [cmd, key, ''--TYPE'', type, ''--PARAMS'', p] =
      Inr \<lparr>ca_key = key, ca_type = type, ca_opt = NONE, ca_params = conf, ca_llm = llm_info_default\<rparr>"
    and "create_store_parse_args J [cmd, key, ''--TYPE'', type, ''--PARAMS'', p] =
      Inr \<lparr>ca_key = key, ca_type = type, ca_opt = NONE, ca_params = conf, ca_llm = llm_info_default\<rparr>"
  using assms
  by (simp_all add: create_llm_parse_args_def create_store_parse_args_def create_parse_def create_args_init_def
      create_llm_opt_def create_store_opt_def opt_value_def to_json_def no_more_def)

text \<open>A prompt after parameters that are not an object: the exception is not an \<open>Error\<close>.\<close>

lemma create_app_parse_uncaught:
  assumes "jparse J p = Inr (JArray [])"
  shows "\<exists>e. create_app_parse_args J [cmd, key, ''--PARAMS'', p, ''--PROMPT'', t] = Inl e \<and> is_JsonException e"
  using assms
  by (simp add: create_app_parse_args_def create_parse_def create_app_opt_def opt_value_def to_json_def set_param_def
      type_error_def create_args_init_def)

text \<open>The parser of LLM.CREATE-SEARCH leaves what the constructor of the application reads: the key of the
  store as a string, \<open>k\<close> as a number.\<close>

definition search_params :: "create_args \<Rightarrow> bool" where
  "search_params args \<longleftrightarrow>
     (\<exists>m. ca_params args = JObject m) \<and>
     (\<forall>v. jfind (ca_params args) ''vector-store'' = Some v \<longrightarrow> (\<exists>s. v = JString s)) \<and>
     (\<forall>v. jfind (ca_params args) ''prompt'' = Some v \<longrightarrow> (\<exists>s. v = JString s)) \<and>
     (\<forall>v. jfind (ca_params args) ''k'' = Some v \<longrightarrow> (\<exists>n. get_u64 v = Inr n))"

lemma set_param_search:
  assumes "search_params args" and "set_param k v args = Inr args'"
    and "k \<in> {''vector-store'', ''prompt''} \<Longrightarrow> \<exists>s. v = JString s" and "k = ''k'' \<Longrightarrow> \<exists>n. get_u64 v = Inr n"
  shows "search_params args'"
proof -
  obtain p where p: "jput (ca_params args) k v = Inr p" "args' = args\<lparr>ca_params := p\<rparr>"
    using assms(2) by (auto simp: set_param_def)
  show ?thesis
    using assms(1,3,4) jput_JObject [OF p(1)] by (auto simp: search_params_def p(2) jput_jfind [OF p(1)])
qed

lemma create_search_opt_params:
  assumes "search_params args" and "create_search_opt J args opt rest = Inr (Some (args', n))"
  shows "search_params args'"
proof -
  have "ca_params args' = ca_params args \<or> (\<exists>v. set_param ''vector-store'' (JString v) args = Inr args') \<or>
    (\<exists>v. set_param ''prompt'' (JString v) args = Inr args') \<or> (\<exists>k. set_param ''k'' (JUInt k) args = Inr args')"
    using assms(2) unfolding create_search_opt_def opt_flag_def opt_value_def
    by (auto split: if_splits list.splits dest!: catchR_eq_Inr)
  then show ?thesis
    using set_param_search [OF assms(1), of "''vector-store''" _ args'] set_param_search [OF assms(1), of "''prompt''" _ args']
      set_param_search [OF assms(1), of "''k''" _ args'] assms(1)
    by (auto simp: search_params_def [of args] search_params_def [of args'])
qed

lemma create_search_parse_ok:
  assumes "create_search_parse_args J argv = Inr args"
  shows "search_params args" and "jfind (ca_params args) ''vector-store'' \<noteq> None" and "jfind (ca_params args) ''k'' \<noteq> None"
proof -
  have init: "search_params (create_args_init key type)" for key type
    by (simp add: search_params_def create_args_init_def)
  obtain args1 rest where loop: "parse_loop (create_search_opt J) (create_args_init (argv ! 1) ''search'') (drop 2 argv) = Inr (args1, rest)"
    and vs: "jfind (ca_params args1) ''vector-store'' \<noteq> None"
    and args: "args = args1 \<and> jfind (ca_params args1) ''k'' \<noteq> None \<or> set_param ''k'' (JInt 3) args1 = Inr args"
    using assms by (auto simp: create_search_parse_args_def create_parse_def no_more_def split: if_splits)
  have p1: "search_params args1"
    by (rule parse_loop_inv [where P = search_params, OF create_search_opt_params loop init])
  then show "search_params args" using args set_param_search [OF p1, of "''k''" "JInt 3" args] by auto
  have "set_param ''k'' (JInt 3) args1 = Inr args \<Longrightarrow>
      jfind (ca_params args) ''vector-store'' = jfind (ca_params args1) ''vector-store'' \<and> jfind (ca_params args) ''k'' = Some (JInt 3)"
    by (auto simp: set_param_def jput_jfind [of "ca_params args1" "''k''" "JInt 3"])
  with args vs show "jfind (ca_params args) ''vector-store'' \<noteq> None" and "jfind (ca_params args) ''k'' \<noteq> None" by auto
qed

section \<open>Properties\<close>

lemma parse_loop_suffix:
  "parse_loop step a xs = Inr (a', rest) \<Longrightarrow>
     (\<exists>pre. xs = pre @ rest) \<and> (rest \<noteq> [] \<longrightarrow> step a' (hd rest) (tl rest) = Inr None)"
proof (induction "length xs" arbitrary: a xs rule: less_induct)
  case less
  show ?case
  proof (cases xs)
    case Nil
    then show ?thesis using less.prems by simp
  next
    case (Cons opt ys)
    then obtain r where r: "step a opt ys = Inr r" using less.prems by auto
    show ?thesis
    proof (cases r)
      case None
      then show ?thesis using less.prems Cons r by auto
    next
      case (Some p)
      obtain b n where p: "p = (b, n)" by force
      have l: "parse_loop step b (drop n ys) = Inr (a', rest)" using less.prems Cons r Some p by simp
      have "length (drop n ys) < length xs" using Cons by simp
      from less.hyps [OF this l] obtain pre where "drop n ys = pre @ rest"
        and "rest \<noteq> [] \<longrightarrow> step a' (hd rest) (tl rest) = Inr None"
        by blast
      moreover from this(1) have "xs = (opt # take n ys @ pre) @ rest" using Cons append_take_drop_id [of n ys] by simp
      ultimately show ?thesis by blast
    qed
  qed
qed

lemma add_opt_None: "add_opt args opt rest = Inr None \<Longrightarrow> \<not> is_add_option opt"
  by (auto simp: add_opt_def is_add_option_def opt_value_def split: if_splits list.splits)

lemma add_parse_sound:
  assumes "add_parse_args argv = Inr args"
  shows "aa_key args = argv ! 1" and "aa_data args = last argv" and "\<not> is_add_option (aa_data args)" and "3 \<le> length argv"
proof -
  let ?a0 = "\<lparr>aa_key = argv ! 1, aa_id = None, aa_data = [], aa_embedding = [], aa_timeout = 0\<rparr>"
  obtain a rest where l: "parse_loop add_opt ?a0 (drop 2 argv) = Inr (a, rest)" and len: "\<not> length argv < 3"
    and fin: "(case rest of [data] \<Rightarrow> Inr (a\<lparr>aa_data := data\<rparr>) | _ \<Rightarrow> Inl WrongArityError) = Inr args"
    using assms by (auto simp: add_parse_args_def split: if_splits)
  from fin obtain data where rest: "rest = [data]" "args = a\<lparr>aa_data := data\<rparr>" by (auto split: list.splits)
  have "aa_key a = argv ! 1"
    by (rule parse_loop_inv [where P = "\<lambda>a. aa_key a = argv ! 1", OF _ l])
      (auto simp: add_opt_def opt_value_def split: if_splits list.splits)
  then show "aa_key args = argv ! 1" by (simp add: rest)
  note suf = parse_loop_suffix [OF l]
  then obtain pre where "drop 2 argv = pre @ [data]" using rest(1) by auto
  then have "argv = (take 2 argv @ pre) @ [data]" by (metis append_assoc append_take_drop_id)
  then show "aa_data args = last argv" by (metis rest(2) last_snoc add_args.select_convs(3) add_args.surjective add_args.update_convs(3))
  show "\<not> is_add_option (aa_data args)" using suf rest add_opt_None by auto
  show "3 \<le> length argv" using len by simp
qed



text \<open>C36. Wrong arguments are answered, never fatal: whatever the arguments are, the parsers of LLM.ADD, LLM.REM,
  LLM.GET, LLM.SIZE, LLM.KNN and LLM.RUN and the module options throw \<open>Error\<close> only (given that the JSON
  library throws its own exceptions only).\<close>

theorem parsers_throw_errors:
  assumes "json_text_ok J"
  shows "fails is_Error (add_parse_args argv) \<and> fails is_Error (id_parse_args argv) \<and> fails is_Error (size_parse_args argv) \<and>
    fails is_Error (knn_parse_args argv) \<and> fails is_Error (run_parse_args J argv) \<and> fails is_Error (options_load argv)"
  using add_parse_args_fails id_parse_args_fails size_parse_args_fails knn_parse_args_fails run_parse_args_fails [OF assms]
    options_load_fails by blast

theorem parsers_throw_errors_witness:
  "fails is_Error (run_parse_args sample_json [''LLM.RUN'', ''app'', ''--VARS'', ''[''])"
  using parsers_throw_errors [OF sample_json_ok] by blast

text \<open>Identifiers: an identifier that was printed reads back, also with text after it; a negative number
  is taken modulo two to the 64.\<close>

lemma id_reads_prefix:
  "id_parse_args [cmd, key, u64_to_string i] = Inr \<lparr>ia_key = key, ia_id = i\<rparr> \<and>
   id_parse_args [cmd, key, u64_to_string i @ ''abc''] = Inr \<lparr>ia_key = key, ia_id = i\<rparr> \<and>
   id_parse_args [cmd, key, ''-1''] = Inr \<lparr>ia_key = key, ia_id = 2 ^ 64 - 1\<rparr>"
proof -
  have "stoul (u64_to_string i @ ''abc'') = Inr i"
    by (rule stoul_u64_to_string_rest) (simp add: isdigit_def byte_def)
  moreover have "stoul ''-1'' = Inr (2 ^ 64 - 1)"
    by (simp add: stoul_def stoul_pos_def Let_def isspace_def isdigit_def byte_def digits_val_def digit_val_def)
  ultimately show ?thesis by (simp add: id_parse_args_def stoul_or_def)
qed

text \<open>C37. LLM.CREATE-SEARCH: what the parser accepts is what the application reads: an object with the key of
  the store as a string, the prompt as a string if there is one, and a number \<open>k\<close>.\<close>

theorem search_params_complete:
  assumes "create_search_parse_args J argv = Inr args"
  shows "(\<exists>m. ca_params args = JObject m) \<and> (\<exists>s. jfind (ca_params args) ''vector-store'' = Some (JString s)) \<and>
    (\<exists>v n. jfind (ca_params args) ''k'' = Some v \<and> get_u64 v = Inr n) \<and>
    (\<forall>v. jfind (ca_params args) ''prompt'' = Some v \<longrightarrow> (\<exists>s. v = JString s))"
  using create_search_parse_ok [OF assms] by (auto simp: search_params_def)

lemma create_search_example:
  "create_search_parse_args sample_json [''LLM.CREATE-SEARCH'', ''s'', ''--VECTOR-STORE'', ''v''] =
     Inr \<lparr>ca_key = ''s'', ca_type = ''search'', ca_opt = NONE,
           ca_params = JObject [(''k'', JInt 3), (''vector-store'', JString ''v'')], ca_llm = llm_info_default\<rparr>"
proof -
  have "(''k'' :: string) < ''vector-store''" by code_simp
  then show ?thesis
    by (simp add: create_search_parse_args_def create_parse_def create_search_opt_def opt_value_def set_param_def
        create_args_init_def no_more_def eval_names)
qed

theorem search_params_complete_witness:
  "\<exists>args. create_search_parse_args sample_json [''LLM.CREATE-SEARCH'', ''s'', ''--VECTOR-STORE'', ''v''] = Inr args \<and>
     (\<exists>v n. jfind (ca_params args) ''k'' = Some v \<and> get_u64 v = Inr n)"
  using search_params_complete [OF create_search_example] create_search_example by blast

end
