(* ===== verification/Redis_Llm.thy ===== *)
theory Redis_Llm
  imports Hnsw Application Command_Args
begin

text \<open>
  \<open>redis_llm.h\<close>, \<open>redis_llm.cpp\<close> (the singleton: factories and object pool) and \<open>module_api\<close> (keys and
  values), over a model of what the module uses of the server: the keyspace, blocked clients, the
  replication stream.  Objects are shared, so they live in a heap and are named by a number: a key, a
  queued task and an application reach the same object through its number.
\<close>

section \<open>State\<close>

text \<open>The value of a key: one of the three module types, or a value that is not the module's.\<close>

datatype rvalue = RVector nat | RLlm nat | RApp nat | ROther

datatype mtype = VectorStoreType | LlmType | AppType

fun value_type :: "rvalue \<Rightarrow> mtype option" where
  "value_type (RVector i) = Some VectorStoreType"
| "value_type (RLlm i) = Some LlmType"
| "value_type (RApp i) = Some AppType"
| "value_type ROther = None"

fun value_oid :: "rvalue \<Rightarrow> nat option" where
  "value_oid (RVector i) = Some i"
| "value_oid (RLlm i) = Some i"
| "value_oid (RApp i) = Some i"
| "value_oid ROther = None"

text \<open>Replies to a client; \<open>RBlocked\<close> when the client waits for a task.\<close>

datatype reply =
    RLong u64
  | RNull
  | RBulk string
  | RArray "reply list"
  | RDouble f32
  | RError string
  | RWrongArity
  | RBlocked

text \<open>What a worker is given: the blocked client, the arguments and shared pointers to the objects.\<close>

datatype task =
    AddTask nat add_args nat nat
  | KnnTask nat knn_args nat "nat option"
  | RunTask nat run_args nat nat

text \<open>The private data a worker attaches to a client: an exception or a result.\<close>

record add_result =
  ar_key :: string
  ar_id :: u64
  ar_auto_gen_id :: bool
  ar_embedding :: string
  ar_data :: string

datatype async_result =
    AddResult "add_result res"
  | KnnResult "(u64 \<times> f32) list res"
  | RunResult "string res"

datatype client_state = Waiting | Unblocked async_result

text \<open>Everything outside the source: the graph of the index, JSON text, templates, clock and network.\<close>

record ('g, 'w) ext =
  ex_graph :: "'g graph_ops"
  ex_json :: json_text
  ex_inja :: inja
  ex_outside :: "'w outside"

record ('g, 'w) redis =
  rd_keys :: "string \<Rightarrow> rvalue option"
  rd_stores :: "nat \<Rightarrow> 'g hnsw_ix vector_store option"
  rd_llms :: "nat \<Rightarrow> llm_model option"
  rd_apps :: "nat \<Rightarrow> application option"
  rd_embeddings :: "nat \<Rightarrow> embedding_model option"
  rd_object_pool :: "nat set"
  rd_next :: nat
  rd_workers :: "task worker_pool"
  rd_clients :: "nat \<Rightarrow> client_state option"
  rd_next_client :: nat
  rd_log :: "string list list"
  rd_world :: 'w

section \<open>\<open>module_api\<close>\<close>

definition wrongtype_msg :: string where
  "wrongtype_msg = ''WRONGTYPE Operation against a key holding the wrong kind of value''"

definition key_exists :: "mtype \<Rightarrow> string \<Rightarrow> ('g, 'w) redis \<Rightarrow> bool res" where
  "key_exists t name st =
     (case rd_keys st name of
        None \<Rightarrow> Inr False
      | Some v \<Rightarrow> if value_type v = Some t then Inr True else Inl (WrongTypeError wrongtype_msg))"

text \<open>\<open>create_key\<close>: whether it gives a key (\<open>False\<close> is the null pointer).\<close>

definition create_key :: "mtype \<Rightarrow> string \<Rightarrow> create_option \<Rightarrow> ('g, 'w) redis \<Rightarrow> bool res" where
  "create_key t name opt st =
     bindR (key_exists t name st) (\<lambda>e.
       if e then (if opt = NX then Inr False else Inr True)
       else (if opt = XX then Inr False else Inr True))"

text \<open>The object that a key holds.\<close>

definition key_oid :: "(string \<Rightarrow> rvalue option) \<Rightarrow> string \<Rightarrow> nat option" where
  "key_oid ks k = (case ks k of None \<Rightarrow> None | Some v \<Rightarrow> value_oid v)"

text \<open>\<open>get_value_by_key\<close>: the object of the key, if the key exists.\<close>

definition get_value_by_key :: "mtype \<Rightarrow> string \<Rightarrow> ('g, 'w) redis \<Rightarrow> nat option res" where
  "get_value_by_key t name st =
     bindR (key_exists t name st) (\<lambda>e. Inr (if e then key_oid (rd_keys st) name else None))"

definition reply_with_error :: "exn \<Rightarrow> reply" where
  "reply_with_error e = RError (''ERR '' @ what e)"

section \<open>\<open>RedisLlm\<close>\<close>

text \<open>\<open>unregister_object\<close>, called by \<open>_free_llm\<close>, \<open>_free_app\<close> and \<open>_free_vector_store\<close> when the server drops a value.\<close>

definition unregister_object :: "nat \<Rightarrow> ('g, 'w) redis \<Rightarrow> ('g, 'w) redis" where
  "unregister_object i st = st\<lparr>rd_object_pool := rd_object_pool st - {i}\<rparr>"

definition free_value :: "string \<Rightarrow> ('g, 'w) redis \<Rightarrow> ('g, 'w) redis" where
  "free_value name st = (case key_oid (rd_keys st) name of None \<Rightarrow> st | Some i \<Rightarrow> unregister_object i st)"

text \<open>\<open>RedisModule_ModuleTypeSetValue\<close> on a key opened for writing: the old value is freed.\<close>

definition set_value :: "string \<Rightarrow> rvalue \<Rightarrow> ('g, 'w) redis \<Rightarrow> ('g, 'w) redis" where
  "set_value name v st = (free_value name st)\<lparr>rd_keys := (rd_keys st)(name \<mapsto> v)\<rparr>"

text \<open>The server deletes a key (DEL, expiry, eviction).\<close>

definition delete_key :: "string \<Rightarrow> ('g, 'w) redis \<Rightarrow> ('g, 'w) redis" where
  "delete_key name st = (free_value name st)\<lparr>rd_keys := (rd_keys st)(name := None)\<rparr>"

text \<open>\<open>_register_object\<close> of a new object, whose number is the next one.\<close>

definition register_object :: "('g, 'w) redis \<Rightarrow> ('g, 'w) redis" where
  "register_object st = st\<lparr>rd_object_pool := insert (rd_next st) (rd_object_pool st), rd_next := Suc (rd_next st)\<rparr>"

definition create_llm :: "('g, 'w) ext \<Rightarrow> string \<Rightarrow> json \<Rightarrow> (('g, 'w) redis, nat) act" where
  "create_llm X type conf st =
     (case llm_create (ex_json X) type conf of
        Inl e \<Rightarrow> (Inl e, st)
      | Inr lm \<Rightarrow> (Inr (rd_next st), register_object (st\<lparr>rd_llms := (rd_llms st)(rd_next st \<mapsto> lm)\<rparr>)))"

definition create_embedding :: "('g, 'w) ext \<Rightarrow> string \<Rightarrow> json \<Rightarrow> (('g, 'w) redis, nat) act" where
  "create_embedding X type conf st =
     (case embedding_create (ex_json X) type conf of
        Inl e \<Rightarrow> (Inl e, st)
      | Inr em \<Rightarrow> (Inr (rd_next st), register_object (st\<lparr>rd_embeddings := (rd_embeddings st)(rd_next st \<mapsto> em)\<rparr>)))"

definition create_vector_store :: "string \<Rightarrow> json \<Rightarrow> llm_info \<Rightarrow> (('g, 'w) redis, nat) act" where
  "create_vector_store type conf llm st =
     (case vector_store_create type conf llm of
        Inl e \<Rightarrow> (Inl e, st)
      | Inr s \<Rightarrow> (Inr (rd_next st), register_object (st\<lparr>rd_stores := (rd_stores st)(rd_next st \<mapsto> s)\<rparr>)))"

definition create_application :: "('g, 'w) ext \<Rightarrow> string \<Rightarrow> llm_info \<Rightarrow> json \<Rightarrow> (('g, 'w) redis, nat) act" where
  "create_application X type llm conf st =
     (case app_create (ex_inja X) type llm conf of
        Inl e \<Rightarrow> (Inl e, st)
      | Inr app \<Rightarrow> (Inr (rd_next st), register_object (st\<lparr>rd_apps := (rd_apps st)(rd_next st \<mapsto> app)\<rparr>)))"

text \<open>\<open>RedisLlm::load\<close> after \<open>RedisModule_Init\<close>: the options, the workers, no object.\<close>

definition redis_load :: "string list \<Rightarrow> 'w \<Rightarrow> ('g, 'w) redis res" where
  "redis_load argv w =
     bindR (options_load argv) (\<lambda>opts.
       Inr \<lparr>rd_keys = Map.empty, rd_stores = Map.empty, rd_llms = Map.empty, rd_apps = Map.empty,
            rd_embeddings = Map.empty, rd_object_pool = {}, rd_next = 0, rd_workers = worker_pool_new opts,
            rd_clients = Map.empty, rd_next_client = 0, rd_log = [], rd_world = w\<rparr>)"

section \<open>Use of shared objects\<close>

text \<open>An operation on the object behind a shared pointer.\<close>

definition on_store :: "nat \<Rightarrow> ('g hnsw_ix vector_store, 'a) act \<Rightarrow> (('g, 'w) redis, 'a) act" where
  "on_store i m st =
     (case rd_stores st i of
        None \<Rightarrow> (Inl Undefined, st)
      | Some s \<Rightarrow> (case m s of (r, s1) \<Rightarrow> (r, st\<lparr>rd_stores := (rd_stores st)(i \<mapsto> s1)\<rparr>)))"

definition read_store :: "nat \<Rightarrow> ('g hnsw_ix vector_store \<Rightarrow> 'a res) \<Rightarrow> (('g, 'w) redis, 'a) act" where
  "read_store i f st = (case rd_stores st i of None \<Rightarrow> (Inl Undefined, st) | Some s \<Rightarrow> (f s, st))"

definition on_llm :: "nat \<Rightarrow> (llm_model \<times> 'w, 'a) act \<Rightarrow> (('g, 'w) redis, 'a) act" where
  "on_llm i m st =
     (case rd_llms st i of
        None \<Rightarrow> (Inl Undefined, st)
      | Some lm \<Rightarrow>
          (case m (lm, rd_world st) of
             (r, (lm1, w1)) \<Rightarrow> (r, st\<lparr>rd_llms := (rd_llms st)(i \<mapsto> lm1), rd_world := w1\<rparr>)))"

definition read_app :: "nat \<Rightarrow> (('g, 'w) redis, application) act" where
  "read_app i st = (case rd_apps st i of None \<Rightarrow> (Inl Undefined, st) | Some a \<Rightarrow> (Inr a, st))"

text \<open>\<open>RedisModule_Replicate\<close> and \<open>RedisModule_ReplicateVerbatim\<close>.\<close>

definition replicate_cmd :: "string list \<Rightarrow> (('g, 'w) redis, unit) act" where
  "replicate_cmd argv = modifyS (\<lambda>st. st\<lparr>rd_log := rd_log st @ [argv]\<rparr>)"

section \<open>The invariant\<close>

text \<open>
  A key holds an existing object of its type; two keys never share one; the object pool is exactly the
  set of the objects that keys hold (nothing leaks, nothing a key holds is destroyed); every vector
  store and every LLM model is consistent; numbers from \<open>rd_next\<close> on are unused.
\<close>

fun value_ok :: "('g, 'w) redis \<Rightarrow> rvalue \<Rightarrow> bool" where
  "value_ok st (RVector i) = (rd_stores st i \<noteq> None)"
| "value_ok st (RLlm i) = (rd_llms st i \<noteq> None)"
| "value_ok st (RApp i) = (rd_apps st i \<noteq> None)"
| "value_ok st ROther = True"

definition key_oids :: "(string \<Rightarrow> rvalue option) \<Rightarrow> nat set" where
  "key_oids ks = {i. \<exists>k. key_oid ks k = Some i}"

definition keys_ok :: "('g, 'w) redis \<Rightarrow> bool" where
  "keys_ok st \<longleftrightarrow>
     (\<forall>k v. rd_keys st k = Some v \<longrightarrow> value_ok st v) \<and>
     (\<forall>k k' i. key_oid (rd_keys st) k = Some i \<longrightarrow> key_oid (rd_keys st) k' = Some i \<longrightarrow> k = k')"

definition objects_ok :: "('g, 'w) redis \<Rightarrow> bool" where
  "objects_ok st \<longleftrightarrow>
     (\<forall>i s. rd_stores st i = Some s \<longrightarrow> i < rd_next st \<and> store_ok s) \<and>
     (\<forall>i lm. rd_llms st i = Some lm \<longrightarrow> i < rd_next st \<and> llm_inv lm) \<and>
     (\<forall>i a. rd_apps st i = Some a \<longrightarrow> i < rd_next st)"

definition redis_inv :: "('g, 'w) redis \<Rightarrow> bool" where
  "redis_inv st \<longleftrightarrow> keys_ok st \<and> objects_ok st \<and> rd_object_pool st = key_oids (rd_keys st)"

lemma redis_load_inv: "redis_load argv w = Inr st \<Longrightarrow> redis_inv st"
  by (auto simp: redis_load_def redis_inv_def keys_ok_def objects_ok_def key_oids_def key_oid_def)

text \<open>Only keys, objects, the pool and the counter matter.\<close>

lemma value_ok_cong:
  "rd_stores st' = rd_stores st \<Longrightarrow> rd_llms st' = rd_llms st \<Longrightarrow> rd_apps st' = rd_apps st \<Longrightarrow> value_ok st' v = value_ok st v"
  by (cases v) simp_all

lemma redis_inv_frame:
  assumes "redis_inv st" and "rd_keys st' = rd_keys st" and "rd_stores st' = rd_stores st" and "rd_llms st' = rd_llms st"
    and "rd_apps st' = rd_apps st" and "rd_object_pool st' = rd_object_pool st" and "rd_next st' = rd_next st"
  shows "redis_inv st'"
  using assms value_ok_cong [OF assms(3-5)] by (simp add: redis_inv_def keys_ok_def objects_ok_def)

lemma key_oid_upd: "key_oid (ks(name := x)) k = (if k = name then (case x of None \<Rightarrow> None | Some v \<Rightarrow> value_oid v) else key_oid ks k)"
  by (simp add: key_oid_def)

lemma key_oid_ok:
  assumes "redis_inv st" and "key_oid (rd_keys st) k = Some i"
  shows "i < rd_next st" and "i \<in> rd_object_pool st"
proof -
  obtain v where v: "rd_keys st k = Some v" "value_oid v = Some i"
    using assms(2) by (auto simp: key_oid_def split: option.splits)
  then have "value_ok st v" using assms(1) by (auto simp: redis_inv_def keys_ok_def)
  then show "i < rd_next st" using assms(1) v(2) by (cases v) (auto simp: redis_inv_def objects_ok_def)
  show "i \<in> rd_object_pool st" using assms by (auto simp: redis_inv_def key_oids_def)
qed

lemma free_value_simps [simp]:
  "rd_keys (free_value k st) = rd_keys st" "rd_stores (free_value k st) = rd_stores st" "rd_llms (free_value k st) = rd_llms st"
  "rd_apps (free_value k st) = rd_apps st" "rd_next (free_value k st) = rd_next st"
  "rd_embeddings (free_value k st) = rd_embeddings st" "rd_workers (free_value k st) = rd_workers st"
  "rd_clients (free_value k st) = rd_clients st" "rd_log (free_value k st) = rd_log st" "rd_world (free_value k st) = rd_world st"
  "rd_next_client (free_value k st) = rd_next_client st"
  "rd_object_pool (free_value k st) = rd_object_pool st - {i. key_oid (rd_keys st) k = Some i}"
  by (cases "key_oid (rd_keys st) k"; auto simp add: free_value_def unregister_object_def)+

lemma set_delete_simps [simp]:
  "rd_keys (set_value name v st) = (rd_keys st)(name \<mapsto> v)" "rd_keys (delete_key name st) = (rd_keys st)(name := None)"
  "value_ok (set_value name v st) u = value_ok st u" "value_ok (delete_key name st) u = value_ok st u"
  by (cases u; simp add: set_value_def delete_key_def)+

lemma keys_ok_update:
  assumes "keys_ok st" and "rd_keys st' = (rd_keys st)(name := x)"
    and "\<And>v i k. x = Some v \<Longrightarrow> value_oid v = Some i \<Longrightarrow> key_oid (rd_keys st) k \<noteq> Some i"
    and "\<And>v. x = Some v \<Longrightarrow> value_ok st' v" and "\<And>u. value_ok st u \<Longrightarrow> value_ok st' u"
  shows "keys_ok st'"
  unfolding keys_ok_def
proof (intro conjI allI impI)
  show "value_ok st' v" if "rd_keys st' k = Some v" for k v
    using assms that by (cases "k = name") (auto simp: keys_ok_def)
  show "k = k'" if "key_oid (rd_keys st') k = Some i" "key_oid (rd_keys st') k' = Some i" for k k' i
    using assms(1-3) that unfolding keys_ok_def by (auto simp: key_oid_upd split: if_splits option.splits)
qed

lemma key_oids_upd:
  assumes "keys_ok st"
  shows "key_oids ((rd_keys st)(name := x)) =
    {i. \<exists>v. x = Some v \<and> value_oid v = Some i} \<union> (key_oids (rd_keys st) - {i. key_oid (rd_keys st) name = Some i})"
    (is "?L = ?R")
proof (rule set_eqI)
  fix i
  have uniq: "key_oid (rd_keys st) k = Some i \<Longrightarrow> key_oid (rd_keys st) name = Some i \<Longrightarrow> k = name" for k
    using assms unfolding keys_ok_def by blast
  have "i \<in> ?L \<longleftrightarrow> (\<exists>k. k = name \<and> (\<exists>v. x = Some v \<and> value_oid v = Some i) \<or> k \<noteq> name \<and> key_oid (rd_keys st) k = Some i)"
    by (auto simp: key_oids_def key_oid_upd split: option.splits)
  also have "\<dots> \<longleftrightarrow> i \<in> ?R" using uniq by (auto simp: key_oids_def)
  finally show "i \<in> ?L \<longleftrightarrow> i \<in> ?R" .
qed

text \<open>A key is deleted, or set to a new object.\<close>

lemma delete_key_inv:
  assumes inv: "redis_inv st"
  shows "redis_inv (delete_key name st)"
proof -
  have "key_oids ((rd_keys st)(name := None)) = key_oids (rd_keys st) - {i. key_oid (rd_keys st) name = Some i}"
    using key_oids_upd [of st name None] inv by (simp add: redis_inv_def)
  moreover have "keys_ok (delete_key name st)"
    by (rule keys_ok_update [of st _ name None]) (use inv in \<open>simp_all add: redis_inv_def\<close>)
  ultimately show ?thesis using inv by (simp add: redis_inv_def objects_ok_def delete_key_def)
qed

text \<open>\<open>st1\<close> is \<open>st\<close> with a new object \<open>i\<close>, registered but not yet the value of a key.\<close>

definition new_object :: "('g, 'w) redis \<Rightarrow> nat \<Rightarrow> rvalue \<Rightarrow> ('g, 'w) redis \<Rightarrow> bool" where
  "new_object st i v st1 \<longleftrightarrow>
     i = rd_next st \<and> value_oid v = Some i \<and> value_ok st1 v \<and> rd_keys st1 = rd_keys st \<and>
     rd_object_pool st1 = insert i (rd_object_pool st) \<and> rd_next st1 = Suc i \<and> objects_ok st1 \<and>
     (\<forall>u. value_ok st u \<longrightarrow> value_ok st1 u)"

lemma set_value_inv:
  assumes inv: "redis_inv st" and new: "new_object st i v st1"
  shows "redis_inv (set_value name v st1)"
proof -
  have v: "value_oid v = Some i" "value_ok st1 v" and k: "rd_keys st1 = rd_keys st"
    and p: "rd_object_pool st1 = insert i (rd_object_pool st)" and ob: "objects_ok st1" and i: "i = rd_next st"
    and mono: "\<And>u. value_ok st u \<Longrightarrow> value_ok st1 u"
    using new by (auto simp: new_object_def)
  have fresh: "key_oid (rd_keys st) k \<noteq> Some i" for k
    using key_oid_ok(1) [OF inv] i by fastforce
  have "key_oids ((rd_keys st)(name \<mapsto> v)) = insert i (key_oids (rd_keys st) - {i. key_oid (rd_keys st) name = Some i})"
    using inv v(1) key_oids_upd [of st name "Some v"] by (simp add: redis_inv_def)
  moreover have "insert i (key_oids (rd_keys st)) - {i. key_oid (rd_keys st) name = Some i} =
      insert i (key_oids (rd_keys st) - {i. key_oid (rd_keys st) name = Some i})"
    using fresh [of name] by auto
  ultimately have "key_oids ((rd_keys st)(name \<mapsto> v)) = rd_object_pool (set_value name v st1)"
    using inv by (simp add: redis_inv_def set_value_def p k)
  moreover have "keys_ok (set_value name v st1)"
    by (rule keys_ok_update [of st _ name "Some v"]) (use inv v fresh mono in \<open>simp_all add: redis_inv_def k\<close>)
  ultimately show ?thesis using ob by (simp add: redis_inv_def objects_ok_def set_value_def k)
qed

lemma create_llm_cases:
  assumes inv: "redis_inv st" and c: "create_llm X type conf st = (r, st1)"
  obtains e where "r = Inl e" and "st1 = st" and "llm_create (ex_json X) type conf = Inl e"
    | i lm where "r = Inr i" and "new_object st i (RLlm i) st1" and "rd_llms st1 i = Some lm"
        and "llm_create (ex_json X) type conf = Inr lm"
proof (cases "llm_create (ex_json X) type conf")
  case (Inl e)
  then show ?thesis using that(1) c by (auto simp: create_llm_def)
next
  case (Inr lm)
  then have st1: "r = Inr (rd_next st)" "st1 = register_object (st\<lparr>rd_llms := (rd_llms st)(rd_next st \<mapsto> lm)\<rparr>)"
    using c by (simp_all add: create_llm_def)
  have "value_ok st u \<Longrightarrow> value_ok st1 u" for u by (cases u) (auto simp: st1(2) register_object_def)
  then have "new_object st (rd_next st) (RLlm (rd_next st)) st1"
    using inv llm_create_ok [OF Inr]
    by (auto simp: new_object_def st1(2) register_object_def redis_inv_def objects_ok_def less_Suc_eq)
  then show ?thesis using that(2) st1 Inr by (simp add: register_object_def)
qed

lemma vector_store_create_ok:
  assumes "vector_store_create type conf llm = Inr s"
  shows "store_ok s" and "vs_llm s = llm" and "vs_data s = []" and "vs_type s = type" and "vs_conf s = conf"
    and "vs_id_idx s = 0" and "vs_dim s = 0"
  using assms
  using hnsw_create_store_ok [of conf llm s]
  by (auto simp: vector_store_create_def hnsw_create_def vs_create_def split: if_splits)

lemma create_vector_store_cases:
  fixes st :: "('g, 'w) redis"
  assumes inv: "redis_inv st" and c: "create_vector_store type conf llm st = (r, st1)"
  obtains e where "r = Inl e" and "st1 = st"
    and "vector_store_create type conf llm = (Inl e :: 'g hnsw_ix vector_store res)"
    | i s where "r = Inr i" and "new_object st i (RVector i) st1" and "rd_stores st1 i = Some s"
        and "vector_store_create type conf llm = Inr s"
proof (cases "vector_store_create type conf llm :: 'g hnsw_ix vector_store res")
  case (Inl e)
  then show ?thesis using that(1) c by (auto simp: create_vector_store_def)
next
  case (Inr s)
  then have st1: "r = Inr (rd_next st)" "st1 = register_object (st\<lparr>rd_stores := (rd_stores st)(rd_next st \<mapsto> s)\<rparr>)"
    using c by (simp_all add: create_vector_store_def)
  have "value_ok st u \<Longrightarrow> value_ok st1 u" for u by (cases u) (auto simp: st1(2) register_object_def)
  then have "new_object st (rd_next st) (RVector (rd_next st)) st1"
    using inv vector_store_create_ok(1) [OF Inr]
    by (auto simp: new_object_def st1(2) register_object_def redis_inv_def objects_ok_def less_Suc_eq)
  then show ?thesis using that(2) st1 Inr by (simp add: register_object_def)
qed

lemma create_application_cases:
  assumes inv: "redis_inv st" and c: "create_application X type llm conf st = (r, st1)"
  obtains e where "r = Inl e" and "st1 = st" and "app_create (ex_inja X) type llm conf = Inl e"
    | i a where "r = Inr i" and "new_object st i (RApp i) st1" and "rd_apps st1 i = Some a"
        and "app_create (ex_inja X) type llm conf = Inr a"
proof (cases "app_create (ex_inja X) type llm conf")
  case (Inl e)
  then show ?thesis using that(1) c by (auto simp: create_application_def)
next
  case (Inr a)
  then have st1: "r = Inr (rd_next st)" "st1 = register_object (st\<lparr>rd_apps := (rd_apps st)(rd_next st \<mapsto> a)\<rparr>)"
    using c by (simp_all add: create_application_def)
  have "value_ok st u \<Longrightarrow> value_ok st1 u" for u by (cases u) (auto simp: st1(2) register_object_def)
  then have "new_object st (rd_next st) (RApp (rd_next st)) st1"
    using inv by (auto simp: new_object_def st1(2) register_object_def redis_inv_def objects_ok_def less_Suc_eq)
  then show ?thesis using that(2) st1 Inr by (simp add: register_object_def)
qed

end
