(* ===== verification/App_Run.thy ===== *)
theory App_Run
  imports Redis_Llm
begin

text \<open>
  Running an application: \<open>ChatHistory::add\<close> and \<open>history\<close>, and the functions \<open>run\<close> of the three
  application classes.  \<open>ao\<close>, \<open>so\<close>, \<open>lo\<close> and \<open>mo\<close> are the numbers of the application, the vector store, the
  LLM of the store and the LLM of the application; they are references, so \<open>lo\<close> and \<open>mo\<close> may be equal.
\<close>

abbreviation store_ops :: "('g, 'w) ext \<Rightarrow> 'g hnsw_ix index_ops" where
  "store_ops X \<equiv> hnsw_ops (ex_graph X)"

definition askS :: "('s \<Rightarrow> 'a res) \<Rightarrow> ('s, 'a) act" where
  "askS f s = (f s, s)"

section \<open>Chat history\<close>

definition on_history :: "nat \<Rightarrow> (chat_history, 'a) act \<Rightarrow> (('g, 'w) redis, 'a) act" where
  "on_history ao m st =
     (case rd_apps st ao of
        Some app \<Rightarrow>
          (case ap_impl app of
             ChatApplication p h vs \<Rightarrow>
               (case m h of (r, h1) \<Rightarrow>
                  (r, st\<lparr>rd_apps := (rd_apps st)(ao \<mapsto> app\<lparr>ap_impl := ChatApplication p h1 vs\<rparr>)\<rparr>))
           | _ \<Rightarrow> (Inl Undefined, st))
      | None \<Rightarrow> (Inl Undefined, st))"

text \<open>The loops over the neighbours: data joined by line feeds, missing ones skipped; no separator before
  the first text that is not empty.\<close>

fun join_lines :: "string \<Rightarrow> string list \<Rightarrow> string" where
  "join_lines acc [] = acc"
| "join_lines acc (x # xs) = join_lines ((if acc \<noteq> [] then acc @ nl else acc) @ x) xs"

definition data_of_all :: "(u64 \<times> f32) list \<Rightarrow> 'ix vector_store \<Rightarrow> string list" where
  "data_of_all neighbors s = List.map_filter (\<lambda>(i, d). vs_data_of i s) neighbors"

text \<open>\<open>_get_history_summary\<close>; its parameter \<open>k\<close> is an \<open>int\<close>, so a count is sign-extended to \<open>size_t\<close>.\<close>

definition get_history_summary ::
    "('g, 'w) ext \<Rightarrow> nat \<Rightarrow> nat \<Rightarrow> json \<Rightarrow> string \<Rightarrow> u32 \<Rightarrow> (('g, 'w) redis, string) act" where
  "get_history_summary X lo so params input k =
     bindS (on_llm lo (llm_embedding (ex_outside X) (ex_json X) input params)) (\<lambda>embedding.
     bindS (read_store so (vs_knn (store_ops X) embedding (scast k))) (\<lambda>neighbors.
     read_store so (\<lambda>s. Inr (join_lines [] (data_of_all neighbors s)))))"

text \<open>\<open>ChatHistory::history\<close>: the summary and the latest messages.\<close>

definition history :: "('g, 'w) ext \<Rightarrow> nat \<Rightarrow> nat \<Rightarrow> nat \<Rightarrow> string \<Rightarrow> (('g, 'w) redis, string \<times> json) act" where
  "history X ao lo so input =
     bindS (on_history ao (getS id)) (\<lambda>h.
     bindS (liftR (msgs_json (ch_latest h))) (\<lambda>latest.
     bindS (if 0 < co_summary_cnt (ch_opts h) \<and> 0 < co_summary_ctx_cnt (ch_opts h) then
              get_history_summary X lo so (li_params (co_llm (ch_opts h))) input (co_summary_ctx_cnt (ch_opts h))
            else returnS [])
       (\<lambda>summary. returnS (summary, latest))))"

text \<open>\<open>_summarize\<close>.\<close>

definition summary_request :: "('g, 'w) ext \<Rightarrow> chat_history \<Rightarrow> msg list \<Rightarrow> string res" where
  "summary_request X h msgs =
     catchR is_StdException
       (bindR (msgs_json msgs) (\<lambda>conversation.
        bindR (jdump (ex_json X) conversation) (\<lambda>text.
        bindR (jput JNull ''conversation'' (JString text)) (\<lambda>vars.
        prompt_render (ex_inja X) (ch_summary_prompt h) vars))))
       (\<lambda>e. Inl (Error (''failed to build summary request'' @ what e)))"

definition summarize :: "('g, 'w) ext \<Rightarrow> chat_history \<Rightarrow> nat \<Rightarrow> nat \<Rightarrow> msg list \<Rightarrow> (('g, 'w) redis, u64 \<times> string \<times> vector) act" where
  "summarize X h lo so msgs =
     bindS (liftR (summary_request X h msgs)) (\<lambda>request.
     bindS (on_llm lo (llm_predict (ex_outside X) (ex_json X) request (li_params (co_llm (ch_opts h))))) (\<lambda>output.
     bindS (on_llm lo (llm_embedding (ex_outside X) (ex_json X) output (li_params (co_llm (ch_opts h))))) (\<lambda>embedding.
     bindS (on_store so (vs_add_auto (store_ops X) output embedding)) (\<lambda>i.
     returnS (i, output, embedding)))))"

definition summarize_if_needed ::
    "('g, 'w) ext \<Rightarrow> nat \<Rightarrow> nat \<Rightarrow> nat \<Rightarrow> msg \<Rightarrow> (('g, 'w) redis, u64 \<times> string \<times> vector) act" where
  "summarize_if_needed X ao lo so m =
     bindS (on_history ao (getS id)) (\<lambda>h.
       if co_summary_cnt (ch_opts h) = 0 then returnS (0, [], [])
       else
         bindS (on_history ao (modifyS (ch_to_summarize_update (\<lambda>ms. ms @ [m])))) (\<lambda>_.
         bindS (on_history ao (getS id)) (\<lambda>h1.
           if unat (co_summary_cnt (ch_opts h1)) \<le> length (ch_to_summarize h1) then
             bindS (summarize X h1 lo so (ch_to_summarize h1)) (\<lambda>res.
             bindS (on_history ao (modifyS (ch_to_summarize_update (\<lambda>_. [])))) (\<lambda>_.
             returnS res))
           else returnS (0, [], []))))"

text \<open>\<open>ChatHistory::add\<close>.\<close>

definition history_add ::
    "('g, 'w) ext \<Rightarrow> nat \<Rightarrow> nat \<Rightarrow> nat \<Rightarrow> string \<Rightarrow> string \<Rightarrow> (('g, 'w) redis, u64 \<times> string \<times> vector) act" where
  "history_add X ao lo so role message =
     bindS (summarize_if_needed X ao lo so (role, message)) (\<lambda>res.
     bindS (on_history ao (modifyS (push_latest (role, message)))) (\<lambda>_.
     returnS res))"

section \<open>The applications\<close>

text \<open>What \<open>search\<close> and \<open>chat\<close> look up first, under the server's lock: the vector store and its LLM.\<close>

definition find_store :: "string \<Rightarrow> (('g, 'w) redis, nat \<times> nat) act" where
  "find_store name =
     bindS (askS (get_value_by_key VectorStoreType name)) (\<lambda>s.
       case s of None \<Rightarrow> throwS (Error ''vector store does not exist'')
       | Some so \<Rightarrow>
           bindS (read_store so (\<lambda>s. Inr (li_key (vs_llm s)))) (\<lambda>key.
           bindS (askS (get_value_by_key LlmType key)) (\<lambda>l.
             case l of None \<Rightarrow> throwS (Error (''LLM model does not exist: '' @ key))
             | Some lo \<Rightarrow> returnS (so, lo))))"

text \<open>\<open>context.value<json>("vars", json::object())\<close> when there is a context.\<close>

definition context_vars :: "json \<Rightarrow> json res" where
  "context_vars context = (if context \<noteq> JNull then jvalue get_json context ''vars'' (JObject []) else Inr JNull)"

definition simple_run ::
    "('g, 'w) ext \<Rightarrow> llm_info \<Rightarrow> prompt \<Rightarrow> nat \<Rightarrow> json \<Rightarrow> string \<Rightarrow> bool \<Rightarrow> (('g, 'w) redis, string) act" where
  "simple_run X llm p mo context input verbose =
     bindS (liftR (context_vars context)) (\<lambda>vars.
     bindS (liftR (prompt_render (ex_inja X) p vars)) (\<lambda>rendered.
       let request = (if rendered \<noteq> [] then rendered @ nl @ nl else rendered) @ input;
           output = (if verbose then request @ nl @ nl else [])
       in bindS (on_llm mo (llm_predict (ex_outside X) (ex_json X) request (li_params llm))) (\<lambda>ans.
          returnS (output @ ans))))"

definition search_run ::
    "('g, 'w) ext \<Rightarrow> llm_info \<Rightarrow> prompt \<Rightarrow> string \<Rightarrow> u64 \<Rightarrow> nat \<Rightarrow> json \<Rightarrow> string \<Rightarrow> bool \<Rightarrow> (('g, 'w) redis, string) act" where
  "search_run X llm p vector_store k mo context input verbose =
     bindS (find_store vector_store) (\<lambda>(so, lo).
     bindS (read_store so (\<lambda>s. Inr (li_params (vs_llm s)))) (\<lambda>params.
     bindS (on_llm lo (llm_embedding (ex_outside X) (ex_json X) input params)) (\<lambda>embedding.
     bindS (read_store so (vs_knn (store_ops X) embedding k)) (\<lambda>neighbors.
     bindS (read_store so (\<lambda>s. Inr (data_of_all neighbors s))) (\<lambda>items.
     bindS (liftR (bindR (context_vars context) (\<lambda>vars.
            bindR (jput vars ''question'' (JString input)) (\<lambda>vars1.
            jput vars1 ''context'' (JString (join_lines [] items)))))) (\<lambda>vars.
     bindS (liftR (prompt_render (ex_inja X) p vars)) (\<lambda>request.
     bindS (on_llm mo (llm_predict (ex_outside X) (ex_json X) request (li_params llm))) (\<lambda>ans.
     returnS ((if verbose then request @ nl @ nl else []) @ ans)))))))))"

text \<open>A summary that \<open>chat\<close> has stored is sent to the replicas as an addition with its identifier.\<close>

definition replicate_summary :: "string \<Rightarrow> u64 \<times> string \<times> vector \<Rightarrow> (('g, 'w) redis, unit) act" where
  "replicate_summary vector_store res =
     (case res of (i, data, embedding) \<Rightarrow>
        if 0 < i then
          replicate_cmd [''LLM.ADD'', vector_store, ''--ID'', u64_to_string i, ''--EMBEDDING'', dump_embedding embedding, data]
        else returnS ())"

definition chat_run ::
    "('g, 'w) ext \<Rightarrow> nat \<Rightarrow> prompt \<Rightarrow> string \<Rightarrow> nat \<Rightarrow> string \<Rightarrow> (('g, 'w) redis, string) act" where
  "chat_run X ao p vector_store mo input =
     bindS (find_store vector_store) (\<lambda>(so, lo).
     bindS (history X ao lo so input) (\<lambda>(summary, recent_history).
     bindS (liftR (bindR (jput JNull ''history'' (JString summary)) (prompt_render (ex_inja X) p))) (\<lambda>system_msg.
     bindS (on_llm mo (llm_chat (ex_outside X) (ex_json X) input system_msg recent_history JNull)) (\<lambda>reply.
     bindS (history_add X ao lo so ''user'' input) (\<lambda>user_res.
     bindS (history_add X ao lo so ''assistant'' reply) (\<lambda>assistant_res.
     bindS (replicate_summary vector_store user_res) (\<lambda>_.
     bindS (replicate_summary vector_store assistant_res) (\<lambda>_.
     returnS reply))))))))"

text \<open>\<open>Application::run\<close>.\<close>

definition app_run :: "('g, 'w) ext \<Rightarrow> nat \<Rightarrow> nat \<Rightarrow> json \<Rightarrow> string \<Rightarrow> bool \<Rightarrow> (('g, 'w) redis, string) act" where
  "app_run X ao mo context input verbose =
     bindS (read_app ao) (\<lambda>app.
       case ap_impl app of
         SimpleApplication p \<Rightarrow> simple_run X (ap_llm app) p mo context input verbose
       | SearchApplication p vector_store k \<Rightarrow> search_run X (ap_llm app) p vector_store k mo context input verbose
       | ChatApplication p h vector_store \<Rightarrow> chat_run X ao p vector_store mo input)"

section \<open>Every run keeps the invariant\<close>

abbreviation anything :: "exn \<Rightarrow> bool" where
  "anything e \<equiv> True"

lemma obeys_anything: "(\<And>s r s'. P s \<Longrightarrow> m s = (r, s') \<Longrightarrow> P s') \<Longrightarrow> obeys anything P m"
  by (rule obeysI) simp

lemma obeys_askS [obeys_intros]: "obeys anything P (askS f)"
  by (rule obeysI) (auto simp: askS_def)

lemma obeys_liftR_any [obeys_intros]: "obeys anything P (liftR r)"
  by (rule obeysI) auto

lemma obeys_read [obeys_intros]: "obeys anything P (read_store i f)" "obeys anything P (read_app i)"
  by (auto intro!: obeysI simp: read_store_def read_app_def split: option.splits)

lemma redis_inv_store:
  "redis_inv st \<Longrightarrow> rd_stores st i = Some s \<Longrightarrow> store_ok s' \<Longrightarrow> redis_inv (st\<lparr>rd_stores := (rd_stores st)(i \<mapsto> s')\<rparr>)"
proof -
  assume a: "redis_inv st" "rd_stores st i = Some s" "store_ok s'"
  have "value_ok (st\<lparr>rd_stores := (rd_stores st)(i \<mapsto> s')\<rparr>) v = value_ok st v" for v using a(2) by (cases v) auto
  then show ?thesis using a by (simp add: redis_inv_def keys_ok_def objects_ok_def)
qed

lemma redis_inv_llm:
  "redis_inv st \<Longrightarrow> rd_llms st i = Some s \<Longrightarrow> llm_inv s' \<Longrightarrow> redis_inv (st\<lparr>rd_llms := (rd_llms st)(i \<mapsto> s'), rd_world := w\<rparr>)"
proof -
  assume a: "redis_inv st" "rd_llms st i = Some s" "llm_inv s'"
  have "value_ok (st\<lparr>rd_llms := (rd_llms st)(i \<mapsto> s'), rd_world := w\<rparr>) v = value_ok st v" for v using a(2) by (cases v) auto
  then show ?thesis using a by (simp add: redis_inv_def keys_ok_def objects_ok_def)
qed

lemma redis_inv_app:
  "redis_inv st \<Longrightarrow> rd_apps st i = Some s \<Longrightarrow> redis_inv (st\<lparr>rd_apps := (rd_apps st)(i \<mapsto> s')\<rparr>)"
proof -
  assume a: "redis_inv st" "rd_apps st i = Some s"
  have "value_ok (st\<lparr>rd_apps := (rd_apps st)(i \<mapsto> s')\<rparr>) v = value_ok st v" for v using a(2) by (cases v) auto
  then show ?thesis using a by (simp add: redis_inv_def keys_ok_def objects_ok_def)
qed

lemma obeys_on_store:
  assumes "\<And>s r s'. store_ok s \<Longrightarrow> m s = (r, s') \<Longrightarrow> store_ok s'"
  shows "obeys anything redis_inv (on_store i m)"
proof (rule obeys_anything)
  fix st st' :: "('a, 'c) redis" and r assume inv: "redis_inv st" and on: "on_store i m st = (r, st')"
  show "redis_inv st'"
  proof (cases "rd_stores st i")
    case None
    then show ?thesis using inv on by (simp add: on_store_def)
  next
    case (Some s)
    have "store_ok s" using inv Some by (simp add: redis_inv_def objects_ok_def)
    then show ?thesis using on Some assms redis_inv_store [OF inv Some] by (auto simp: on_store_def split: prod.splits)
  qed
qed

lemma obeys_on_llm:
  assumes "\<And>type conf. obeys is_Error (llm_state_ok type conf) m"
  shows "obeys anything redis_inv (on_llm i m)"
proof (rule obeys_anything)
  fix st st' :: "('c, 'a) redis" and r assume inv: "redis_inv st" and on: "on_llm i m st = (r, st')"
  show "redis_inv st'"
  proof (cases "rd_llms st i")
    case None
    then show ?thesis using inv on by (simp add: on_llm_def)
  next
    case (Some lm)
    obtain r1 lm1 w1 where m: "m (lm, rd_world st) = (r1, (lm1, w1))" by (metis prod.exhaust)
    have "llm_state_ok (lm_type lm) (lm_conf lm) (lm, rd_world st)"
      using inv Some by (simp add: redis_inv_def objects_ok_def llm_state_ok_def)
    then have "llm_inv lm1" using obeys_state [OF assms _ m] by (simp add: llm_state_ok_def)
    then show ?thesis using on Some m redis_inv_llm [OF inv Some] by (auto simp: on_llm_def)
  qed
qed

lemma obeys_on_history [obeys_intros]: "obeys anything redis_inv (on_history ao m)"
  by (rule obeys_anything)
    (auto simp: on_history_def split: option.splits app_impl.splits prod.splits intro: redis_inv_app)

lemma obeys_replicate [obeys_intros]: "obeys E redis_inv (replicate_cmd argv)"
  unfolding replicate_cmd_def by (intro obeys_intros, erule redis_inv_frame) simp_all

lemma obeys_case_option [obeys_intros]:
  "obeys E P m \<Longrightarrow> (\<And>y. obeys E P (f y)) \<Longrightarrow> obeys E P (case x of None \<Rightarrow> m | Some y \<Rightarrow> f y)"
  by (cases x) simp_all

lemma obeys_case_prod [obeys_intros]: "(\<And>x y. obeys E P (f x y)) \<Longrightarrow> obeys E P (case p of (x, y) \<Rightarrow> f x y)"
  by (cases p) simp

lemma obeys_Let [obeys_intros]: "(\<And>x. obeys E P (f x)) \<Longrightarrow> obeys E P (let x = a in f x)"
  by simp

section \<open>What a run may do\<close>

text \<open>
  \<open>run_property P X\<close>: the operations that commands, tasks and applications perform on the shared objects keep
  \<open>P\<close>.  The invariant of the module is such a property, and so is every property of the clients and the
  queue alone.
\<close>

locale run_property =
  fixes P :: "('g, 'w) redis \<Rightarrow> bool" and X :: "('g, 'w) ext"
  assumes on_add_auto: "obeys anything P (on_store so (vs_add_auto (store_ops X) data emb))"
    and on_add: "obeys anything P (on_store so (vs_add (store_ops X) i data emb))"
    and on_rem: "obeys anything P (on_store so (vs_rem (store_ops X) i))"
    and on_embedding: "obeys anything P (on_llm lo (llm_embedding (ex_outside X) (ex_json X) input params))"
    and on_predict: "obeys anything P (on_llm lo (llm_predict (ex_outside X) (ex_json X) input params))"
    and on_chat: "obeys anything P (on_llm lo (llm_chat (ex_outside X) (ex_json X) input sys h params))"
    and on_history_get: "obeys anything P (on_history ao (getS id))"
    and on_history_set: "obeys anything P (on_history ao (modifyS u))"
    and on_log: "obeys anything P (replicate_cmd argv)"
begin

lemmas steps = on_add_auto on_add on_rem on_embedding on_predict on_chat on_history_get on_history_set on_log obeys_intros

lemma app_run_obeys: "obeys anything P (app_run X ao mo context input verbose)"
proof -
  have f: "obeys anything P (find_store name)" for name :: string
    unfolding find_store_def by (intro steps TrueI)
  have s: "obeys anything P (simple_run X llm p mo context input verbose)" for llm p
    unfolding simple_run_def by (intro steps)
  have se: "obeys anything P (search_run X llm p vs k mo context input verbose)" for llm p vs k
    unfolding search_run_def by (intro steps f)
  have h: "obeys anything P (history X ao lo so input)" for lo so
    unfolding history_def get_history_summary_def by (intro steps)
  have a: "obeys anything P (history_add X ao lo so role message)" for lo so role message
    unfolding history_add_def summarize_if_needed_def summarize_def by (intro steps)
  have c: "obeys anything P (chat_run X ao p vs mo input)" for p vs
    unfolding chat_run_def replicate_summary_def by (intro steps f h a)
  show ?thesis
    unfolding app_run_def by (intro steps) (auto split: app_impl.split intro: s se c)
qed

end

lemma redis_inv_run:
  assumes "json_text_ok (ex_json X)"
  shows "run_property redis_inv X"
proof -
  note m = obeys_on_llm [OF llm_obeys(1) [OF assms]] obeys_on_llm [OF llm_obeys(2) [OF assms]]
    obeys_on_llm [OF llm_obeys(3) [OF assms]] obeys_on_store [OF vs_add_auto_store_ok] obeys_on_store [OF vs_add_store_ok]
    obeys_on_store [OF vs_rem_store_ok(1)] obeys_intros
  show ?thesis by (intro run_property.intro m)
qed

text \<open>A property of the clients, the queue and the client counter.\<close>

definition queue_property :: "((nat \<Rightarrow> client_state option) \<Rightarrow> task worker_pool \<Rightarrow> nat \<Rightarrow> bool) \<Rightarrow> ('g, 'w) redis \<Rightarrow> bool" where
  "queue_property Q st = Q (rd_clients st) (rd_workers st) (rd_next_client st)"

lemma queue_property_frame:
  assumes "\<And>st r st'. m st = (r, st') \<Longrightarrow>
    rd_clients st' = rd_clients st \<and> rd_workers st' = rd_workers st \<and> rd_next_client st' = rd_next_client st"
  shows "obeys anything (queue_property Q) m"
  by (rule obeys_anything) (auto simp: queue_property_def dest!: assms)

interpretation qp: run_property "queue_property Q" X for Q and X :: "('g, 'w) ext"
  by unfold_locales
    (rule queue_property_frame;
     auto simp: on_store_def on_llm_def on_history_def replicate_cmd_def split: option.splits prod.splits app_impl.splits)+

end
