(* ===== verification/Commands.thy ===== *)
theory Commands
  imports App_Run
begin

text \<open>
  The command classes: \<open>Command::run\<close>, the bodies \<open>_run\<close> of the eleven commands, the tasks they give to the
  workers, and the functions that reply to a blocked client.
\<close>

section \<open>\<open>Command::run\<close>\<close>

text \<open>
  The two handlers.  Any other exception leaves a function that C code has called, which ends the
  process.
\<close>

definition command_run :: "(('g, 'w) redis, reply) act \<Rightarrow> (('g, 'w) redis, reply) act" where
  "command_run body =
     catchS is_StdException
       (catchS is_Error body (\<lambda>e. returnS (if e = WrongArityError then RWrongArity else reply_with_error e)))
       (\<lambda>e. throwS Abort)"

text \<open>
  \<open>RedisModule_BlockClient\<close>, then \<open>enqueue\<close>; when the queue is full, \<open>RedisModule_AbortBlock\<close> and an
  error reply.
\<close>

definition block_and_enqueue :: "(nat \<Rightarrow> task) \<Rightarrow> (('g, 'w) redis, reply) act" where
  "block_and_enqueue mk st =
     (let c = rd_next_client st;
          st1 = st\<lparr>rd_clients := (rd_clients st)(c \<mapsto> Waiting), rd_next_client := Suc c\<rparr>
      in case wp_enqueue (mk c) (rd_workers st1) of
           (Inl e, _) \<Rightarrow>
             (if is_Error e then (Inr (reply_with_error e), st1\<lparr>rd_clients := (rd_clients st1)(c := None)\<rparr>)
              else (Inl e, st1))
         | (Inr _, p) \<Rightarrow> (Inr RBlocked, st1\<lparr>rd_workers := p\<rparr>))"

section \<open>Commands on a vector store\<close>

text \<open>LLM.ADD: with an embedding at once, otherwise by a worker.\<close>

definition blocking_add :: "add_args \<Rightarrow> (('g, 'w) redis, reply) act" where
  "blocking_add args =
     bindS (askS (get_value_by_key VectorStoreType (aa_key args))) (\<lambda>s.
       case s of None \<Rightarrow> throwS (Error ''vector store does not exist'')
       | Some so \<Rightarrow>
           bindS (read_store so (\<lambda>s. Inr (li_key (vs_llm s)))) (\<lambda>key.
           bindS (askS (get_value_by_key LlmType key)) (\<lambda>l.
             case l of None \<Rightarrow> throwS (Error ''LLM model for vector store does not exist'')
             | Some lo \<Rightarrow> block_and_enqueue (\<lambda>c. AddTask c args so lo))))"

definition add_now :: "('g, 'w) ext \<Rightarrow> add_args \<Rightarrow> (('g, 'w) redis, u64) act" where
  "add_now X args =
     bindS (askS (get_value_by_key VectorStoreType (aa_key args))) (\<lambda>s.
       case s of None \<Rightarrow> throwS (Error ''vector store does not exist'')
       | Some so \<Rightarrow>
           (case aa_id args of
              Some i \<Rightarrow> bindS (on_store so (vs_add (store_ops X) i (aa_data args) (aa_embedding args))) (\<lambda>_. returnS i)
            | None \<Rightarrow> on_store so (vs_add_auto (store_ops X) (aa_data args) (aa_embedding args))))"

definition add_command :: "('g, 'w) ext \<Rightarrow> string list \<Rightarrow> (('g, 'w) redis, reply) act" where
  "add_command X argv =
     bindS (liftR (add_parse_args argv)) (\<lambda>args.
       if aa_embedding args = [] then blocking_add args
       else bindS (add_now X args) (\<lambda>i. bindS (replicate_cmd argv) (\<lambda>_. returnS (RLong i))))"

definition rem_command :: "('g, 'w) ext \<Rightarrow> string list \<Rightarrow> (('g, 'w) redis, reply) act" where
  "rem_command X argv =
     bindS (liftR (id_parse_args argv)) (\<lambda>args.
     bindS (bindS (askS (get_value_by_key VectorStoreType (ia_key args))) (\<lambda>s.
              case s of None \<Rightarrow> returnS 0
              | Some so \<Rightarrow> bindS (on_store so (vs_rem (store_ops X) (ia_id args))) (\<lambda>b. returnS (if b then 1 else 0)))) (\<lambda>res.
     bindS (replicate_cmd argv) (\<lambda>_. returnS (RLong res))))"

definition get_command :: "('g, 'w) ext \<Rightarrow> string list \<Rightarrow> (('g, 'w) redis, reply) act" where
  "get_command X argv =
     bindS (liftR (id_parse_args argv)) (\<lambda>args.
     bindS (askS (get_value_by_key VectorStoreType (ia_key args))) (\<lambda>s.
       case s of None \<Rightarrow> returnS RNull
       | Some so \<Rightarrow>
           bindS (read_store so (\<lambda>s. Inr (vs_data_of (ia_id args) s))) (\<lambda>data.
             case data of None \<Rightarrow> returnS RNull
             | Some d \<Rightarrow>
                 bindS (read_store so (vs_get (store_ops X) (ia_id args))) (\<lambda>embedding.
                   case embedding of None \<Rightarrow> returnS RNull
                   | Some v \<Rightarrow> returnS (RArray [RBulk d, RBulk (dump_embedding v)])))))"

definition size_command :: "string list \<Rightarrow> (('g, 'w) redis, reply) act" where
  "size_command argv =
     bindS (liftR (size_parse_args argv)) (\<lambda>key.
     bindS (askS (get_value_by_key VectorStoreType key)) (\<lambda>s.
       case s of None \<Rightarrow> returnS (RLong 0)
       | Some so \<Rightarrow> read_store so (\<lambda>s. Inr (RLong (of_nat (length (vs_data s)))))))"

definition knn_command :: "string list \<Rightarrow> (('g, 'w) redis, reply) act" where
  "knn_command argv =
     bindS (liftR (knn_parse_args argv)) (\<lambda>args.
     bindS (askS (get_value_by_key VectorStoreType (ka_key args))) (\<lambda>s.
       case s of None \<Rightarrow> throwS (Error ''vector store does not exist'')
       | Some so \<Rightarrow>
           bindS (if ka_embedding args = [] then
                    if ka_query args = [] then throwS (Error ''no query is specified'')
                    else
                      bindS (read_store so (\<lambda>s. Inr (li_key (vs_llm s)))) (\<lambda>key.
                      bindS (askS (get_value_by_key LlmType key)) (\<lambda>l.
                        case l of None \<Rightarrow> throwS (Error ''LLM model for vector store does not exist'')
                        | Some lo \<Rightarrow> returnS (Some lo)))
                  else returnS None)
             (\<lambda>lo. block_and_enqueue (\<lambda>c. KnnTask c args so lo))))"

section \<open>LLM.RUN and the LLM.CREATE commands\<close>

definition run_command :: "('g, 'w) ext \<Rightarrow> string list \<Rightarrow> (('g, 'w) redis, reply) act" where
  "run_command X argv =
     bindS (liftR (run_parse_args (ex_json X) argv)) (\<lambda>args.
     bindS (askS (get_value_by_key AppType (ra_key args))) (\<lambda>a.
       case a of None \<Rightarrow> throwS (Error ''Application does not exist'')
       | Some ao \<Rightarrow>
           bindS (read_app ao) (\<lambda>app.
           bindS (askS (get_value_by_key LlmType (li_key (ap_llm app)))) (\<lambda>l.
             case l of None \<Rightarrow> throwS (Error ''LLM model not exist'')
             | Some lo \<Rightarrow> block_and_enqueue (\<lambda>c. RunTask c args ao lo)))))"

text \<open>The common \<open>_create\<close>: a key, a new object, the value; then the reply and the replication.\<close>

definition create_object ::
    "mtype \<Rightarrow> (nat \<Rightarrow> rvalue) \<Rightarrow> (create_args \<Rightarrow> (('g, 'w) redis, nat) act) \<Rightarrow> create_args res \<Rightarrow> string list
      \<Rightarrow> (('g, 'w) redis, reply) act" where
  "create_object t mk create args_res argv =
     bindS (bindS (liftR args_res) (\<lambda>args.
            bindS (askS (create_key t (ca_key args) (ca_opt args))) (\<lambda>key.
              if \<not> key then returnS 0
              else bindS (create args) (\<lambda>i. bindS (modifyS (set_value (ca_key args) (mk i))) (\<lambda>_. returnS 1))))) (\<lambda>res.
     bindS (replicate_cmd argv) (\<lambda>_. returnS (RLong res)))"

definition create_llm_command :: "('g, 'w) ext \<Rightarrow> string list \<Rightarrow> (('g, 'w) redis, reply) act" where
  "create_llm_command X argv =
     create_object LlmType RLlm (\<lambda>args. create_llm X (ca_type args) (ca_params args))
       (create_llm_parse_args (ex_json X) argv) argv"

definition create_vector_store_command :: "('g, 'w) ext \<Rightarrow> string list \<Rightarrow> (('g, 'w) redis, reply) act" where
  "create_vector_store_command X argv =
     create_object VectorStoreType RVector (\<lambda>args. create_vector_store (ca_type args) (ca_params args) (ca_llm args))
       (create_store_parse_args (ex_json X) argv) argv"

text \<open>\<open>CreateAppCommand::_create\<close>, with the virtual \<open>_parse_args\<close> of the class as an argument.\<close>

definition create_application_command ::
    "('g, 'w) ext \<Rightarrow> (json_text \<Rightarrow> string list \<Rightarrow> create_args res) \<Rightarrow> string list \<Rightarrow> (('g, 'w) redis, reply) act" where
  "create_application_command X parse_args argv =
     create_object AppType RApp (\<lambda>args. create_application X (ca_type args) (ca_llm args) (ca_params args))
       (parse_args (ex_json X) argv) argv"

definition create_app_command :: "('g, 'w) ext \<Rightarrow> string list \<Rightarrow> (('g, 'w) redis, reply) act" where
  "create_app_command X = create_application_command X create_app_parse_args"

definition create_chat_command :: "('g, 'w) ext \<Rightarrow> string list \<Rightarrow> (('g, 'w) redis, reply) act" where
  "create_chat_command X = create_application_command X create_chat_parse_args"

definition create_search_command :: "('g, 'w) ext \<Rightarrow> string list \<Rightarrow> (('g, 'w) redis, reply) act" where
  "create_search_command X = create_application_command X create_search_parse_args"

section \<open>The command table\<close>

text \<open>\<open>cmd::create_commands\<close>: the names with their flags and handlers.\<close>

definition command_table ::
    "('g, 'w) ext \<Rightarrow> (string \<times> string \<times> (string list \<Rightarrow> (('g, 'w) redis, reply) act)) list" where
  "command_table X =
     [(''LLM.CREATE-APP'', ''write deny-oom'', create_app_command X),
      (''LLM.CREATE-CHAT'', ''write deny-oom'', create_chat_command X),
      (''LLM.CREATE-SEARCH'', ''write deny-oom'', create_search_command X),
      (''LLM.CREATE-LLM'', ''write deny-oom'', create_llm_command X),
      (''LLM.CREATE-VECTOR-STORE'', ''write deny-oom'', create_vector_store_command X),
      (''LLM.ADD'', ''write deny-oom'', add_command X),
      (''LLM.REM'', ''write deny-oom'', rem_command X),
      (''LLM.GET'', ''readonly'', get_command X),
      (''LLM.RUN'', ''readonly'', run_command X),
      (''LLM.KNN'', ''readonly'', knn_command),
      (''LLM.SIZE'', ''readonly'', size_command)]"

definition find_command ::
    "('g, 'w) ext \<Rightarrow> string \<Rightarrow> (string \<times> (string list \<Rightarrow> (('g, 'w) redis, reply) act)) option" where
  "find_command X name = map_option snd (find (\<lambda>(n, _, _). str_case_equal name n) (command_table X))"

text \<open>A command sent by a client or by a primary; an unknown name does not reach the module.\<close>

definition exec_command :: "('g, 'w) ext \<Rightarrow> string list \<Rightarrow> (('g, 'w) redis, reply) act" where
  "exec_command X argv =
     (case argv of
        [] \<Rightarrow> returnS (RError ''ERR'')
      | name # _ \<Rightarrow>
          (case find_command X name of
             None \<Rightarrow> returnS (RError (''ERR unknown command''))
           | Some (flags, body) \<Rightarrow> command_run (body argv)))"

section \<open>Tasks\<close>

text \<open>\<open>_async_add\<close>, \<open>KnnCommand::_knn\<close> and \<open>_run_impl\<close> inside their \<open>try\<close>.\<close>

definition async_add :: "('g, 'w) ext \<Rightarrow> add_args \<Rightarrow> nat \<Rightarrow> nat \<Rightarrow> (('g, 'w) redis, add_result) act" where
  "async_add X args so lo =
     bindS (read_store so (\<lambda>s. Inr (li_params (vs_llm s)))) (\<lambda>params.
     bindS (on_llm lo (llm_embedding (ex_outside X) (ex_json X) (aa_data args) params)) (\<lambda>embedding.
     bindS (case aa_id args of
              Some i \<Rightarrow> on_store so (vs_add (store_ops X) i (aa_data args) embedding)
            | None \<Rightarrow> on_store so (vs_add_auto (store_ops X) (aa_data args) embedding)) (\<lambda>i.
     returnS \<lparr>ar_key = aa_key args, ar_id = i, ar_auto_gen_id = (aa_id args = None),
              ar_embedding = dump_embedding embedding, ar_data = aa_data args\<rparr>)))"

definition async_knn :: "('g, 'w) ext \<Rightarrow> knn_args \<Rightarrow> nat \<Rightarrow> nat option \<Rightarrow> (('g, 'w) redis, (u64 \<times> f32) list) act" where
  "async_knn X args so lo =
     (if ka_embedding args = [] then
        (case lo of
           None \<Rightarrow> throwS Undefined
         | Some l \<Rightarrow>
             bindS (read_store so (\<lambda>s. Inr (li_params (vs_llm s)))) (\<lambda>params.
             bindS (on_llm l (llm_embedding (ex_outside X) (ex_json X) (ka_query args) params)) (\<lambda>query.
             read_store so (vs_knn (store_ops X) query (ka_k args)))))
      else read_store so (vs_knn (store_ops X) (ka_embedding args) (ka_k args)))"

definition async_run :: "('g, 'w) ext \<Rightarrow> run_args \<Rightarrow> nat \<Rightarrow> nat \<Rightarrow> (('g, 'w) redis, string) act" where
  "async_run X args ao mo =
     bindS (liftR (if ra_vars args \<noteq> JNull then jput JNull ''vars'' (ra_vars args) else Inr JNull)) (\<lambda>context.
     app_run X ao mo context (ra_input args) (ra_verbose args))"

fun task_client :: "task \<Rightarrow> nat" where
  "task_client (AddTask c _ _ _) = c"
| "task_client (KnnTask c _ _ _) = c"
| "task_client (RunTask c _ _ _) = c"

text \<open>An \<open>Error\<close> becomes part of the result; any other exception ends the task before it unblocks the client.\<close>

definition caught :: "(('g, 'w) redis, 'a) act \<Rightarrow> (('g, 'w) redis, 'a res) act" where
  "caught m = catchS is_Error (bindS m (\<lambda>x. returnS (Inr x))) (\<lambda>e. returnS (Inl e))"

fun run_task :: "('g, 'w) ext \<Rightarrow> task \<Rightarrow> (('g, 'w) redis, nat \<times> async_result) act" where
  "run_task X (AddTask c args so lo) = bindS (caught (async_add X args so lo)) (\<lambda>r. returnS (c, AddResult r))"
| "run_task X (KnnTask c args so lo) = bindS (caught (async_knn X args so lo)) (\<lambda>r. returnS (c, KnnResult r))"
| "run_task X (RunTask c args ao mo) = bindS (caught (async_run X args ao mo)) (\<lambda>r. returnS (c, RunResult r))"

text \<open>\<open>RedisModule_UnblockClient\<close>: for a client that has timed out, the private data is freed.\<close>

definition unblock_client :: "nat \<Rightarrow> async_result \<Rightarrow> ('g, 'w) redis \<Rightarrow> ('g, 'w) redis" where
  "unblock_client c res st =
     (if rd_clients st c = Some Waiting then st\<lparr>rd_clients := (rd_clients st)(c \<mapsto> Unblocked res)\<rparr> else st)"

text \<open>The running task number \<open>i\<close> runs to its end; the \<open>packaged_task\<close> keeps an exception.\<close>

definition finish_task :: "('g, 'w) ext \<Rightarrow> nat \<Rightarrow> (('g, 'w) redis, unit) act" where
  "finish_task X i st =
     catchS is_StdException
       (bindS (run_task X (wp_running (rd_workers st) ! i)) (\<lambda>(c, res). modifyS (unblock_client c res)))
       (\<lambda>e. returnS ())
     (st\<lparr>rd_workers := wp_finish i (rd_workers st)\<rparr>)"

section \<open>Replies to blocked clients\<close>

text \<open>The \<open>_reply_func\<close> of the three commands.\<close>

definition add_reply :: "add_result res \<Rightarrow> (('g, 'w) redis, reply) act" where
  "add_reply r =
     (case r of
        Inl e \<Rightarrow> returnS (reply_with_error e)
      | Inr res \<Rightarrow>
          bindS (replicate_cmd
            (if ar_auto_gen_id res then [''LLM.ADD'', ar_key res, ''--EMBEDDING'', ar_embedding res, ar_data res]
             else [''LLM.ADD'', ar_key res, ''--ID'', u64_to_string (ar_id res), ''--EMBEDDING'', ar_embedding res, ar_data res]))
            (\<lambda>_. returnS (RLong (ar_id res))))"

definition knn_reply :: "(u64 \<times> f32) list res \<Rightarrow> reply" where
  "knn_reply r =
     (case r of Inl e \<Rightarrow> reply_with_error e
      | Inr neighbors \<Rightarrow> RArray (map (\<lambda>(i, dist). RArray [RLong i, RDouble dist]) neighbors))"

definition run_reply :: "string res \<Rightarrow> reply" where
  "run_reply r = (case r of Inl e \<Rightarrow> reply_with_error e | Inr output \<Rightarrow> RBulk output)"

fun reply_func :: "async_result \<Rightarrow> (('g, 'w) redis, reply) act" where
  "reply_func (AddResult r) = add_reply r"
| "reply_func (KnnResult r) = returnS (knn_reply r)"
| "reply_func (RunResult r) = returnS (run_reply r)"

definition timeout_func :: reply where
  "timeout_func = RNull"

section \<open>Every step keeps the invariant\<close>

lemma obeys_block_and_enqueue: "obeys anything redis_inv (block_and_enqueue mk)"
  by (rule obeys_anything)
    (auto simp: block_and_enqueue_def Let_def split: prod.splits sum.splits if_splits elim!: redis_inv_frame)

lemma obeys_create_object:
  assumes "\<And>args st r st1. redis_inv st \<Longrightarrow> create args st = (r, st1) \<Longrightarrow>
    (case r of Inl e \<Rightarrow> redis_inv st1 | Inr i \<Rightarrow> new_object st i (mk i) st1)"
  shows "obeys anything redis_inv (create_object t mk create args_res argv)"
proof -
  have m: "obeys anything redis_inv (bindS (create args) (\<lambda>i. bindS (modifyS (set_value k (mk i))) (\<lambda>_. returnS (1 :: u64))))"
    for args and k :: string
  proof (rule obeys_anything)
    fix st st' and r :: "u64 res" assume inv: "redis_inv st"
      and b: "bindS (create args) (\<lambda>i. bindS (modifyS (set_value k (mk i))) (\<lambda>_. returnS 1)) st = (r, st')"
    from b show "redis_inv st'"
    proof (cases rule: bindS_cases)
      case (throw e)
      then show ?thesis using assms [OF inv throw(1)] by simp
    next
      case (step i st1)
      then have "st' = set_value k (mk i) st1" by (simp add: bindS_def)
      then show ?thesis using assms [OF inv step(1)] set_value_inv [OF inv] by simp
    qed
  qed
  show ?thesis unfolding create_object_def by (intro obeys_intros m)
qed

lemma create_makes:
  assumes "redis_inv st"
  shows "create_llm X type conf st = (r, st1) \<Longrightarrow> case r of Inl e \<Rightarrow> redis_inv st1 | Inr i \<Rightarrow> new_object st i (RLlm i) st1"
    and "create_vector_store type conf llm st = (r, st1) \<Longrightarrow>
      case r of Inl e \<Rightarrow> redis_inv st1 | Inr i \<Rightarrow> new_object st i (RVector i) st1"
    and "create_application X type llm conf st = (r, st1) \<Longrightarrow>
      case r of Inl e \<Rightarrow> redis_inv st1 | Inr i \<Rightarrow> new_object st i (RApp i) st1"
  using assms
  by (auto elim: create_llm_cases [OF assms] create_vector_store_cases [OF assms] create_application_cases [OF assms])

text \<open>\<open>command_property P X\<close>: \<open>P\<close> also survives what only commands do, blocking a client and creating an object.\<close>

locale command_property = run_property P X for P :: "('g, 'w) redis \<Rightarrow> bool" and X :: "('g, 'w) ext" +
  assumes on_block: "(\<And>c. task_client (mk c) = c) \<Longrightarrow> obeys anything P (block_and_enqueue mk)"
    and on_create_llm: "obeys anything P (create_llm_command X argv)"
    and on_create_store: "obeys anything P (create_vector_store_command X argv)"
    and on_create_app: "obeys anything P (create_application_command X parse argv)"
begin

lemma obeys_command_run: "obeys anything P body \<Longrightarrow> obeys anything P (command_run body)"
  unfolding command_run_def by (intro obeys_catchS obeys_intros) auto

lemma obeys_table:
  assumes "find_command X name = Some (flags, body)"
  shows "obeys anything P (body argv)"
proof -
  obtain p where p: "find (\<lambda>(n, _, _). str_case_equal name n) (command_table X) = Some p" "snd p = (flags, body)"
    using assms by (auto simp: find_command_def)
  then have "p \<in> set (command_table X)" by (metis find_Some_iff nth_mem)
  with p(2) have "(flags, body) \<in> snd ` set (command_table X)" by force
  moreover have "obeys anything P (add_command X argv)"
    unfolding add_command_def blocking_add_def add_now_def by (intro steps on_block task_client.simps TrueI)
  moreover have "obeys anything P (rem_command X argv)"
    unfolding rem_command_def by (intro steps TrueI)
  moreover have "obeys anything P (get_command X argv)" "obeys anything P (size_command argv)"
    "obeys anything P (knn_command argv)" "obeys anything P (run_command X argv)"
    unfolding get_command_def size_command_def knn_command_def run_command_def by (intro steps on_block task_client.simps TrueI)+
  ultimately show ?thesis
    using on_create_llm on_create_store on_create_app
    by (auto simp: command_table_def create_app_command_def create_chat_command_def create_search_command_def)
qed

lemma exec_obeys: "obeys anything P (exec_command X argv)"
  unfolding exec_command_def
  by (auto split: list.split option.split intro!: obeys_intros obeys_command_run dest: obeys_table)

end

lemma redis_inv_command:
  assumes J: "json_text_ok (ex_json X)"
  shows "command_property redis_inv X"
proof -
  have c: "obeys anything redis_inv (create_llm_command X argv)"
    "obeys anything redis_inv (create_vector_store_command X argv)"
    "obeys anything redis_inv (create_application_command X parse argv)" for argv parse
    unfolding create_llm_command_def create_vector_store_command_def create_application_command_def
    by (intro obeys_create_object create_makes; assumption)+
  show ?thesis
    by (intro command_property.intro redis_inv_run [OF J] command_property_axioms.intro obeys_block_and_enqueue c)
qed

lemma exec_command_inv: "json_text_ok (ex_json X) \<Longrightarrow> obeys anything redis_inv (exec_command X argv)"
  by (rule command_property.exec_obeys [OF redis_inv_command])

lemma run_task_client: "run_task X t st = (Inr (c, res), st') \<Longrightarrow> c = task_client t"
  by (cases t) (auto elim!: bindS_Inr_cases)

context run_property
begin

lemma run_task_obeys: "obeys anything P (run_task X t)"
proof -
  have c: "obeys anything P m \<Longrightarrow> obeys anything P (caught m)" for m :: "(('g, 'w) redis, 'c) act"
    unfolding caught_def by (intro obeys_catchS steps) auto
  show ?thesis
    by (cases t; simp only: run_task.simps async_add_def async_knn_def async_run_def; intro steps app_run_obeys c TrueI)
qed

lemma reply_func_obeys: "obeys anything P (reply_func res)"
  by (cases res) (auto simp: add_reply_def intro!: steps split: sum.split)

end

lemma finish_task_inv:
  assumes J: "json_text_ok (ex_json X)"
  shows "obeys anything redis_inv (finish_task X i)"
proof -
  note r = run_property.run_task_obeys [OF redis_inv_run [OF J]]
  have "redis_inv st \<Longrightarrow> redis_inv (unblock_client c res st)" for c res and st :: "('a, 'b) redis"
    by (cases "rd_clients st c = Some Waiting"; simp add: unblock_client_def) (erule redis_inv_frame; simp)
  then have "obeys anything redis_inv
     (catchS is_StdException (bindS (run_task X t) (\<lambda>(c, res). modifyS (unblock_client c res))) (\<lambda>e. returnS ()))" for t
    by (intro obeys_catchS [where E = anything] r obeys_intros) auto
  moreover have "redis_inv st \<Longrightarrow> redis_inv (st\<lparr>rd_workers := p\<rparr>)" for st :: "('a, 'b) redis" and p
    by (erule redis_inv_frame) simp_all
  ultimately show ?thesis
    unfolding finish_task_def by (intro obeys_anything) (auto dest: obeys_state)
qed

lemma reply_func_inv:
  fixes X :: "('g, 'w) ext"
  assumes "json_text_ok (ex_json X)"
  shows "obeys anything (redis_inv :: ('g, 'w) redis \<Rightarrow> bool) (reply_func res)"
  by (rule run_property.reply_func_obeys [OF redis_inv_run [OF assms]])

end
