(* ===== verification/System.thy ===== *)
theory System
  imports Commands
begin

text \<open>
  The module inside the server: clients send commands, workers take and finish tasks, the server
  delivers replies, lets blocked clients time out or disconnect, and drops or overwrites keys.  The events
  interleave in any order; a task runs to its end in one step (it holds shared pointers, and the locks
  of the store, the model and the history serialise its operations with those of the other threads).
  \<open>sy_answers\<close> and \<open>sy_lost\<close> are history: what blocked clients were sent, and the clients whose task
  ended without unblocking them.
\<close>

record ('g, 'w) system =
  sy_redis :: "('g, 'w) redis"
  sy_answers :: "(nat \<times> reply) list"
  sy_lost :: "nat set"

datatype event =
    Command "string list"
  | TakeTask
  | FinishTask nat
  | Deliver nat
  | TimeOut nat
  | Disconnect nat
  | DeleteKey string
  | OverwriteKey string

definition drop_client :: "nat \<Rightarrow> ('g, 'w) redis \<Rightarrow> ('g, 'w) redis" where
  "drop_client c st = st\<lparr>rd_clients := (rd_clients st)(c := None)\<rparr>"

text \<open>An exception that no handler takes ends the process: such a step has no successor.\<close>

inductive sys_step :: "('g, 'w) ext \<Rightarrow> ('g, 'w) system \<Rightarrow> event \<Rightarrow> ('g, 'w) system \<Rightarrow> bool" for X where
  command: "exec_command X argv (sy_redis sy) = (Inr r, st) \<Longrightarrow> sys_step X sy (Command argv) (sy\<lparr>sy_redis := st\<rparr>)"
| take_task: "wp_take (rd_workers (sy_redis sy)) = Some p \<Longrightarrow>
    sys_step X sy TakeTask (sy\<lparr>sy_redis := (sy_redis sy)\<lparr>rd_workers := p\<rparr>\<rparr>)"
| finish: "i < length (wp_running (rd_workers (sy_redis sy))) \<Longrightarrow> finish_task X i (sy_redis sy) = (Inr (), st) \<Longrightarrow>
    c = task_client (wp_running (rd_workers (sy_redis sy)) ! i) \<Longrightarrow>
    sys_step X sy (FinishTask i)
      (sy\<lparr>sy_redis := st, sy_lost := sy_lost sy \<union> (if rd_clients st c = Some Waiting then {c} else {})\<rparr>)"
| deliver: "rd_clients (sy_redis sy) c = Some (Unblocked res) \<Longrightarrow> reply_func res (sy_redis sy) = (Inr r, st) \<Longrightarrow>
    sys_step X sy (Deliver c) (sy\<lparr>sy_redis := drop_client c st, sy_answers := sy_answers sy @ [(c, r)]\<rparr>)"
| time_out: "rd_clients (sy_redis sy) c = Some x \<Longrightarrow>
    sys_step X sy (TimeOut c)
      (sy\<lparr>sy_redis := drop_client c (sy_redis sy), sy_answers := sy_answers sy @ [(c, timeout_func)]\<rparr>)"
| disconnect: "rd_clients (sy_redis sy) c = Some x \<Longrightarrow>
    sys_step X sy (Disconnect c) (sy\<lparr>sy_redis := drop_client c (sy_redis sy)\<rparr>)"
| delete: "sys_step X sy (DeleteKey k) (sy\<lparr>sy_redis := delete_key k (sy_redis sy)\<rparr>)"
| overwrite: "sys_step X sy (OverwriteKey k) (sy\<lparr>sy_redis := set_value k ROther (sy_redis sy)\<rparr>)"

inductive_cases sys_stepE: "sys_step X sy e sy'"

inductive sys_run :: "('g, 'w) ext \<Rightarrow> ('g, 'w) system \<Rightarrow> event list \<Rightarrow> ('g, 'w) system \<Rightarrow> bool" for X where
  none: "sys_run X sy [] sy"
| more: "sys_run X sy es sy1 \<Longrightarrow> sys_step X sy1 e sy2 \<Longrightarrow> sys_run X sy (es @ [e]) sy2"

definition sys_start :: "('g, 'w) redis \<Rightarrow> ('g, 'w) system" where
  "sys_start st = \<lparr>sy_redis = st, sy_answers = [], sy_lost = {}\<rparr>"

section \<open>The fate of blocked clients\<close>

definition task_clients :: "task worker_pool \<Rightarrow> nat list" where
  "task_clients p = map task_client (wp_tasks p @ wp_running p)"

text \<open>
  Every task has a client of its own; a client that waits has its task in the queue or under way (or it
  is lost); a client that has been unblocked has none; whoever got an answer waits no more.
\<close>

definition clients_ok ::
    "(nat \<times> reply) list \<Rightarrow> nat set \<Rightarrow> (nat \<Rightarrow> client_state option) \<Rightarrow> task worker_pool \<Rightarrow> nat \<Rightarrow> bool" where
  "clients_ok ans lost C p n \<longleftrightarrow>
     wp_inv p \<and> \<not> wp_quit p \<and> distinct (task_clients p) \<and> (\<forall>c\<in>set (task_clients p). c < n) \<and> (\<forall>c\<in>dom C. c < n) \<and>
     (\<forall>c. C c = Some Waiting \<longrightarrow> c \<in> set (task_clients p) \<or> c \<in> lost) \<and>
     (\<forall>c res. C c = Some (Unblocked res) \<longrightarrow> c \<notin> set (task_clients p)) \<and>
     distinct (map fst ans) \<and> (\<forall>c\<in>fst ` set ans. c < n \<and> C c = None)"

abbreviation sys_clients_ok :: "('g, 'w) system \<Rightarrow> bool" where
  "sys_clients_ok sy \<equiv> queue_property (clients_ok (sy_answers sy) (sy_lost sy)) (sy_redis sy)"

lemma clients_ok_drop: "clients_ok ans lost C p n \<Longrightarrow> clients_ok ans lost (C(c := None)) p n"
  by (auto simp: clients_ok_def)

lemma clients_ok_answer:
  "clients_ok ans lost C p n \<Longrightarrow> C c = Some x \<Longrightarrow> clients_ok (ans @ [(c, r)]) lost (C(c := None)) p n"
  unfolding clients_ok_def by auto

lemma clients_ok_enqueue:
  assumes "clients_ok ans lost C p n" and "wp_enqueue t p = (Inr u, p')" and "task_client t = n"
  shows "clients_ok ans lost (C(n \<mapsto> Waiting)) p' (Suc n)"
proof -
  have p': "p' = p\<lparr>wp_tasks := wp_tasks p @ [t], wp_accepted := wp_accepted p @ [t]\<rparr>" "wp_inv p'"
    using assms(1,2) wp_step_inv [OF wp_step.enqueue [OF assms(2)]] by (auto simp: wp_enqueue_def clients_ok_def split: if_splits)
  have "distinct (task_clients p')" "set (task_clients p') = insert n (set (task_clients p))"
    using assms(1,3) by (auto simp: clients_ok_def task_clients_def p'(1))
  moreover have "wp_quit p' = wp_quit p" by (simp add: p'(1))
  ultimately show ?thesis using assms(1) p'(2) by (auto simp: clients_ok_def less_Suc_eq)
qed

lemma clients_ok_take:
  "clients_ok ans lost C p n \<Longrightarrow> wp_take p = Some p' \<Longrightarrow> clients_ok ans lost C p' n"
proof -
  assume ok: "clients_ok ans lost C p n" and t: "wp_take p = Some p'"
  have "wp_inv p'" using wp_step_inv [OF wp_step.worker [OF t]] ok by (simp add: clients_ok_def)
  moreover have "\<not> wp_quit p'" using t ok by (auto simp: wp_take_def clients_ok_def split: if_splits list.splits)
  moreover have "mset (task_clients p') = mset (task_clients p)"
    using t by (auto simp: wp_take_def task_clients_def split: if_splits list.splits)
  then have "set (task_clients p') = set (task_clients p)" "distinct (task_clients p') = distinct (task_clients p)"
    by (rule mset_eq_setD, rule mset_eq_imp_distinct_iff)
  ultimately show ?thesis using ok by (simp add: clients_ok_def)
qed

lemma clients_ok_finish:
  assumes ok: "clients_ok ans lost C p n" and i: "i < length (wp_running p)" and c: "c = task_client (wp_running p ! i)"
    and C': "C' = C \<and> (C c = Some Waiting \<longrightarrow> c \<in> lost') \<or> (\<exists>res. C' = C(c \<mapsto> Unblocked res) \<and> C c = Some Waiting)"
    and lost: "lost \<subseteq> lost'"
  shows "clients_ok ans lost' C' (wp_finish i p) n"
proof -
  have "wp_inv (wp_finish i p)" "\<not> wp_quit (wp_finish i p) \<longleftrightarrow> \<not> wp_quit p" using wp_step_inv [OF wp_step.finish [OF i]] ok by (simp_all add: clients_ok_def wp_finish_def)
  moreover have "mset (task_clients p) = mset (c # task_clients (wp_finish i p))"
  proof -
    have "wp_running p = take i (wp_running p) @ wp_running p ! i # drop (Suc i) (wp_running p)"
      using i by (rule id_take_nth_drop)
    then have "mset (map task_client (wp_running p)) =
        mset (map task_client (take i (wp_running p) @ wp_running p ! i # drop (Suc i) (wp_running p)))" by simp
    then show ?thesis by (simp add: task_clients_def wp_finish_def c)
  qed
  then have "distinct (c # task_clients (wp_finish i p))" "set (task_clients p) = set (c # task_clients (wp_finish i p))"
    using ok mset_eq_setD mset_eq_imp_distinct_iff by (metis clients_ok_def)+
  moreover have "(\<forall>a\<in>fst ` set ans. a < n \<and> C' a = None)"
    using ok C' by (fastforce simp: clients_ok_def)
  ultimately show ?thesis using ok C' lost by (auto simp: clients_ok_def split: if_splits)
qed

interpretation cp: command_property "queue_property (clients_ok ans lost)" X for ans lost and X :: "('g, 'w) ext"
proof unfold_locales
  show "obeys anything (queue_property (clients_ok ans lost)) (block_and_enqueue mk :: (('g, 'w) redis, reply) act)"
    if "\<And>c. task_client (mk c) = c" for mk
  proof (rule obeys_anything)
    fix st st' :: "('g, 'w) redis" and r
    assume ok: "queue_property (clients_ok ans lost) st" and b: "block_and_enqueue mk st = (r, st')"
    let ?c = "rd_next_client st"
    have "clients_ok ans lost (rd_clients st) (rd_workers st) ?c" using ok by (simp add: queue_property_def)
    moreover have "clients_ok ans lost (C(?c := None)) p (Suc ?c)" if "clients_ok ans lost C p ?c" for C p
      using that by (auto simp: clients_ok_def less_Suc_eq)
    ultimately show "queue_property (clients_ok ans lost) st'"
      using b clients_ok_enqueue [of ans lost "rd_clients st" "rd_workers st" ?c "mk ?c"] that
      by (auto simp: block_and_enqueue_def queue_property_def Let_def wp_enqueue_def split: if_splits)
  qed
  have c: "obeys anything (queue_property Q) (create_object t mk create args argv :: (('g, 'w) redis, reply) act)"
    if "\<And>a st r st'. create a st = (r, st') \<Longrightarrow>
      rd_clients st' = rd_clients st \<and> rd_workers st' = rd_workers st \<and> rd_next_client st' = rd_next_client st"
    for Q t mk create args argv
    unfolding create_object_def
    by (intro qp.steps queue_property_frame [OF that]) (simp_all add: queue_property_def set_value_def)
  show "obeys anything (queue_property (clients_ok ans lost)) (create_llm_command X argv)"
    "obeys anything (queue_property (clients_ok ans lost)) (create_vector_store_command X argv)"
    "obeys anything (queue_property (clients_ok ans lost)) (create_application_command X parse argv)" for argv parse
    unfolding create_llm_command_def create_vector_store_command_def create_application_command_def
    by (rule c; auto simp: create_llm_def create_vector_store_def create_application_def register_object_def split: sum.splits)+
qed

text \<open>What \<open>finish_task\<close> does to the clients and the queue.\<close>

lemma finish_task_clients:
  assumes "finish_task X i st = (r, st')" and "c = task_client (wp_running (rd_workers st) ! i)"
  shows "rd_workers st' = wp_finish i (rd_workers st)" and "rd_next_client st' = rd_next_client st"
    and "rd_clients st' = rd_clients st \<or>
      (\<exists>res. rd_clients st' = (rd_clients st)(c \<mapsto> Unblocked res) \<and> rd_clients st c = Some Waiting)"
proof -
  let ?t = "wp_running (rd_workers st) ! i" and ?st1 = "st\<lparr>rd_workers := wp_finish i (rd_workers st)\<rparr>"
  obtain r2 st2 where run: "run_task X ?t ?st1 = (r2, st2)" by force
  have "queue_property (\<lambda>C p n. C = rd_clients st \<and> p = wp_finish i (rd_workers st) \<and> n = rd_next_client st) st2"
    by (rule obeys_state [OF qp.run_task_obeys _ run]) (simp add: queue_property_def)
  then have st2: "rd_clients st2 = rd_clients st" "rd_workers st2 = wp_finish i (rd_workers st)" "rd_next_client st2 = rd_next_client st"
    by (simp_all add: queue_property_def)
  have "st' = st2 \<or> (\<exists>res. st' = unblock_client c res st2)"
    using assms run_task_client [of X ?t ?st1 _ _ st2] run
    by (cases r2) (auto simp: finish_task_def bindS_def catchS_def split: if_splits)
  then show "rd_workers st' = wp_finish i (rd_workers st)" "rd_next_client st' = rd_next_client st"
    "rd_clients st' = rd_clients st \<or>
      (\<exists>res. rd_clients st' = (rd_clients st)(c \<mapsto> Unblocked res) \<and> rd_clients st c = Some Waiting)"
    using st2 by (auto simp: unblock_client_def)
qed

section \<open>Reachable states\<close>

lemma sys_step_clients:
  assumes step: "sys_step X sy e sy'" and ok: "sys_clients_ok sy"
  shows "sys_clients_ok sy'"
  using step
proof (cases rule: sys_step.cases)
  case (command argv r st)
  then show ?thesis using obeys_state [OF cp.exec_obeys ok] by simp
next
  case (take_task p)
  then show ?thesis using ok clients_ok_take by (auto simp: queue_property_def)
next
  case (finish i st c)
  note f = finish_task_clients [OF finish(4,5)]
  have "clients_ok (sy_answers sy) (sy_lost sy') (rd_clients st) (wp_finish i (rd_workers (sy_redis sy)))
      (rd_next_client (sy_redis sy))"
  proof (rule clients_ok_finish [OF _ finish(3,5)])
    show "rd_clients st = rd_clients (sy_redis sy) \<and> (rd_clients (sy_redis sy) c = Some Waiting \<longrightarrow> c \<in> sy_lost sy') \<or>
        (\<exists>res. rd_clients st = (rd_clients (sy_redis sy))(c \<mapsto> Unblocked res) \<and> rd_clients (sy_redis sy) c = Some Waiting)"
      using f(3) by (auto simp: finish(2))
  qed (use ok in \<open>auto simp: queue_property_def finish(2)\<close>)
  then show ?thesis using f by (simp add: queue_property_def finish(2))
next
  case (deliver c res r st)
  have "queue_property (\<lambda>C p n. C = rd_clients (sy_redis sy) \<and> p = rd_workers (sy_redis sy) \<and> n = rd_next_client (sy_redis sy)) st"
    by (rule obeys_state [OF qp.reply_func_obeys _ deliver(4)]) (simp add: queue_property_def)
  then show ?thesis using ok deliver clients_ok_answer by (fastforce simp: queue_property_def drop_client_def)
next
  case (time_out c x)
  then show ?thesis using ok clients_ok_answer by (fastforce simp: queue_property_def drop_client_def)
next
  case (disconnect c x)
  then show ?thesis using ok clients_ok_drop by (auto simp: queue_property_def drop_client_def)
next
  case (delete k)
  then show ?thesis using ok by (simp add: queue_property_def delete_key_def)
next
  case (overwrite k)
  then show ?thesis using ok by (simp add: queue_property_def set_value_def)
qed

lemma overwrite_key_inv:
  assumes inv: "redis_inv st"
  shows "redis_inv (set_value name ROther st)"
proof -
  have "key_oids ((rd_keys st)(name \<mapsto> ROther)) = key_oids (rd_keys st) - {i. key_oid (rd_keys st) name = Some i}"
    using key_oids_upd [of st name "Some ROther"] inv by (simp add: redis_inv_def)
  moreover have "keys_ok (set_value name ROther st)"
    by (rule keys_ok_update [of st _ name "Some ROther"]) (use inv in \<open>simp_all add: redis_inv_def\<close>)
  ultimately show ?thesis using inv by (simp add: redis_inv_def objects_ok_def set_value_def)
qed

lemma sys_step_inv:
  assumes J: "json_text_ok (ex_json X)" and step: "sys_step X sy e sy'" and inv: "redis_inv (sy_redis sy)"
  shows "redis_inv (sy_redis sy')"
proof -
  have w: "redis_inv (st\<lparr>rd_workers := p\<rparr>)" "redis_inv (drop_client c st)" if "redis_inv st" for st :: "('a, 'b) redis" and p c
    using that by (auto simp: drop_client_def elim: redis_inv_frame)
  show ?thesis
    using step
    by (cases rule: sys_step.cases)
      (use obeys_state [OF exec_command_inv [OF J] inv] obeys_state [OF finish_task_inv [OF J] inv]
         obeys_state [OF reply_func_inv [OF J] inv] delete_key_inv [OF inv] overwrite_key_inv [OF inv] w inv in auto)
qed

lemma sys_run_inv:
  "sys_run X sy es sy' \<Longrightarrow> json_text_ok (ex_json X) \<Longrightarrow> redis_inv (sy_redis sy) \<Longrightarrow> redis_inv (sy_redis sy')"
  by (induction rule: sys_run.induct) (auto dest: sys_step_inv)

lemma sys_run_clients: "sys_run X sy es sy' \<Longrightarrow> sys_clients_ok sy \<Longrightarrow> sys_clients_ok sy'"
  by (induction rule: sys_run.induct) (auto dest: sys_step_clients)

lemma sys_start_ok:
  assumes "redis_load argv w = Inr st"
  shows "redis_inv (sy_redis (sys_start st))" and "sys_clients_ok (sys_start st)"
  using redis_load_inv [OF assms] assms worker_pool_new_inv
  by (auto simp: sys_start_def redis_load_def queue_property_def clients_ok_def task_clients_def worker_pool_new_def)

section \<open>Every waiting client can be served\<close>

lemma sys_run_append: "sys_run X sy1 es2 sy2 \<Longrightarrow> sys_run X sy es1 sy1 \<Longrightarrow> sys_run X sy (es1 @ es2) sy2"
proof (induction rule: sys_run.induct)
  case (more sy1 es sy2 e sy3)
  then show ?case using sys_run.more [of X sy "es1 @ es" sy2 e sy3] by simp
qed simp

lemma sys_run_one: "sys_step X sy e sy' \<Longrightarrow> sys_run X sy [e] sy'"
  using sys_run.more [OF sys_run.none] by fastforce

lemma sys_run_Cons: "sys_step X sy e sy1 \<Longrightarrow> sys_run X sy1 es sy2 \<Longrightarrow> sys_run X sy (e # es) sy2"
  using sys_run_append sys_run_one by fastforce

text \<open>What the history keeps: answers and losses only grow, and a client leaves only by an answer or a disconnection.\<close>

fun worker_event :: "event \<Rightarrow> bool" where
  "worker_event TakeTask = True"
| "worker_event (FinishTask i) = True"
| "worker_event (Deliver c) = True"
| "worker_event _ = False"

definition settled :: "('g, 'w) system \<Rightarrow> nat \<Rightarrow> bool" where
  "settled sy c \<longleftrightarrow> c \<in> fst ` set (sy_answers sy) \<or> c \<in> sy_lost sy"

definition present :: "('g, 'w) system \<Rightarrow> nat set" where
  "present sy = dom (rd_clients (sy_redis sy))"

lemma worker_step_keeps:
  assumes "sys_step X sy e sy'" and "worker_event e"
  shows "settled sy c \<Longrightarrow> settled sy' c" and "c \<in> present sy \<Longrightarrow> c \<in> present sy' \<or> settled sy' c"
    and "wp_opts (rd_workers (sy_redis sy')) = wp_opts (rd_workers (sy_redis sy))"
proof -
  have "(settled sy c \<longrightarrow> settled sy' c) \<and> (c \<in> present sy \<longrightarrow> c \<in> present sy' \<or> settled sy' c) \<and>
    wp_opts (rd_workers (sy_redis sy')) = wp_opts (rd_workers (sy_redis sy))"
    using assms(1)
  proof (cases rule: sys_step.cases)
    case (finish i st c')
    then show ?thesis using finish_task_clients [OF finish(4,5)]
      by (auto simp: settled_def present_def wp_finish_def split: if_splits)
  next
    case (deliver c' res r st)
    have "queue_property (\<lambda>C p n. C = rd_clients (sy_redis sy) \<and> p = rd_workers (sy_redis sy)) st"
      by (rule obeys_state [OF qp.reply_func_obeys _ deliver(4)]) (simp add: queue_property_def)
    then show ?thesis by (auto simp: deliver settled_def present_def drop_client_def queue_property_def)
  qed (use assms(2) in \<open>auto simp: settled_def present_def wp_take_def split: if_splits list.splits\<close>)
  then show "settled sy c \<Longrightarrow> settled sy' c" "c \<in> present sy \<Longrightarrow> c \<in> present sy' \<or> settled sy' c"
    "wp_opts (rd_workers (sy_redis sy')) = wp_opts (rd_workers (sy_redis sy))" by blast+
qed

text \<open>The work that is left: taking and finishing for each queued task, finishing for each running one, an
  answer for each client that has been unblocked.\<close>

definition unblocked :: "('g, 'w) system \<Rightarrow> nat set" where
  "unblocked sy = {c. \<exists>res. rd_clients (sy_redis sy) c = Some (Unblocked res)}"

definition work :: "('g, 'w) system \<Rightarrow> nat" where
  "work sy = 3 * length (wp_tasks (rd_workers (sy_redis sy))) + 2 * length (wp_running (rd_workers (sy_redis sy))) + card (unblocked sy)"

definition crashes :: "('g, 'w) ext \<Rightarrow> ('g, 'w) system \<Rightarrow> bool" where
  "crashes X sy \<longleftrightarrow> (\<exists>i < length (wp_running (rd_workers (sy_redis sy))). \<exists>e. fst (finish_task X i (sy_redis sy)) = Inl e)"

lemma finite_unblocked:
  assumes "sys_clients_ok sy"
  shows "finite (unblocked sy)"
proof -
  have "unblocked sy \<subseteq> {..<rd_next_client (sy_redis sy)}"
    using assms by (auto simp: unblocked_def queue_property_def clients_ok_def)
  then show ?thesis by (rule finite_subset) simp
qed

lemma finish_works:
  assumes ok: "sys_clients_ok sy" and run: "wp_running (rd_workers (sy_redis sy)) \<noteq> []" and "\<not> crashes X sy"
  shows "\<exists>sy'. sys_step X sy (FinishTask 0) sy' \<and> work sy' < work sy"
proof -
  let ?p = "rd_workers (sy_redis sy)"
  obtain r st where f: "finish_task X 0 (sy_redis sy) = (r, st)" by force
  then have f0: "finish_task X 0 (sy_redis sy) = (Inr (), st)"
    using assms(2,3) by (cases r) (auto simp: crashes_def dest!: spec [of _ 0])
  let ?c = "task_client (wp_running ?p ! 0)"
  let ?sy = "sy\<lparr>sy_redis := st, sy_lost := sy_lost sy \<union> (if rd_clients st ?c = Some Waiting then {?c} else {})\<rparr>"
  note fc = finish_task_clients [OF f0 refl]
  have "unblocked ?sy \<subseteq> insert ?c (unblocked sy)" using fc(3) by (auto simp: unblocked_def split: if_splits)
  then have "card (unblocked ?sy) \<le> Suc (card (unblocked sy))"
    using finite_unblocked [OF ok] card_mono [of "insert ?c (unblocked sy)" "unblocked ?sy"]
    by (simp add: card_insert_if split: if_splits)
  moreover have "length (wp_running (rd_workers st)) + 1 = length (wp_running ?p)" "wp_tasks (rd_workers st) = wp_tasks ?p"
    using run by (simp_all add: fc(1) wp_finish_def Suc_leI)
  ultimately have "work ?sy < work sy" by (simp add: work_def)
  moreover have "sys_step X sy (FinishTask 0) ?sy" by (rule sys_step.finish [OF _ f0 refl]) (use run in simp)
  ultimately show ?thesis by blast
qed

lemma take_works:
  assumes ok: "sys_clients_ok sy" and "wp_running (rd_workers (sy_redis sy)) = []" and "wp_tasks (rd_workers (sy_redis sy)) \<noteq> []"
    and pool: "wo_pool_size (wp_opts (rd_workers (sy_redis sy))) \<noteq> 0"
  shows "\<exists>sy'. sys_step X sy TakeTask sy' \<and> work sy' < work sy"
proof -
  let ?p = "rd_workers (sy_redis sy)"
  have inv: "wp_inv ?p" "\<not> wp_quit ?p" using ok by (simp_all add: queue_property_def clients_ok_def)
  have "0 < wp_idle ?p" using inv assms(2) pool by (auto simp: wp_inv_def unat_gt_0)
  then obtain t ts p where t: "wp_tasks ?p = t # ts" "wp_take ?p = Some p" "wp_tasks p = ts" "wp_running p = [t]"
    using assms(2,3) by (cases "wp_tasks ?p") (auto simp: wp_take_def)
  then have "work (sy\<lparr>sy_redis := (sy_redis sy)\<lparr>rd_workers := p\<rparr>\<rparr>) < work sy"
    using assms(2) by (simp add: work_def unblocked_def)
  then show ?thesis using sys_step.take_task [OF t(2)] by blast
qed

lemma reply_func_returns:
  "\<exists>r st'. reply_func res st = (Inr r, st') \<and> rd_clients st' = rd_clients st \<and> rd_workers st' = rd_workers st"
proof (cases res)
  case (AddResult r)
  then show ?thesis by (cases r) (simp_all add: add_reply_def replicate_cmd_def)
qed simp_all

lemma deliver_works:
  assumes ok: "sys_clients_ok sy" and c: "c \<in> unblocked sy"
  shows "\<exists>sy'. sys_step X sy (Deliver c) sy' \<and> work sy' < work sy"
proof -
  obtain res where res: "rd_clients (sy_redis sy) c = Some (Unblocked res)" using c by (auto simp: unblocked_def)
  obtain r st where r: "reply_func res (sy_redis sy) = (Inr r, st)" "rd_clients st = rd_clients (sy_redis sy)" "rd_workers st = rd_workers (sy_redis sy)"
    using reply_func_returns by blast
  let ?sy = "sy\<lparr>sy_redis := drop_client c st, sy_answers := sy_answers sy @ [(c, r)]\<rparr>"
  have "unblocked ?sy = unblocked sy - {c}" by (auto simp: unblocked_def drop_client_def r)
  then have "work ?sy < work sy"
    using card_Diff1_less [OF finite_unblocked [OF ok] c] by (simp add: work_def drop_client_def r)
  then show ?thesis using sys_step.deliver [OF res r(1)] by blast
qed

lemma work_ends:
  assumes "sys_clients_ok sy" and "wo_pool_size (wp_opts (rd_workers (sy_redis sy))) \<noteq> 0"
  shows "\<exists>fs sy'. sys_run X sy fs sy' \<and> list_all worker_event fs \<and>
    (crashes X sy' \<or> (\<forall>c\<in>present sy. settled sy' c)) \<and> (\<forall>c. settled sy c \<longrightarrow> settled sy' c)"
  using assms
proof (induction "work sy" arbitrary: sy rule: less_induct)
  case less
  let ?p = "rd_workers (sy_redis sy)"
  have more: ?case if st: "sys_step X sy e sy1" "work sy1 < work sy" "worker_event e" for e sy1
  proof -
    note keeps = worker_step_keeps [OF st(1,3)]
    have "sys_clients_ok sy1" by (rule sys_step_clients [OF st(1) less.prems(1)])
    then obtain fs sy' where f: "sys_run X sy1 fs sy'" "list_all worker_event fs"
      "crashes X sy' \<or> (\<forall>c\<in>present sy1. settled sy' c)" "\<forall>c. settled sy1 c \<longrightarrow> settled sy' c"
      using less.hyps [OF st(2)] less.prems(2) keeps(3) by auto
    then have "sys_run X sy (e # fs) sy'" using sys_run_Cons [OF st(1)] by blast
    then show ?thesis using f keeps st(3) by (intro exI [of _ "e # fs"] exI [of _ sy']) (auto; blast)
  qed
  have stop: ?case if "crashes X sy \<or> (\<forall>c\<in>present sy. settled sy c)"
    using that sys_run.none by (intro exI [of _ "[]"] exI [of _ sy]) simp
  consider "crashes X sy" | "\<not> crashes X sy" "wp_running ?p \<noteq> []" | "wp_running ?p = []" "wp_tasks ?p \<noteq> []"
    | c where "c \<in> unblocked sy" | "wp_running ?p = []" "wp_tasks ?p = []" "unblocked sy = {}" by blast
  then show ?case
  proof cases
    case 2
    then show ?thesis using finish_works [OF less.prems(1)] more by (metis worker_event.simps(2))
  next
    case 3
    then show ?thesis using take_works [OF less.prems(1) _ _ less.prems(2)] more by (metis worker_event.simps(1))
  next
    case 4
    then show ?thesis using deliver_works [OF less.prems(1)] more by (metis worker_event.simps(3))
  next
    case 5
    have "settled sy c" if c: "c \<in> present sy" for c
    proof -
      obtain x where x: "rd_clients (sy_redis sy) c = Some x" using c by (auto simp: present_def)
      then have "x = Waiting" using 5(3) by (cases x) (auto simp: unblocked_def)
      then show ?thesis using x less.prems(1) 5 by (auto simp: settled_def queue_property_def clients_ok_def task_clients_def)
    qed
    then show ?thesis using stop by blast
  qed (use stop in blast)
qed

end
