(* ===== verification/Persistence.thy ===== *)
theory Persistence
  imports Commands
begin

text \<open>
  Persistence in \<open>redis_llm.cpp\<close>: the RDB and AOF callbacks of the three data types.  An RDB payload is
  the list of the typed values that the module writes; what the server does with a value of another
  type than the one that is read is to end the process.  An AOF payload is a list of commands.
\<close>

section \<open>RDB: writing\<close>

datatype rdb_item = RdbString string | RdbUnsigned u64 | RdbFloat f32

text \<open>Actions on what has been written; an exception leaves a truncated payload.\<close>

definition rdb_emit :: "rdb_item list \<Rightarrow> (rdb_item list, unit) act" where
  "rdb_emit xs = modifyS (\<lambda>out. out @ xs)"

definition rdb_save_config :: "json_text \<Rightarrow> json \<Rightarrow> (rdb_item list, unit) act" where
  "rdb_save_config J conf =
     bindS (liftR (catchR is_JsonException (jdump J conf) (\<lambda>e. Inl (Error ''failed to dump config''))))
       (\<lambda>config. rdb_emit [RdbString config])"

definition rdb_save_llm :: "json_text \<Rightarrow> llm_model \<Rightarrow> (rdb_item list, unit) act" where
  "rdb_save_llm J model =
     bindS (liftR (catchR is_StdException (jdump J (lm_conf model))
        (\<lambda>e. Inl (Error (''failed to dump LLM model conf: '' @ what e))))) (\<lambda>conf.
     bindS (rdb_emit [RdbString (lm_type model)]) (\<lambda>_. rdb_emit [RdbString conf]))"

definition rdb_save_app :: "json_text \<Rightarrow> application \<Rightarrow> (rdb_item list, unit) act" where
  "rdb_save_app J app =
     bindS (rdb_emit [RdbString (ap_type app)]) (\<lambda>_.
     bindS (liftR (llm_info_to_string J (ap_llm app))) (\<lambda>llm.
     bindS (rdb_emit [RdbString llm]) (\<lambda>_.
     rdb_save_config J (ap_conf app))))"

text \<open>The loop over the items; \<open>*vec\<close> of an empty optional is undefined.\<close>

fun rdb_save_items :: "'ix index_ops \<Rightarrow> 'ix vector_store \<Rightarrow> (u64 \<times> string) list \<Rightarrow> (rdb_item list, unit) act" where
  "rdb_save_items V store [] = returnS ()"
| "rdb_save_items V store ((i, data) # items) =
     bindS (rdb_emit [RdbUnsigned i, RdbString data]) (\<lambda>_.
     bindS (liftR (vs_get V i store)) (\<lambda>vec.
       case vec of
         None \<Rightarrow> throwS Undefined
       | Some v \<Rightarrow> bindS (rdb_emit (map RdbFloat v)) (\<lambda>_. rdb_save_items V store items)))"

definition rdb_save_vector_store :: "'ix index_ops \<Rightarrow> json_text \<Rightarrow> 'ix vector_store \<Rightarrow> (rdb_item list, unit) act" where
  "rdb_save_vector_store V J store =
     bindS (rdb_emit [RdbString (vs_type store)]) (\<lambda>_.
     bindS (rdb_save_config J (vs_conf store)) (\<lambda>_.
     bindS (liftR (llm_info_to_string J (vs_llm store))) (\<lambda>llm.
     bindS (rdb_emit [RdbString llm, RdbUnsigned (vs_id_idx store), RdbUnsigned (of_nat (vs_dim store)),
                      RdbUnsigned (of_nat (length (vs_data store)))]) (\<lambda>_.
     rdb_save_items V store (vs_data store)))))"

text \<open>The callbacks log an \<open>Error\<close> and return.\<close>

definition log_error :: "('s, unit) act \<Rightarrow> ('s, unit) act" where
  "log_error m = catchS is_Error m (\<lambda>e. returnS ())"

section \<open>RDB: reading\<close>

fun rdb_load_string :: "rdb_item list \<Rightarrow> (string \<times> rdb_item list) res" where
  "rdb_load_string (RdbString s # rest) = Inr (s, rest)"
| "rdb_load_string _ = Inl Abort"

fun rdb_load_number :: "rdb_item list \<Rightarrow> (u64 \<times> rdb_item list) res" where
  "rdb_load_number (RdbUnsigned n # rest) = Inr (n, rest)"
| "rdb_load_number _ = Inl Abort"

fun rdb_load_floats :: "nat \<Rightarrow> rdb_item list \<Rightarrow> (vector \<times> rdb_item list) res" where
  "rdb_load_floats 0 xs = Inr ([], xs)"
| "rdb_load_floats (Suc n) (RdbFloat x # rest) = bindR (rdb_load_floats n rest) (\<lambda>(v, rest1). Inr (x # v, rest1))"
| "rdb_load_floats (Suc n) _ = Inl Abort"

text \<open>\<open>rdb_load_vector\<close>; \<open>reserve\<close> throws above \<open>max_size()\<close>.\<close>

definition rdb_load_vector :: "u64 \<Rightarrow> rdb_item list \<Rightarrow> (vector \<times> rdb_item list) res" where
  "rdb_load_vector dim xs =
     (if 2 ^ 61 - 1 < unat dim then Inl (StdException ''vector::reserve'') else rdb_load_floats (unat dim) xs)"

definition rdb_load_config :: "json_text \<Rightarrow> rdb_item list \<Rightarrow> (json \<times> rdb_item list) res" where
  "rdb_load_config J xs =
     bindR (rdb_load_string xs) (\<lambda>(config, rest).
     bindR (catchR is_JsonException (jparse J config) (\<lambda>e. Inl (Error ''failed parse config''))) (\<lambda>conf.
     Inr (conf, rest)))"

definition rdb_load_llm_info :: "json_text \<Rightarrow> rdb_item list \<Rightarrow> (llm_info \<times> rdb_item list) res" where
  "rdb_load_llm_info J xs = bindR (rdb_load_string xs) (\<lambda>(s, rest). bindR (llm_info_of J s) (\<lambda>i. Inr (i, rest)))"

definition rdb_load_llm :: "('g, 'w) ext \<Rightarrow> rdb_item list \<Rightarrow> (('g, 'w) redis, nat) act" where
  "rdb_load_llm X xs =
     bindS (liftR (rdb_load_string xs)) (\<lambda>(type, xs1).
     bindS (liftR (rdb_load_config (ex_json X) xs1)) (\<lambda>(conf, xs2).
     create_llm X type conf))"

definition rdb_load_app :: "('g, 'w) ext \<Rightarrow> rdb_item list \<Rightarrow> (('g, 'w) redis, nat) act" where
  "rdb_load_app X xs =
     bindS (liftR (rdb_load_string xs)) (\<lambda>(type, xs1).
     bindS (liftR (rdb_load_llm_info (ex_json X) xs1)) (\<lambda>(llm, xs2).
     bindS (liftR (rdb_load_config (ex_json X) xs2)) (\<lambda>(conf, xs3).
     create_application X type llm conf)))"

fun rdb_load_items ::
    "('g, 'w) ext \<Rightarrow> nat \<Rightarrow> u64 \<Rightarrow> nat \<Rightarrow> rdb_item list \<Rightarrow> (('g, 'w) redis, rdb_item list) act" where
  "rdb_load_items X so dim 0 xs = returnS xs"
| "rdb_load_items X so dim (Suc n) xs =
     bindS (liftR (rdb_load_number xs)) (\<lambda>(i, xs1).
     bindS (liftR (rdb_load_string xs1)) (\<lambda>(val, xs2).
     bindS (liftR (rdb_load_vector dim xs2)) (\<lambda>(vec, xs3).
     bindS (on_store so (vs_add (store_ops X) i val vec)) (\<lambda>_.
     rdb_load_items X so dim n xs3))))"

definition rdb_load_vector_store :: "('g, 'w) ext \<Rightarrow> rdb_item list \<Rightarrow> (('g, 'w) redis, nat) act" where
  "rdb_load_vector_store X xs =
     bindS (liftR (rdb_load_string xs)) (\<lambda>(type, xs1).
     bindS (liftR (rdb_load_config (ex_json X) xs1)) (\<lambda>(conf, xs2).
     bindS (liftR (rdb_load_llm_info (ex_json X) xs2)) (\<lambda>(llm, xs3).
     bindS (liftR (rdb_load_number xs3)) (\<lambda>(id_idx, xs4).
     bindS (liftR (rdb_load_number xs4)) (\<lambda>(dim, xs5).
     bindS (create_vector_store type conf llm) (\<lambda>so.
     bindS (on_store so (modifyS (vs_set_id_idx id_idx))) (\<lambda>_.
     bindS (liftR (rdb_load_number xs5)) (\<lambda>(size, xs6).
     bindS (rdb_load_items X so dim (unat size) xs6) (\<lambda>_.
     returnS so)))))))))"

text \<open>The callbacks \<open>_rdb_load_llm\<close>, \<open>_rdb_load_app\<close>, \<open>_rdb_load_vector_store\<close>: the encoding version is 0; an
  \<open>Error\<close> is logged and gives a null pointer.\<close>

definition rdb_load :: "nat \<Rightarrow> (('g, 'w) redis, nat) act \<Rightarrow> (('g, 'w) redis, nat option) act" where
  "rdb_load encver m =
     catchS is_Error
       (if encver \<noteq> 0 then throwS (Error (''cannot load data of version: '' @ nat_to_string encver))
        else bindS m (\<lambda>i. returnS (Some i)))
       (\<lambda>e. returnS None)"

section \<open>AOF\<close>

text \<open>The commands written before an exception stay written.\<close>

definition aof_emit :: "string list \<Rightarrow> (string list list, unit) act" where
  "aof_emit argv = modifyS (\<lambda>out. out @ [argv])"

definition aof_rewrite_llm :: "json_text \<Rightarrow> string \<Rightarrow> llm_model \<Rightarrow> (string list list, unit) act" where
  "aof_rewrite_llm J key model =
     log_error
       (bindS (liftR (catchR is_StdException (jdump J (lm_conf model))
          (\<lambda>e. Inl (Error (''failed to dump LLM model conf: '' @ what e))))) (\<lambda>conf.
        aof_emit [''LLM.CREATE-LLM'', key, ''--TYPE'', lm_type model, ''--PARAMS'', conf]))"

definition aof_rewrite_app :: "json_text \<Rightarrow> string \<Rightarrow> application \<Rightarrow> (string list list, unit) act" where
  "aof_rewrite_app J key app =
     log_error
       (bindS (liftR (catchR is_StdException
          (bindR (llm_info_to_string J (ap_llm app)) (\<lambda>llm. bindR (jdump J (ap_conf app)) (\<lambda>conf. Inr (llm, conf))))
          (\<lambda>e. Inl (Error (''failed to dump app conf: '' @ what e))))) (\<lambda>(llm, conf).
        aof_emit [''LLM.CREATE-APP'', key, ''--TYPE'', ap_type app, ''--LLM'', llm, ''--PARAMS'', conf]))"

fun rewrite_items :: "'ix index_ops \<Rightarrow> string \<Rightarrow> 'ix vector_store \<Rightarrow> (u64 \<times> string) list \<Rightarrow> (string list list, unit) act" where
  "rewrite_items V key store [] = returnS ()"
| "rewrite_items V key store ((i, data) # items) =
     bindS (liftR (vs_get V i store)) (\<lambda>vec.
       case vec of
         None \<Rightarrow> rewrite_items V key store items
       | Some v \<Rightarrow>
           bindS (aof_emit [''LLM.ADD'', key, ''--WITHEMBEDDING'', u64_to_string i, data, dump_embedding v]) (\<lambda>_.
           rewrite_items V key store items))"

definition aof_rewrite_vector_store ::
    "'ix index_ops \<Rightarrow> json_text \<Rightarrow> string \<Rightarrow> 'ix vector_store \<Rightarrow> (string list list, unit) act" where
  "aof_rewrite_vector_store V J key store =
     log_error
       (bindS (liftR (catchR is_StdException (jdump J (vs_conf store))
          (\<lambda>e. Inl (Error (''failed to dump LLM model conf: '' @ what e))))) (\<lambda>conf.
        bindS (aof_emit [''LLM.CREATE-VECTOR-STORE'', key, ''--TYPE'', vs_type store, ''--PARAMS'', conf]) (\<lambda>_.
        rewrite_items V key store (vs_data store))))"

text \<open>The server replays an AOF by executing its commands; the replies are dropped.\<close>

fun replay :: "('g, 'w) ext \<Rightarrow> string list list \<Rightarrow> (('g, 'w) redis, reply list) act" where
  "replay X [] = returnS []"
| "replay X (argv # cmds) =
     bindS (exec_command X argv) (\<lambda>r. bindS (replay X cmds) (\<lambda>rs. returnS (r # rs)))"

section \<open>What is written\<close>

lemma rdb_save_items_eq:
  assumes "\<And>i data. (i, data) \<in> set items \<Longrightarrow> vs_get V i store = Inr (Some (vec i))"
  shows "rdb_save_items V store items out =
    (Inr (), out @ concat (map (\<lambda>(i, data). RdbUnsigned i # RdbString data # map RdbFloat (vec i)) items))"
  using assms
proof (induction items arbitrary: out)
  case Nil
  then show ?case by simp
next
  case (Cons p items)
  obtain i data where p: "p = (i, data)" by force
  have "vs_get V i store = Inr (Some (vec i))" using Cons.prems [of i data] p by simp
  moreover have "rdb_save_items V store items out' =
      (Inr (), out' @ concat (map (\<lambda>(i, data). RdbUnsigned i # RdbString data # map RdbFloat (vec i)) items))" for out'
    by (rule Cons.IH) (erule Cons.prems [OF list.set_intros(2)])
  ultimately show ?case using p by (simp add: rdb_emit_def bindS_def)
qed

lemma rewrite_items_eq:
  assumes "\<And>i data. (i, data) \<in> set items \<Longrightarrow> vs_get V i store = Inr (Some (vec i))"
  shows "rewrite_items V key store items out =
    (Inr (), out @ map (\<lambda>(i, data). [''LLM.ADD'', key, ''--WITHEMBEDDING'', u64_to_string i, data, dump_embedding (vec i)]) items)"
  using assms
proof (induction items arbitrary: out)
  case Nil
  then show ?case by simp
next
  case (Cons p items)
  obtain i data where p: "p = (i, data)" by force
  have "vs_get V i store = Inr (Some (vec i))" using Cons.prems [of i data] p by simp
  moreover have "rewrite_items V key store items out' = (Inr (), out' @
      map (\<lambda>(i, data). [''LLM.ADD'', key, ''--WITHEMBEDDING'', u64_to_string i, data, dump_embedding (vec i)]) items)" for out'
    by (rule Cons.IH) (erule Cons.prems [OF list.set_intros(2)])
  ultimately show ?case using p by (simp add: aof_emit_def bindS_def)
qed

lemma rdb_load_floats_eq: "rdb_load_floats (length v) (map RdbFloat v @ rest) = Inr (v, rest)"
  by (induction v) simp_all

end
