(* ===== verification/Rdb_Roundtrip.thy ===== *)
theory Rdb_Roundtrip
  imports Persistence
begin

text \<open>
  A vector store written to an RDB file and read back: the same items, counter and configuration.  The
  index is built anew by additions, so the proof is that none of them can fail.
\<close>

section \<open>An addition that must succeed\<close>

definition store_count :: "'g hnsw_ix vector_store \<Rightarrow> nat" where
  "store_count s = (case hx_hnsw (vs_index s) of None \<Rightarrow> 0 | Some h \<Rightarrow> length (elems h))"

abbreviation store_capacity :: "'g hnsw_ix vector_store \<Rightarrow> nat" where
  "store_capacity s \<equiv> unat (o_max_elements (hx_opts (vs_index s)))"

text \<open>The index can be allocated for dimension \<open>d\<close> with the options of the store.\<close>

definition can_alloc :: "'g graph_ops \<Rightarrow> nat \<Rightarrow> hnsw_opts \<Rightarrow> bool" where
  "can_alloc G d opts = (case hnsw_new G d (o_max_elements opts) (o_m opts) (o_ef_construction opts) of Inl _ \<Rightarrow> False | Inr _ \<Rightarrow> True)"

definition same_frame :: "'g hnsw_ix vector_store \<Rightarrow> 'g hnsw_ix vector_store \<Rightarrow> bool" where
  "same_frame s s' \<longleftrightarrow> vs_type s' = vs_type s \<and> vs_conf s' = vs_conf s \<and> vs_llm s' = vs_llm s \<and> vs_id_idx s' = vs_id_idx s \<and>
     hx_opts (vs_index s') = hx_opts (vs_index s)"

definition store_live :: "'g hnsw_ix vector_store \<Rightarrow> bool" where
  "store_live s \<longleftrightarrow> store_ok s \<and> vs_inv hx_fresh hx_okay hx_vecs s"

definition accepts_dim :: "'g graph_ops \<Rightarrow> nat \<Rightarrow> 'g hnsw_ix vector_store \<Rightarrow> bool" where
  "accepts_dim G d s \<longleftrightarrow> d \<noteq> 0 \<and> (vs_dim s = d \<or> vs_dim s = 0 \<and> can_alloc G d (hx_opts (vs_index s)))"

lemma hnsw_new_fields:
  "hnsw_new G d mx m efc = Inr h \<Longrightarrow> hdim h = d \<and> elems h = [] \<and> max_elements h = mx"
  unfolding hnsw_new_def by (auto split: if_splits dest: sym)

lemma ensure_dim_ok:
  assumes live: "store_live s" and d: "accepts_dim G d s"
  obtains s1 h where "vs_ensure_dim (hnsw_ops G) d s = (Inr (), s1)" and "vs_dim s1 = d" and "hx_hnsw (vs_index s1) = Some h"
    and "hx_okay d (vs_index s1)" and "store_count s1 = store_count s" and "same_frame s s1"
    and "unat (max_elements h) = store_capacity s"
proof (cases "vs_dim s = 0")
  case True
  then have fr: "hx_fresh (vs_index s)" using live by (simp add: store_live_def vs_inv_def)
  obtain h where h: "hnsw_new G d (o_max_elements (hx_opts (vs_index s))) (o_m (hx_opts (vs_index s)))
      (o_ef_construction (hx_opts (vs_index s))) = Inr h"
    using d True by (auto simp: accepts_dim_def can_alloc_def split: sum.splits)
  let ?s1 = "s\<lparr>vs_dim := d, vs_index := (vs_index s)\<lparr>hx_space := Some d, hx_hnsw := Some h\<rparr>\<rparr>"
  have "vs_ensure_dim (hnsw_ops G) d s = (Inr (), ?s1)"
    using True fr h by (simp add: vs_ensure_dim_def hnsw_lazily_init_def hx_fresh_def Let_def)
  moreover have "hnsw_ok h" "hdim h = d" "elems h = []" "max_elements h = o_max_elements (hx_opts (vs_index s))"
    using hnsw_new_ok [OF h] hnsw_new_fields [OF h] by simp_all
  ultimately show ?thesis
    using that [of ?s1 h] fr by (simp add: hx_okay_def store_count_def same_frame_def hx_fresh_def)
next
  case False
  then have ds: "vs_dim s = d" using d by (auto simp: accepts_dim_def)
  then have ok: "hx_okay d (vs_index s)" using live False by (simp add: store_live_def vs_inv_def)
  then obtain h where h: "hx_hnsw (vs_index s) = Some h" by (auto simp: hx_okay_def)
  then have "max_elements h = o_max_elements (hx_opts (vs_index s))"
    using live by (simp add: store_live_def store_ok_def hx_conf_ok_def)
  then show ?thesis
    using that [of s h] False ds ok h by (simp add: vs_ensure_dim_def same_frame_def)
qed

lemma vs_add_ok:
  assumes live: "store_live s" and d: "accepts_dim G (length emb) s" and c: "store_count s < store_capacity s"
  obtains s' where "vs_add (hnsw_ops G) i data emb s = (Inr i, s')" and "store_live s'"
    and "vs_items hx_vecs s' = (vs_items hx_vecs s)(i \<mapsto> (data, emb))" and "vs_dim s' = length emb"
    and "store_count s' \<le> Suc (store_count s)" and "same_frame s s'"
proof -
  obtain s1 h where s1: "vs_ensure_dim (hnsw_ops G) (length emb) s = (Inr (), s1)" "vs_dim s1 = length emb"
    "hx_hnsw (vs_index s1) = Some h" "hx_okay (length emb) (vs_index s1)" "store_count s1 = store_count s" "same_frame s s1"
    "unat (max_elements h) = store_capacity s"
    by (rule ensure_dim_ok [OF live d])
  have "hx_room (vs_index s1) i"
    using s1 c by (simp add: hx_room_def hnsw_room_def store_count_def)
  then obtain ix where ix: "hnsw_add G i emb (vs_index s1) = Inr ix"
    using hx.add_room [OF s1(4) refl, of G i] by auto
  let ?s' = "s1\<lparr>vs_index := ix, vs_data := AList.update i data (vs_data s1)\<rparr>"
  have ne: "emb \<noteq> []" using d by (auto simp: accepts_dim_def)
  have add: "vs_add (hnsw_ops G) i data emb s = (Inr i, ?s')"
    using ne s1(1,2) ix by (simp add: vs_add_def)
  have inv: "vs_inv hx_fresh hx_okay hx_vecs s" using live by (simp add: store_live_def)
  note ref = hx.add_refines [OF inv add]
  obtain h0 h' where "hx_hnsw (vs_index s1) = Some h0" "hx_hnsw ix = Some h'" "hx_opts ix = hx_opts (vs_index s1)"
    "length (elems h') \<le> Suc (length (elems h0))"
    using hnsw_add_frame [OF ix] by metis
  then have "store_count ?s' \<le> Suc (store_count s)" "same_frame s ?s'"
    using s1 by (simp_all add: store_count_def same_frame_def)
  moreover have "store_live ?s'" using ref(2) vs_add_store_ok [OF _ add] live by (simp add: store_live_def)
  ultimately show ?thesis using that [OF add] ref(3,4) by blast
qed

section \<open>Reading back what was written\<close>

definition rdb_tok :: "u64 \<times> string \<times> vector \<Rightarrow> rdb_item list" where
  "rdb_tok = (\<lambda>(i, data, v). RdbUnsigned i # RdbString data # map RdbFloat v)"

lemma same_frame_trans: "same_frame a b \<Longrightarrow> same_frame b c \<Longrightarrow> same_frame a c"
  by (simp add: same_frame_def)

lemma accepts_dim_next:
  "accepts_dim G d s \<Longrightarrow> vs_dim s' = d \<Longrightarrow> accepts_dim G d s'"
  by (simp add: accepts_dim_def)

lemma rdb_load_items_ok:
  assumes "rd_stores st so = Some s" and "store_live s" and "items \<noteq> [] \<Longrightarrow> accepts_dim (ex_graph X) d s"
    and "\<And>i data v. (i, data, v) \<in> set items \<Longrightarrow> length v = d" and "d < 2 ^ 61"
    and "store_count s + length items \<le> store_capacity s"
  shows "\<exists>s'. rdb_load_items X so (of_nat d) (length items) (concat (map rdb_tok items) @ rest) st =
        (Inr rest, st\<lparr>rd_stores := (rd_stores st)(so \<mapsto> s')\<rparr>) \<and>
      store_live s' \<and> vs_items hx_vecs s' = fold (\<lambda>(i, x) m. m(i \<mapsto> x)) items (vs_items hx_vecs s) \<and>
      same_frame s s' \<and> vs_dim s' = (if items = [] then vs_dim s else d)"
  using assms
proof (induction items arbitrary: st s)
  case Nil
  then show ?case by (intro exI [of _ s]) (simp add: same_frame_def fun_upd_idem)
next
  case (Cons p items)
  obtain i data v where p: "p = (i, data, v)" by (cases p) auto
  have v: "length v = d" using Cons.prems(4) [of i data v] p by simp
  have u: "unat (of_nat d :: u64) = d" using Cons.prems(5) by (simp add: unat_of_nat take_bit_nat_eq_self)
  obtain s1 where s1: "vs_add (store_ops X) i data v s = (Inr i, s1)" "store_live s1"
    "vs_items hx_vecs s1 = (vs_items hx_vecs s)(i \<mapsto> (data, v))" "vs_dim s1 = d"
    "store_count s1 \<le> Suc (store_count s)" "same_frame s s1"
    using vs_add_ok [OF Cons.prems(2), of "ex_graph X" v i data] Cons.prems(3,6) v by auto
  let ?st1 = "st\<lparr>rd_stores := (rd_stores st)(so \<mapsto> s1)\<rparr>"
  have cap: "store_capacity s1 = store_capacity s" using s1(6) by (simp add: same_frame_def)
  have "\<exists>s'. rdb_load_items X so (of_nat d) (length items) (concat (map rdb_tok items) @ rest) ?st1 =
        (Inr rest, ?st1\<lparr>rd_stores := (rd_stores ?st1)(so \<mapsto> s')\<rparr>) \<and>
      store_live s' \<and> vs_items hx_vecs s' = fold (\<lambda>(i, x) m. m(i \<mapsto> x)) items (vs_items hx_vecs s1) \<and>
      same_frame s1 s' \<and> vs_dim s' = (if items = [] then vs_dim s1 else d)"
  proof (rule Cons.IH)
    show "store_count s1 + length items \<le> store_capacity s1" using Cons.prems(6) s1(5) cap by simp
    show "accepts_dim (ex_graph X) d s1" using Cons.prems(3) s1(4) by (simp add: accepts_dim_def)
    show "\<And>i data v. (i, data, v) \<in> set items \<Longrightarrow> length v = d" using Cons.prems(4) by (meson list.set_intros(2))
  qed (use s1(2) Cons.prems(5) in simp_all)
  then obtain s' where s': "rdb_load_items X so (of_nat d) (length items) (concat (map rdb_tok items) @ rest) ?st1 =
        (Inr rest, ?st1\<lparr>rd_stores := (rd_stores ?st1)(so \<mapsto> s')\<rparr>)" "store_live s'"
      "vs_items hx_vecs s' = fold (\<lambda>(i, x) m. m(i \<mapsto> x)) items (vs_items hx_vecs s1)"
      "same_frame s1 s'" "vs_dim s' = (if items = [] then vs_dim s1 else d)"
    by blast
  have lv: "rdb_load_vector (of_nat d) (map RdbFloat v @ r) = Inr (v, r)" for r
    using Cons.prems(5) rdb_load_floats_eq [of v r] by (simp add: rdb_load_vector_def u v)
  have "rdb_load_items X so (of_nat d) (length (p # items)) (concat (map rdb_tok (p # items)) @ rest) st =
      (Inr rest, st\<lparr>rd_stores := (rd_stores st)(so \<mapsto> s')\<rparr>)"
    using s'(1) s1(1) Cons.prems(1) lv by (simp add: p rdb_tok_def on_store_def bindS_def)
  then show ?case
    using s' s1 same_frame_trans [OF s1(6) s'(4)] by (intro exI [of _ s']) (simp add: p del: fun_upd_apply)
qed

lemma fold_upd_map_of: "distinct (map fst xs) \<Longrightarrow> fold (\<lambda>(i, x) m. m(i \<mapsto> x)) xs m = m ++ map_of xs"
proof (induction xs arbitrary: m)
  case Nil
  then show ?case by simp
next
  case (Cons p xs)
  obtain i x where p: "p = (i, x)" by force
  have "map_of xs i = None" using Cons.prems p by (simp add: map_of_eq_None_iff)
  with Cons p show ?case by (auto simp: map_add_def fun_eq_iff split: option.splits)
qed

text \<open>The items of a store in the order in which they are written.\<close>

definition item_list :: "'g hnsw_ix vector_store \<Rightarrow> (u64 \<times> string \<times> vector) list" where
  "item_list s = map (\<lambda>(i, data). (i, data, the (hx_vecs (vs_index s) i))) (vs_data s)"

lemma map_of_map_fst: "map_of (map (\<lambda>(i, d). (i, d, f i)) xs) i = map_option (\<lambda>d. (d, f i)) (map_of xs i)"
  by (induction xs) (auto split: prod.splits)

lemma item_list_ok:
  assumes live: "store_live s"
  shows "map_of (item_list s) = vs_items hx_vecs s" and "distinct (map fst (item_list s))"
    and "(i, data, v) \<in> set (item_list s) \<Longrightarrow> length v = vs_dim s \<and> vs_dim s \<noteq> 0 \<and> vs_get (hnsw_ops G) i s = Inr (Some v)"
proof -
  have inv: "vs_inv hx_fresh hx_okay hx_vecs s" using live by (simp add: store_live_def)
  have eq: "map_of (item_list s) i = vs_items hx_vecs s i" for i
  proof -
    have "map_of (item_list s) i = map_option (\<lambda>d. (d, the (hx_vecs (vs_index s) i))) (map_of (vs_data s) i)"
      unfolding item_list_def by (rule map_of_map_fst)
    with inv show ?thesis by (auto elim!: vs_inv_cases [where i = i])
  qed
  then show "map_of (item_list s) = vs_items hx_vecs s" by (simp add: fun_eq_iff)
  show d: "distinct (map fst (item_list s))"
    using inv by (simp add: item_list_def vs_inv_def case_prod_unfold comp_def)
  assume "(i, data, v) \<in> set (item_list s)"
  then have "vs_items hx_vecs s i = Some (data, v)" using d eq by (metis map_of_is_SomeI)
  then show "length v = vs_dim s \<and> vs_dim s \<noteq> 0 \<and> vs_get (hnsw_ops G) i s = Inr (Some v)"
    using hx.items_dim [OF inv] hx.get_refines [OF inv, of G i] by simp
qed

text \<open>What \<open>_rdb_save_vector_store\<close> writes for a live store.\<close>

definition rdb_store_toks :: "'g hnsw_ix vector_store \<Rightarrow> string \<Rightarrow> string \<Rightarrow> rdb_item list" where
  "rdb_store_toks s c l =
     [RdbString (vs_type s), RdbString c, RdbString l, RdbUnsigned (vs_id_idx s), RdbUnsigned (of_nat (vs_dim s)),
      RdbUnsigned (of_nat (length (item_list s)))] @ concat (map rdb_tok (item_list s))"

lemma rdb_save_store_eq:
  assumes live: "store_live s" and c: "jdump J (vs_conf s) = Inr c" and l: "llm_info_to_string J (vs_llm s) = Inr l"
  shows "rdb_save_vector_store (hnsw_ops G) J s [] = (Inr (), rdb_store_toks s c l)"
proof -
  let ?vec = "\<lambda>i. the (hx_vecs (vs_index s) i)"
  have get: "vs_get (hnsw_ops G) i s = Inr (Some (?vec i))" if "(i, data) \<in> set (vs_data s)" for i data
  proof -
    have "(i, data, ?vec i) \<in> set (item_list s)" using that by (force simp: item_list_def)
    then show ?thesis using item_list_ok(3) [OF live] by blast
  qed
  have "rdb_save_items (hnsw_ops G) s (vs_data s) out =
      (Inr (), out @ concat (map (\<lambda>(i, data). RdbUnsigned i # RdbString data # map RdbFloat (?vec i)) (vs_data s)))" for out
    by (rule rdb_save_items_eq) (rule get)
  moreover have "map (\<lambda>(i, data). RdbUnsigned i # RdbString data # map RdbFloat (?vec i)) (vs_data s) =
      map rdb_tok (item_list s)"
    by (auto simp: item_list_def rdb_tok_def)
  moreover have "length (item_list s) = length (vs_data s)" by (simp add: item_list_def)
  ultimately show ?thesis
    using c l by (simp add: rdb_save_vector_store_def rdb_save_config_def rdb_emit_def rdb_store_toks_def bindS_def)
qed

lemma hnsw_create_live:
  assumes "hnsw_parse_options conf = Inr opts"
  obtains s0 :: "'g hnsw_ix vector_store" where "vector_store_create ''hnsw'' conf llm = Inr s0" and "store_live s0"
    and "hx_opts (vs_index s0) = opts" and "vs_dim s0 = 0" and "store_count s0 = 0" and "vs_items hx_vecs s0 = Map.empty"
    and "vs_type s0 = ''hnsw''" and "vs_conf s0 = conf" and "vs_llm s0 = llm"
proof -
  let ?s0 = "vs_create ''hnsw'' conf llm \<lparr>hx_opts = opts, hx_space = None, hx_hnsw = None\<rparr> :: 'g hnsw_ix vector_store"
  have c: "hnsw_create conf llm = Inr ?s0" using assms by (simp add: hnsw_create_def)
  have "vs_inv hx_fresh hx_okay hx_vecs ?s0" by (rule vs_create_inv) (simp add: hx_fresh_def)
  then have "store_live ?s0" using hnsw_create_store_ok [OF c] by (simp add: store_live_def)
  with c that [of ?s0] show ?thesis
    by (simp add: vector_store_create_def vs_create_def store_count_def vs_items_def fun_eq_iff)
qed

lemma rdb_load_store_ok:
  fixes s :: "'g hnsw_ix vector_store" and X :: "('g2, 'w) ext"
  assumes live: "store_live s" and d: "vs_dim s < 2 ^ 61"
    and c: "jparse (ex_json X) c = Inr (vs_conf s)" and l: "llm_info_of (ex_json X) l = Inr (vs_llm s)"
    and alloc: "vs_data s \<noteq> [] \<Longrightarrow> can_alloc (ex_graph X) (vs_dim s) (hx_opts (vs_index s))"
  shows "\<exists>st' s'. rdb_load 0 (rdb_load_vector_store X (rdb_store_toks s c l)) st = (Inr (Some (rd_next st)), st') \<and>
    rd_stores st' (rd_next st) = Some s' \<and> store_live s' \<and> vs_items hx_vecs s' = vs_items hx_vecs s \<and>
    vs_type s' = vs_type s \<and> vs_conf s' = vs_conf s \<and> vs_llm s' = vs_llm s \<and> vs_id_idx s' = vs_id_idx s \<and>
    hx_opts (vs_index s') = hx_opts (vs_index s) \<and> vs_dim s' = (if vs_data s = [] then 0 else vs_dim s)"
proof -
  have ok: "store_ok s" and ty: "vs_type s = ''hnsw''" and po: "hnsw_parse_options (vs_conf s) = Inr (hx_opts (vs_index s))"
    using live by (simp_all add: store_live_def store_ok_def hx_conf_ok_def)
  obtain s0 :: "'g2 hnsw_ix vector_store" where s0: "vector_store_create ''hnsw'' (vs_conf s) (vs_llm s) = Inr s0"
    "store_live s0" "hx_opts (vs_index s0) = hx_opts (vs_index s)" "vs_dim s0 = 0" "store_count s0 = 0"
    "vs_items hx_vecs s0 = Map.empty" "vs_type s0 = ''hnsw''" "vs_conf s0 = vs_conf s" "vs_llm s0 = vs_llm s"
    by (rule hnsw_create_live [OF po])
  let ?n = "rd_next st" let ?s1 = "vs_set_id_idx (vs_id_idx s) s0"
  let ?st1 = "(register_object (st\<lparr>rd_stores := (rd_stores st)(?n \<mapsto> s0)\<rparr>))
    \<lparr>rd_stores := (rd_stores st)(?n \<mapsto> ?s1)\<rparr>"
  have len: "length (item_list s) \<le> unat (o_max_elements (hx_opts (vs_index s)))"
    using store_size_bound [OF ok] by (simp add: item_list_def)
  moreover have "unat (o_max_elements (hx_opts (vs_index s))) < 2 ^ LENGTH(64)" by (rule unsigned_less)
  ultimately have cnt: "unat (of_nat (length (item_list s)) :: u64) = length (item_list s)"
    by (simp add: unat_of_nat take_bit_nat_eq_self)
  have "\<exists>s'. rdb_load_items X ?n (of_nat (vs_dim s)) (length (item_list s)) (concat (map rdb_tok (item_list s)) @ []) ?st1 =
        (Inr [], ?st1\<lparr>rd_stores := (rd_stores ?st1)(?n \<mapsto> s')\<rparr>) \<and>
      store_live s' \<and> vs_items hx_vecs s' = fold (\<lambda>(i, x) m. m(i \<mapsto> x)) (item_list s) (vs_items hx_vecs ?s1) \<and>
      same_frame ?s1 s' \<and> vs_dim s' = (if item_list s = [] then vs_dim ?s1 else vs_dim s)"
  proof (rule rdb_load_items_ok)
    show "store_live ?s1" using s0(2) by (simp add: store_live_def)
    show "accepts_dim (ex_graph X) (vs_dim s) ?s1" if ne: "item_list s \<noteq> []"
    proof -
      obtain p where "p \<in> set (item_list s)" using ne by (meson list.set_sel(1))
      then have "vs_dim s \<noteq> 0" using item_list_ok(3) [OF live, of "fst p" "fst (snd p)" "snd (snd p)"] by simp
      then show ?thesis using alloc ne s0(3,4) by (simp add: accepts_dim_def item_list_def)
    qed
    show "length v = vs_dim s" if "(i, data, v) \<in> set (item_list s)" for i data v
      using item_list_ok(3) [OF live that] by simp
  qed (use d len s0 in \<open>simp_all add: store_count_def\<close>)
  then obtain s' where s': "rdb_load_items X ?n (of_nat (vs_dim s)) (length (item_list s)) (concat (map rdb_tok (item_list s))) ?st1 =
        (Inr [], ?st1\<lparr>rd_stores := (rd_stores ?st1)(?n \<mapsto> s')\<rparr>)" "store_live s'"
      "vs_items hx_vecs s' = fold (\<lambda>(i, x) m. m(i \<mapsto> x)) (item_list s) Map.empty"
      "same_frame ?s1 s'" "vs_dim s' = (if item_list s = [] then 0 else vs_dim s)"
    using s0 by auto
  have "vs_items hx_vecs s' = vs_items hx_vecs s"
    using s'(3) fold_upd_map_of [OF item_list_ok(2) [OF live], of Map.empty] item_list_ok(1) [OF live] by simp
  moreover have "rdb_load 0 (rdb_load_vector_store X (rdb_store_toks s c l)) st =
      (Inr (Some ?n), ?st1\<lparr>rd_stores := (rd_stores ?st1)(?n \<mapsto> s')\<rparr>)"
    using s'(1) c l s0(1) ty cnt
    by (simp add: rdb_load_def rdb_load_vector_store_def rdb_store_toks_def rdb_load_config_def rdb_load_llm_info_def
        create_vector_store_def on_store_def bindS_def register_object_def modifyS_def)
  ultimately show ?thesis
    using s' s0 ty by (intro exI [of _ "?st1\<lparr>rd_stores := (rd_stores ?st1)(?n \<mapsto> s')\<rparr>"] exI [of _ s'])
      (simp add: same_frame_def item_list_def)
qed

end
