(* ===== verification/Command_Facts.thy ===== *)
theory Command_Facts
  imports Commands Rdb_Roundtrip
begin

text \<open>
  What a command does from beginning to end: the dispatch through the command table, the reply, the new
  state and what is sent to the replicas.
\<close>

section \<open>Dispatch\<close>

lemma find_command_simps [simp]:
  "find_command X ''LLM.CREATE-APP'' = Some (''write deny-oom'', create_app_command X)"
  "find_command X ''LLM.CREATE-CHAT'' = Some (''write deny-oom'', create_chat_command X)"
  "find_command X ''LLM.CREATE-SEARCH'' = Some (''write deny-oom'', create_search_command X)"
  "find_command X ''LLM.CREATE-LLM'' = Some (''write deny-oom'', create_llm_command X)"
  "find_command X ''LLM.CREATE-VECTOR-STORE'' = Some (''write deny-oom'', create_vector_store_command X)"
  "find_command X ''LLM.ADD'' = Some (''write deny-oom'', add_command X)"
  "find_command X ''LLM.REM'' = Some (''write deny-oom'', rem_command X)"
  "find_command X ''LLM.GET'' = Some (''readonly'', get_command X)"
  "find_command X ''LLM.RUN'' = Some (''readonly'', run_command X)"
  "find_command X ''LLM.KNN'' = Some (''readonly'', knn_command)"
  "find_command X ''LLM.SIZE'' = Some (''readonly'', size_command)"
  by (simp_all add: find_command_def command_table_def eval_names)

lemma command_run_reply [simp]:
  "body st = (Inr r, st') \<Longrightarrow> command_run body st = (Inr r, st')"
  "body st = (Inl (Error m), st') \<Longrightarrow> command_run body st = (Inr (RError (''ERR '' @ m)), st')"
  "body st = (Inl WrongArityError, st') \<Longrightarrow> command_run body st = (Inr RWrongArity, st')"
  "body st = (Inl (WrongTypeError m), st') \<Longrightarrow> command_run body st = (Inr (RError (''ERR '' @ m)), st')"
  by (simp_all add: command_run_def reply_with_error_def)

lemma exec_command_eq:
  "find_command X name = Some (flags, body) \<Longrightarrow> exec_command X (name # args) = command_run (body (name # args))"
  by (simp add: exec_command_def)


text \<open>\<open>key_store st k so s\<close>: the key \<open>k\<close> holds the vector store \<open>s\<close>, whose number is \<open>so\<close>.\<close>

definition key_store :: "('g, 'w) redis \<Rightarrow> string \<Rightarrow> nat \<Rightarrow> 'g hnsw_ix vector_store \<Rightarrow> bool" where
  "key_store st k so s \<longleftrightarrow> rd_keys st k = Some (RVector so) \<and> rd_stores st so = Some s"

lemma get_value_simps [simp]:
  "rd_keys st k = Some (RVector i) \<Longrightarrow> get_value_by_key VectorStoreType k st = Inr (Some i)"
  "rd_keys st k = Some (RLlm i) \<Longrightarrow> get_value_by_key LlmType k st = Inr (Some i)"
  "rd_keys st k = Some (RApp i) \<Longrightarrow> get_value_by_key AppType k st = Inr (Some i)"
  "rd_keys st k = None \<Longrightarrow> get_value_by_key t k st = Inr None"
  by (simp_all add: get_value_by_key_def key_exists_def key_oid_def)

lemma key_store_value:
  assumes "key_store st k so s"
  shows "get_value_by_key VectorStoreType k st = Inr (Some so)" and "read_store so f st = (f s, st)"
    and "on_store so m st = (case m s of (r, s1) \<Rightarrow> (r, st\<lparr>rd_stores := (rd_stores st)(so \<mapsto> s1)\<rparr>))"
  using assms by (simp_all add: key_store_def read_store_def on_store_def)

lemma key_store_update:
  "key_store st k so s \<Longrightarrow> key_store (st\<lparr>rd_stores := (rd_stores st)(so \<mapsto> s1), rd_log := l\<rparr>) k so s1"
  by (simp add: key_store_def)

section \<open>Commands on a store\<close>

definition next_id :: "add_args \<Rightarrow> 'ix vector_store \<Rightarrow> u64" where
  "next_id args s = (case aa_id args of Some i \<Rightarrow> i | None \<Rightarrow> vs_id_idx s + 1)"

lemma store_live_id_idx [simp]: "store_live (vs_set_id_idx i s) = store_live s"
  by (simp add: store_live_def store_ok_def hx_conf_ok_def hx_broken_def)

lemma store_count_id_idx [simp]: "store_count (vs_set_id_idx i s) = store_count s"
  by (simp add: store_count_def)

lemma accepts_dim_id_idx [simp]: "accepts_dim G d (vs_set_id_idx i s) = accepts_dim G d s"
  by (simp add: accepts_dim_def)

lemma exec_add:
  assumes ks: "key_store st k so s" and live: "store_live s" and p: "add_parse_args (''LLM.ADD'' # rest) = Inr args"
    and k: "aa_key args = k" and d: "accepts_dim (ex_graph X) (length (aa_embedding args)) s" and c: "store_count s < store_capacity s"
  shows "\<exists>s1. exec_command X (''LLM.ADD'' # rest) st =
      (Inr (RLong (next_id args s)), st\<lparr>rd_stores := (rd_stores st)(so \<mapsto> s1), rd_log := rd_log st @ [''LLM.ADD'' # rest]\<rparr>) \<and>
      store_live s1 \<and> vs_items hx_vecs s1 = (vs_items hx_vecs s)(next_id args s \<mapsto> (aa_data args, aa_embedding args)) \<and>
      vs_id_idx s1 = (if aa_id args = None then vs_id_idx s + 1 else vs_id_idx s) \<and> vs_dim s1 = length (aa_embedding args)"
proof -
  let ?s0 = "if aa_id args = None then vs_set_id_idx (vs_id_idx s + 1) s else s"
  have s0: "store_live ?s0" "accepts_dim (ex_graph X) (length (aa_embedding args)) ?s0" "store_count ?s0 < store_capacity ?s0"
    using live d c by simp_all
  obtain s1 where s1: "vs_add (store_ops X) (next_id args s) (aa_data args) (aa_embedding args) ?s0 = (Inr (next_id args s), s1)"
    "store_live s1" "vs_items hx_vecs s1 = (vs_items hx_vecs ?s0)(next_id args s \<mapsto> (aa_data args, aa_embedding args))"
    "vs_dim s1 = length (aa_embedding args)" "same_frame ?s0 s1"
    by (rule vs_add_ok [OF s0])
  have now: "add_now X args st = (Inr (next_id args s), st\<lparr>rd_stores := (rd_stores st)(so \<mapsto> s1)\<rparr>)"
    using s1(1) by (cases "aa_id args")
      (simp_all add: add_now_def askS_def k key_store_value [OF ks] next_id_def vs_add_auto_eq)
  have "aa_embedding args \<noteq> []" using d by (auto simp: accepts_dim_def)
  then have "add_command X (''LLM.ADD'' # rest) st = (Inr (RLong (next_id args s)),
      st\<lparr>rd_stores := (rd_stores st)(so \<mapsto> s1), rd_log := rd_log st @ [''LLM.ADD'' # rest]\<rparr>)"
    using p now by (simp add: add_command_def replicate_cmd_def)
  moreover have "vs_id_idx s1 = vs_id_idx ?s0" using s1(5) by (simp add: same_frame_def)
  ultimately show ?thesis
    using s1(2-4) by (intro exI [of _ s1]) (simp add: exec_command_eq [OF find_command_simps(6)])
qed

lemma id_parse_ok [simp]: "id_parse_args [cmd, k, u64_to_string i] = Inr \<lparr>ia_key = k, ia_id = i\<rparr>"
  by (simp add: id_parse_args_def stoul_or_def)

lemma exec_get:
  assumes ks: "key_store st k so s" and live: "store_live s"
  shows "exec_command X [''LLM.GET'', k, u64_to_string i] st =
    (Inr (case vs_items hx_vecs s i of None \<Rightarrow> RNull | Some (data, v) \<Rightarrow> RArray [RBulk data, RBulk (dump_embedding v)]), st)"
proof -
  have inv: "vs_inv hx_fresh hx_okay hx_vecs s" using live by (simp add: store_live_def)
  show ?thesis
    using hx.get_refines [OF inv, of "ex_graph X" i] hx.data_refines [OF inv, of i]
    by (cases "vs_items hx_vecs s i") (auto simp: exec_command_eq [OF find_command_simps(8)] get_command_def askS_def
        key_store_value [OF ks])
qed

lemma exec_size:
  assumes ks: "key_store st k so s" and live: "store_live s"
  shows "exec_command X [''LLM.SIZE'', k] st = (Inr (RLong (of_nat (card (dom (vs_items hx_vecs s))))), st)"
  using hx.size_refines [of s] live
  by (simp add: exec_command_eq [OF find_command_simps(11)] size_command_def size_parse_args_def askS_def
      key_store_value [OF ks] store_live_def)

lemma exec_rem:
  assumes ks: "key_store st k so s" and live: "store_live s"
  shows "\<exists>s1. exec_command X [''LLM.REM'', k, u64_to_string i] st =
      (Inr (RLong (if vs_items hx_vecs s i = None then 0 else 1)),
       st\<lparr>rd_stores := (rd_stores st)(so \<mapsto> s1), rd_log := rd_log st @ [[''LLM.REM'', k, u64_to_string i]]\<rparr>) \<and>
      store_live s1 \<and> vs_items hx_vecs s1 = (vs_items hx_vecs s)(i := None)"
proof -
  have inv: "vs_inv hx_fresh hx_okay hx_vecs s" and ok: "store_ok s" using live by (simp_all add: store_live_def)
  obtain r s1 where r: "vs_rem (store_ops X) i s = (r, s1)" by force
  note ref = hx.rem_refines [OF inv r]
  have "store_live s1" using ref(2) vs_rem_store_ok(1) [OF ok r] by (simp add: store_live_def)
  moreover have "rem_command X [''LLM.REM'', k, u64_to_string i] st =
      (Inr (RLong (if vs_items hx_vecs s i = None then 0 else 1)),
       st\<lparr>rd_stores := (rd_stores st)(so \<mapsto> s1), rd_log := rd_log st @ [[''LLM.REM'', k, u64_to_string i]]\<rparr>)"
    using r ref(1) by (auto simp: rem_command_def askS_def key_store_value [OF ks] replicate_cmd_def)
  ultimately show ?thesis using ref(3) by (intro exI [of _ s1]) (simp add: exec_command_eq [OF find_command_simps(7)])
qed

section \<open>Samples\<close>

definition sample_ext :: "(nat, unit) ext" where
  "sample_ext = \<lparr>ex_graph = sample_graph, ex_json = sample_json, ex_inja = sample_inja, ex_outside = sample_outside []\<rparr>"

definition sample_redis :: "(nat, unit) redis" where
  "sample_redis =
     \<lparr>rd_keys = [''s'' \<mapsto> RVector 0, ''m'' \<mapsto> RLlm 1], rd_stores = [0 \<mapsto> sample_store], rd_llms = [1 \<mapsto> sample_llm], rd_apps = Map.empty,
      rd_embeddings = Map.empty, rd_object_pool = {0, 1}, rd_next = 2, rd_workers = worker_pool_new worker_pool_opts_default,
      rd_clients = Map.empty, rd_next_client = 0, rd_log = [], rd_world = ()\<rparr>"

lemma sample_key_store: "key_store sample_redis ''s'' 0 sample_store"
  by (simp add: key_store_def sample_redis_def)

lemma sample_store_live: "store_live sample_store"
  using sample_store_ok sample_store_inv by (simp add: store_live_def)

lemma sample_capacity: "store_count sample_store < store_capacity sample_store" "0 < d \<Longrightarrow> d < 2 ^ 40 \<Longrightarrow> accepts_dim sample_graph d sample_store"
  by (simp_all add: store_count_def accepts_dim_def can_alloc_def sample_store_def vs_create_def hnsw_new_def sample_graph_def Let_def)

section \<open>Properties\<close>


text \<open>C16. LLM.REM answers whether there was an item and is always replicated; afterwards a GET of the identifier answers nil, a GET of any
  other identifier answers what it did before, and LLM.SIZE answers the number of the remaining items.\<close>

theorem remove_then_get:
  assumes "key_store st k so s" and "store_live s"
  shows "\<exists>st1. exec_command X [''LLM.REM'', k, u64_to_string i] st = (Inr (RLong (if store_items s i = None then 0 else 1)), st1) \<and>
    rd_log st1 = rd_log st @ [[''LLM.REM'', k, u64_to_string i]] \<and>
    exec_command X [''LLM.GET'', k, u64_to_string i] st1 = (Inr RNull, st1) \<and>
    exec_command X [''LLM.SIZE'', k] st1 = (Inr (RLong (of_nat (card (dom (store_items s) - {i})))), st1) \<and>
    (\<forall>j. j \<noteq> i \<longrightarrow> fst (exec_command X [''LLM.GET'', k, u64_to_string j] st1) = fst (exec_command X [''LLM.GET'', k, u64_to_string j] st))"
proof -
  obtain s1 where s1: "exec_command X [''LLM.REM'', k, u64_to_string i] st = (Inr (RLong (if store_items s i = None then 0 else 1)),
       st\<lparr>rd_stores := (rd_stores st)(so \<mapsto> s1), rd_log := rd_log st @ [[''LLM.REM'', k, u64_to_string i]]\<rparr>)"
    "store_live s1" "store_items s1 = (store_items s)(i := None)"
    using exec_rem [OF assms] by blast
  note ks = key_store_update [OF assms(1)]
  show ?thesis using s1 exec_get [OF ks s1(2)] exec_size [OF ks s1(2)] exec_get [OF assms] by simp
qed

lemma sample_ext_graph [simp]: "ex_graph sample_ext = sample_graph" "ex_json sample_ext = sample_json"
  by (simp_all add: sample_ext_def)


theorem remove_then_get_witness:
  "\<exists>st1. exec_command sample_ext [''LLM.REM'', ''s'', u64_to_string 7] sample_redis = (Inr (RLong 0), st1) \<and>
    exec_command sample_ext [''LLM.GET'', ''s'', u64_to_string 7] st1 = (Inr RNull, st1)"
proof -
  have "store_items sample_store 7 = None" by (simp add: sample_store_def vs_create_def vs_items_def)
  then show ?thesis using remove_then_get [OF sample_key_store sample_store_live, of sample_ext 7] by auto
qed


text \<open>A model that answers one embedding: the response of the server is the text \<open>E\<close>.\<close>

definition answer_ext :: "(nat, unit) ext" where
  "answer_ext = sample_ext\<lparr>ex_outside := sample_outside ''E'', ex_json :=
     \<lparr>jparse = (\<lambda>s. Inr (JObject [(''data'', JArray [JObject [(''embedding'', JArray [JBool True])]])])), jdump = (\<lambda>j. Inr [])\<rparr>\<rparr>"

definition answer_llm :: llm_model where
  "answer_llm = \<lparr>lm_type = ''openai'', lm_conf = JObject [], lm_impl = OpenAi
     \<lparr>oo_api_key = [], oo_chat = JObject [], oo_chat_path = [], oo_embedding = JObject [], oo_embedding_path = [],
       oo_http = http_opts_default, oo_http_pool = http_pool_opts_default\<rparr>
     \<lparr>hp_opts = http_opts_default, hp_pool_opts = http_pool_opts_default, hp_pool = [], hp_used = 0\<rparr>\<rparr>"

lemma answer_embedding:
  "\<exists>lm. llm_embedding (ex_outside answer_ext) (ex_json answer_ext) input params (answer_llm, ()) = (Inr [round_f32 False 1 1], (lm, ()))"
  by (simp add: llm_embedding_def answer_llm_def on_pool_def openai_embedding_def openai_query_def safe_post_def pool_fetch_def
      http_client_new_def make_client_def http_post_def answer_ext_def sample_outside_def http_pool_opts_default_def
      embedding_content_def)

lemma answer_task:
  fixes st :: "(nat, unit) redis"
  assumes "rd_llms st lo = Some answer_llm" and ks: "key_store st k so sample_store"
    and args: "args = \<lparr>aa_key = k, aa_id = Some i, aa_data = data, aa_embedding = [], aa_timeout = t\<rparr>"
  shows "\<exists>st1. run_task answer_ext (AddTask c args so lo) st = (Inr (c, AddResult (Inr
     \<lparr>ar_key = k, ar_id = i, ar_auto_gen_id = False, ar_embedding = dump_embedding [round_f32 False 1 1], ar_data = data\<rparr>)), st1)"
proof -
  obtain lm where lm: "llm_embedding (ex_outside answer_ext) (ex_json answer_ext) data (li_params (vs_llm sample_store)) (answer_llm, ()) =
      (Inr [round_f32 False 1 1], (lm, ()))" using answer_embedding by blast
  let ?st0 = "st\<lparr>rd_llms := (rd_llms st)(lo \<mapsto> lm), rd_world := ()\<rparr>"
  have ks0: "key_store ?st0 k so sample_store" using ks by (simp add: key_store_def)
  obtain s1 where "vs_add (store_ops answer_ext) i data [round_f32 False 1 1] sample_store = (Inr i, s1)"
    using vs_add_ok [OF sample_store_live _ sample_capacity(1), of "ex_graph answer_ext" "[round_f32 False 1 1]" i data]
      sample_capacity(2) [of 1] by (auto simp: answer_ext_def)
  then show ?thesis
    using assms(1) lm by (simp add: args caught_def async_add_def key_store_value [OF ks] key_store_value [OF ks0] on_llm_def)
qed


end
