(* ===== verification/Command_Errors.thy ===== *)
theory Command_Errors
  imports Command_Facts
begin

text \<open>
  What the commands answer when something is wrong, and when nothing is answered: which exceptions become
  replies, the options NX and XX of the LLM.CREATE commands, and the exceptions that no handler takes.
\<close>

section \<open>Exceptions of the command bodies\<close>

lemma get_value_cases:
  obtains m where "get_value_by_key t k st = Inl (WrongTypeError m)"
    | "get_value_by_key t k st = Inr None"
    | i v where "get_value_by_key t k st = Inr (Some i)" and "rd_keys st k = Some v" and "value_type v = Some t" and "value_oid v = Some i"
proof (cases "rd_keys st k")
  case None
  then show ?thesis using that(2) by simp
next
  case (Some v)
  show ?thesis
  proof (cases "value_type v = Some t")
    case True
    then obtain i where "value_oid v = Some i" by (cases v) auto
    then show ?thesis using that(3) Some True by (simp add: get_value_by_key_def key_exists_def key_oid_def)
  next
    case False
    then show ?thesis using that(1) Some by (simp add: get_value_by_key_def key_exists_def)
  qed
qed

lemma get_store_cases:
  assumes "redis_inv st"
  obtains m where "get_value_by_key VectorStoreType k st = Inl (WrongTypeError m)"
    | "get_value_by_key VectorStoreType k st = Inr None"
    | so s where "get_value_by_key VectorStoreType k st = Inr (Some so)" and "key_store st k so s" and "store_ok s"
proof (cases rule: get_value_cases [of VectorStoreType k st])
  case (3 so v)
  then have v: "v = RVector so" by (cases v) auto
  have "value_ok st v" using 3(2) assms unfolding redis_inv_def keys_ok_def by blast
  then obtain s where s: "rd_stores st so = Some s" using v by auto
  then have "store_ok s" using assms by (auto simp: redis_inv_def objects_ok_def)
  then show ?thesis using that(3) 3 v s by (simp add: key_store_def)
qed (use that in blast)+

text \<open>\<open>replies m st\<close>: the body gives a reply or throws an \<open>Error\<close>.\<close>

definition replies :: "(('g, 'w) redis, 'a) act \<Rightarrow> ('g, 'w) redis \<Rightarrow> bool" where
  "replies m st \<longleftrightarrow> (\<forall>e. fst (m st) = Inl e \<longrightarrow> is_Error e)"

named_theorems replies_intros

lemma replies_pure [replies_intros]:
  "replies (returnS x) st" "is_Error e \<Longrightarrow> replies (throwS e) st" "replies (replicate_cmd argv) st"
  by (simp_all add: replies_def returnS_def throwS_def replicate_cmd_def)

lemma replies_liftR [replies_intros]: "fails is_Error r \<Longrightarrow> replies (liftR r) st"
  by (auto simp: replies_def fails_def)

lemma replies_bindS:
  assumes "replies m st" and "\<And>x st1. m st = (Inr x, st1) \<Longrightarrow> replies (f x) st1"
  shows "replies (bindS m f) st"
  using assms by (cases "m st"; cases "fst (m st)") (auto simp: replies_def bindS_def)

lemma replies_parse:
  "fails is_Error r \<Longrightarrow> (\<And>x. r = Inr x \<Longrightarrow> replies (f x) st) \<Longrightarrow> replies (bindS (liftR r) f) st"
  by (cases r) (auto simp: replies_def fails_def bindS_def)

lemma replies_key [replies_intros]: "replies (askS (get_value_by_key t k)) st"
  by (cases rule: get_value_cases [of t k st]) (simp_all add: replies_def askS_def)

lemma replies_block [replies_intros]: "replies (block_and_enqueue mk) st"
  by (auto simp: replies_def block_and_enqueue_def Let_def wp_enqueue_def)

lemma command_run_replies: "replies m st \<Longrightarrow> \<exists>r. fst (command_run m st) = Inr r"
  by (cases "m st"; cases "fst (m st)") (auto simp: replies_def command_run_def catchS_def)

lemma replies_on_key:
  assumes "redis_inv st" and "replies (f None) st" and "\<And>so s. key_store st k so s \<Longrightarrow> store_ok s \<Longrightarrow> replies (f (Some so)) st"
  shows "replies (bindS (askS (get_value_by_key VectorStoreType k)) f) st"
  using assms(1)
  by (cases rule: get_store_cases [of st k]) (use assms(2,3) in \<open>auto simp: replies_def askS_def bindS_def\<close>)

lemma replies_read: "key_store st k so s \<Longrightarrow> fails is_Error (g s) \<Longrightarrow> (\<And>x. g s = Inr x \<Longrightarrow> replies (f x) st) \<Longrightarrow>
    replies (bindS (read_store so g) f) st"
  by (cases "g s") (auto simp: replies_def key_store_value bindS_def fails_def)

lemma store_get_total: "store_ok s \<Longrightarrow> vs_get (hnsw_ops G) i s \<in> range Inr"
  using hx.get_refines [of s] by (auto simp: store_ok_def hx_broken_def vs_get_def)

lemma replies_llm_key:
  assumes "\<And>lo. replies (g (Some lo)) st" and "replies (g None) st"
  shows "replies (bindS (askS (get_value_by_key LlmType key)) g) st"
proof (rule replies_bindS [OF replies_key])
  fix x st1 assume "askS (get_value_by_key LlmType key) st = (Inr x, st1)"
  then show "replies (g x) st1" using assms by (cases x) (auto simp: askS_def)
qed

lemma bodies_reply:
  fixes X :: "('g, 'w) ext" and st :: "('g, 'w) redis"
  assumes inv: "redis_inv st" and J: "json_text_ok (ex_json X)"
  shows "replies (get_command X argv) st" and "replies (size_command argv) st" and "replies (knn_command argv) st"
    and "replies (rem_command X argv) st" and "replies (run_command X argv) st" and "replies (blocking_add args) st"
proof -
  note i = replies_intros
  show "replies (get_command X argv) st"
    unfolding get_command_def
  proof (rule replies_parse [OF id_parse_args_fails], rule replies_on_key [OF inv])
    fix a :: id_args and so s assume ks: "key_store st (ia_key a) so s" and ok: "store_ok s"
    show "replies (case Some so of None \<Rightarrow> returnS RNull | Some so \<Rightarrow>
           bindS (read_store so (\<lambda>s. Inr (vs_data_of (ia_id a) s))) (\<lambda>data.
             case data of None \<Rightarrow> returnS RNull
             | Some d \<Rightarrow>
                 bindS (read_store so (vs_get (store_ops X) (ia_id a))) (\<lambda>embedding.
                   case embedding of None \<Rightarrow> returnS RNull
                   | Some v \<Rightarrow> returnS (RArray [RBulk d, RBulk (dump_embedding v)])))) st"
      using store_get_total [OF ok, of "ex_graph X" "ia_id a"]
      by (auto simp: replies_def key_store_value [OF ks] split: option.splits)
  qed (simp add: i)
  show "replies (size_command argv) st"
    unfolding size_command_def
    by (rule replies_parse [OF size_parse_args_fails], rule replies_on_key [OF inv])
      (auto simp: i replies_def key_store_value)
  show "replies (rem_command X argv) st"
    unfolding rem_command_def
  proof (rule replies_parse [OF id_parse_args_fails], rule replies_bindS)
    fix a
    show "replies (bindS (askS (get_value_by_key VectorStoreType (ia_key a))) (\<lambda>s.
        case s of None \<Rightarrow> returnS 0
        | Some so \<Rightarrow> bindS (on_store so (vs_rem (store_ops X) (ia_id a))) (\<lambda>b. returnS (if b then 1 else (0 :: u64))))) st"
    proof (rule replies_on_key [OF inv])
      fix so s assume ks: "key_store st (ia_key a) so s" and ok: "store_ok s"
      obtain r s1 where r: "vs_rem (store_ops X) (ia_id a) s = (r, s1)" by force
      have "r \<in> range Inr" using vs_rem_store_ok(2) [OF ok r] by auto
      then show "replies (case Some so of None \<Rightarrow> returnS 0
        | Some so \<Rightarrow> bindS (on_store so (vs_rem (store_ops X) (ia_id a))) (\<lambda>b. returnS (if b then 1 else (0 :: u64)))) st"
        using r by (auto simp: replies_def key_store_value [OF ks])
    qed (simp add: i)
  qed (auto simp: replies_def replicate_cmd_def)
  have llm: "replies (bindS (read_store so (\<lambda>s. Inr (li_key (vs_llm s)))) (\<lambda>key. bindS (askS (get_value_by_key LlmType key)) g)) st"
    if "key_store st k so s" "\<And>lo. replies (g (Some lo)) st" "replies (g None) st"
    for k so s and g :: "nat option \<Rightarrow> (('g, 'w) redis, 'c) act"
    using that by (intro replies_read [OF that(1)] replies_llm_key) (auto simp: fails_def)
  show "replies (blocking_add args) st"
    unfolding blocking_add_def
    by (rule replies_on_key [OF inv]) (auto simp: i intro!: llm)
  show "replies (knn_command argv) st"
    unfolding knn_command_def
  proof (rule replies_parse [OF knn_parse_args_fails], rule replies_on_key [OF inv])
    fix a :: knn_args and so s assume ks: "key_store st (ka_key a) so s"
    show "replies (case Some so of None \<Rightarrow> throwS (Error ''vector store does not exist'')
       | Some so \<Rightarrow>
           bindS (if ka_embedding a = [] then
                    if ka_query a = [] then throwS (Error ''no query is specified'')
                    else
                      bindS (read_store so (\<lambda>s. Inr (li_key (vs_llm s)))) (\<lambda>key.
                      bindS (askS (get_value_by_key LlmType key)) (\<lambda>l.
                        case l of None \<Rightarrow> throwS (Error ''LLM model for vector store does not exist'')
                        | Some lo \<Rightarrow> returnS (Some lo)))
                  else returnS None)
             (\<lambda>lo. block_and_enqueue (\<lambda>c. KnnTask c a so lo))) st"
      by (auto simp: i intro!: replies_bindS llm [OF ks])
  qed (simp add: i)
  show "replies (run_command X argv) st"
    unfolding run_command_def
  proof (rule replies_parse [OF run_parse_args_fails [OF J]], rule replies_bindS [OF replies_key])
    fix a :: run_args and x st1 assume x: "askS (get_value_by_key AppType (ra_key a)) st = (Inr x, st1)"
    show "replies (case x of None \<Rightarrow> throwS (Error ''Application does not exist'')
       | Some ao \<Rightarrow>
           bindS (read_app ao) (\<lambda>app.
           bindS (askS (get_value_by_key LlmType (li_key (ap_llm app)))) (\<lambda>l.
             case l of None \<Rightarrow> throwS (Error ''LLM model not exist'')
             | Some lo \<Rightarrow> block_and_enqueue (\<lambda>c. RunTask c a ao lo)))) st1"
    proof (cases x)
      case (Some ao)
      then have "get_value_by_key AppType (ra_key a) st = Inr (Some ao)" "st1 = st" using x by (auto simp: askS_def)
      then obtain v where "rd_keys st (ra_key a) = Some v" "value_type v = Some AppType" "value_oid v = Some ao"
        by (cases rule: get_value_cases [of AppType "ra_key a" st]) auto
      moreover from this(1) have "value_ok st v" using inv unfolding redis_inv_def keys_ok_def by blast
      ultimately have "value_ok st (RApp ao)" by (cases v) auto
      then obtain app where "rd_apps st ao = Some app" by auto
      then have "read_app ao st = (Inr app, st)" by (simp add: read_app_def)
      then have r: "replies (bindS (read_app ao) g) st" if "replies (g app) st" for g :: "application \<Rightarrow> (('g, 'w) redis, reply) act"
        using that by (simp add: replies_def)
      show ?thesis unfolding \<open>st1 = st\<close> Some option.case by (intro r replies_llm_key) (simp_all add: i)
    qed (simp add: i)
  qed
qed

lemma vs_add_throws:
  assumes live: "store_live s" and add: "vs_add (hnsw_ops G) i data emb s = (Inl e, s1)" and e: "\<not> is_Error e"
  shows "vs_dim s = 0 \<and> \<not> can_alloc G (length emb) (hx_opts (vs_index s))"
proof (rule ccontr)
  assume n: "\<not> (vs_dim s = 0 \<and> \<not> can_alloc G (length emb) (hx_opts (vs_index s)))"
  have ne: "emb \<noteq> []" using add e by (auto simp: vs_add_def)
  show False
  proof (cases "accepts_dim G (length emb) s")
    case True
    then obtain s1 h where s1: "vs_ensure_dim (hnsw_ops G) (length emb) s = (Inr (), s1)" "vs_dim s1 = length emb" "hx_okay (length emb) (vs_index s1)"
      by (rule ensure_dim_ok [OF live]) blast
    then have "hnsw_add G i emb (vs_index s1) = Inl e" using add ne by (auto simp: vs_add_def split: sum.splits)
    then show False using hx.add_err [OF s1(3) refl, of G i] e by simp
  next
    case False
    then have "vs_dim s \<noteq> 0" "vs_dim s \<noteq> length emb" using n ne by (auto simp: accepts_dim_def)
    then show False using add e ne by (auto simp: vs_add_def vs_ensure_dim_def)
  qed
qed

definition cannot_index :: "'g graph_ops \<Rightarrow> nat \<Rightarrow> 'g hnsw_ix vector_store \<Rightarrow> bool" where
  "cannot_index G d s \<longleftrightarrow> \<not> store_live s \<or> vs_dim s = 0 \<and> \<not> can_alloc G d (hx_opts (vs_index s))"

lemma add_now_replies:
  assumes inv: "redis_inv st" and ok: "\<And>so s. key_store st (aa_key args) so s \<Longrightarrow> \<not> cannot_index (ex_graph X) (length (aa_embedding args)) s"
  shows "replies (add_now X args) st"
  unfolding add_now_def
proof (rule replies_on_key [OF inv])
  fix so s assume ks: "key_store st (aa_key args) so s"
  have "is_Error e" if "vs_add (store_ops X) i d (aa_embedding args) s' = (Inl e, s1)" "s' = s \<or> (\<exists>j. s' = vs_set_id_idx j s)" for i d e s' s1
  proof (rule ccontr)
    assume "\<not> is_Error e"
    moreover have "store_live s'" "vs_dim s' = vs_dim s" "hx_opts (vs_index s') = hx_opts (vs_index s)"
      using ok [OF ks] that(2) by (auto simp: cannot_index_def)
    ultimately show False using vs_add_throws [OF _ that(1)] ok [OF ks] by (simp add: cannot_index_def)
  qed
  note e = this [of _ _ s] this [of _ _ "vs_set_id_idx j s" for j]
  show "replies (case Some so of None \<Rightarrow> throwS (Error ''vector store does not exist'') | Some so \<Rightarrow>
           (case aa_id args of
              Some i \<Rightarrow> bindS (on_store so (vs_add (store_ops X) i (aa_data args) (aa_embedding args))) (\<lambda>_. returnS i)
            | None \<Rightarrow> on_store so (vs_add_auto (store_ops X) (aa_data args) (aa_embedding args)))) st"
    by (cases "aa_id args")
      (auto simp: replies_def key_store_value [OF ks] vs_add_auto_eq bindS_def split: prod.splits sum.splits dest: e(1) [OF _ disjI1] e(2) [OF _ disjI2])
qed (simp add: replies_intros)


lemma sample_inv: "redis_inv sample_redis"
proof -
  have k: "key_oid (rd_keys sample_redis) k = (if k = ''s'' then Some 0 else if k = ''m'' then Some 1 else None)" for k
    by (simp add: key_oid_def sample_redis_def)
  have "0 \<in> key_oids (rd_keys sample_redis)" "1 \<in> key_oids (rd_keys sample_redis)"
    unfolding key_oids_def using k [of "''s''"] k [of "''m''"] by auto
  moreover have "i = 0 \<or> i = 1" if "key_oid (rd_keys sample_redis) x = Some i" for i x using that by (simp add: k split: if_splits)
  ultimately have "key_oids (rd_keys sample_redis) = {0, 1}" unfolding key_oids_def by blast
  moreover have "keys_ok sample_redis"
    unfolding keys_ok_def
  proof (intro conjI allI impI)
    fix k v assume "rd_keys sample_redis k = Some v"
    then have "v = RVector 0 \<or> v = RLlm 1" by (simp add: sample_redis_def split: if_splits)
    then show "value_ok sample_redis v" by (elim disjE) (simp_all add: sample_redis_def)
  qed (simp add: k split: if_splits)
  moreover have "objects_ok sample_redis"
    using sample_store_ok by (simp add: objects_ok_def sample_redis_def llm_inv_def sample_llm_def)
  ultimately show ?thesis by (simp add: redis_inv_def sample_redis_def)
qed


text \<open>C17. LLM.CREATE-VECTOR-STORE: a key of another type is an error and nothing changes; NX on a key that exists and XX on a key that does
  not answer 0 and change nothing; otherwise the key holds the new, empty store and the other keys are as they
  were.  Except for the error the command is replicated.\<close>

theorem create_store_semantics:
  assumes "redis_inv st" and "create_store_parse_args (ex_json X) (''LLM.CREATE-VECTOR-STORE'' # rest) = Inr args"
    and "vector_store_create (ca_type args) (ca_params args) (ca_llm args) = Inr s"
  shows "\<exists>r st'. exec_command X (''LLM.CREATE-VECTOR-STORE'' # rest) st = (Inr r, st') \<and> redis_inv st' \<and>
    (case rd_keys st (ca_key args) of
       Some v \<Rightarrow>
         if value_type v \<noteq> Some VectorStoreType then r = RError (''ERR '' @ wrongtype_msg) \<and> st' = st
         else if ca_opt args = NX then r = RLong 0 \<and> st' = st\<lparr>rd_log := rd_log st @ [''LLM.CREATE-VECTOR-STORE'' # rest]\<rparr>
         else r = RLong 1 \<and> key_store st' (ca_key args) (rd_next st) s
     | None \<Rightarrow>
         if ca_opt args = XX then r = RLong 0 \<and> st' = st\<lparr>rd_log := rd_log st @ [''LLM.CREATE-VECTOR-STORE'' # rest]\<rparr>
         else r = RLong 1 \<and> key_store st' (ca_key args) (rd_next st) s) \<and>
    (r = RLong 1 \<longrightarrow> rd_keys st' = (rd_keys st)(ca_key args \<mapsto> RVector (rd_next st)) \<and>
       rd_log st' = rd_log st @ [''LLM.CREATE-VECTOR-STORE'' # rest])"
proof -
  let ?argv = "''LLM.CREATE-VECTOR-STORE'' # rest" and ?k = "ca_key args"
  let ?st1 = "register_object (st\<lparr>rd_stores := (rd_stores st)(rd_next st \<mapsto> s)\<rparr>)"
  let ?st2 = "set_value ?k (RVector (rd_next st)) ?st1"
  let ?st3 = "?st2\<lparr>rd_log := rd_log ?st2 @ [?argv]\<rparr>"
  have c: "create_vector_store (ca_type args) (ca_params args) (ca_llm args) st = (Inr (rd_next st), ?st1)"
    using assms(3) by (simp add: create_vector_store_def)
  from create_vector_store_cases [OF assms(1) c] have "new_object st (rd_next st) (RVector (rd_next st)) ?st1" by auto
  then have inv3: "redis_inv ?st3" using set_value_inv [OF assms(1)] redis_inv_frame [of ?st2 ?st3] by simp
  have inv0: "redis_inv (st\<lparr>rd_log := rd_log st @ [?argv]\<rparr>)" by (rule redis_inv_frame [OF assms(1)]) simp_all
  have run: "exec_command X ?argv st = command_run (create_vector_store_command X ?argv) st"
    by (simp add: exec_command_eq [OF find_command_simps(5)])
  have ok: "create_vector_store_command X ?argv st = (Inr (RLong 1), ?st3)" if "create_key VectorStoreType ?k (ca_opt args) st = Inr True"
    using that c assms(2) by (simp add: create_vector_store_command_def create_object_def askS_def replicate_cmd_def)
  have no: "create_vector_store_command X ?argv st = (Inr (RLong 0), st\<lparr>rd_log := rd_log st @ [?argv]\<rparr>)"
    if "create_key VectorStoreType ?k (ca_opt args) st = Inr False"
    using that assms(2) by (simp add: create_vector_store_command_def create_object_def askS_def replicate_cmd_def bindS_def)
  have wrong: "create_vector_store_command X ?argv st = (Inl (WrongTypeError m), st)"
    if "create_key VectorStoreType ?k (ca_opt args) st = Inl (WrongTypeError m)" for m
    using that assms(2) by (simp add: create_vector_store_command_def create_object_def askS_def)
  have ks: "key_store ?st3 ?k (rd_next st) s" "rd_keys ?st3 = (rd_keys st)(?k \<mapsto> RVector (rd_next st))" "rd_log ?st3 = rd_log st @ [?argv]"
    by (simp_all add: key_store_def register_object_def set_value_def)
  have key: "create_key VectorStoreType ?k (ca_opt args) st =
     (case rd_keys st ?k of
        Some v \<Rightarrow> if value_type v \<noteq> Some VectorStoreType then Inl (WrongTypeError wrongtype_msg) else Inr (ca_opt args \<noteq> NX)
      | None \<Rightarrow> Inr (ca_opt args \<noteq> XX))"
    by (simp add: create_key_def key_exists_def split: option.split)
  note res = ok no wrong
  show ?thesis
  proof (cases "create_key VectorStoreType ?k (ca_opt args) st")
    case (Inl e)
    then show ?thesis using key wrong [of wrongtype_msg] assms(1) unfolding run
      by (intro exI [of _ "RError (''ERR '' @ wrongtype_msg)"] exI [of _ st]) (auto split: option.splits if_splits)
  next
    case (Inr b)
    show ?thesis
    proof (cases b)
      case True
      then show ?thesis using key Inr ok inv3 ks unfolding run
        by (intro exI [of _ "RLong 1"] exI [of _ ?st3]) (simp split: option.splits if_splits)
    next
      case False
      then show ?thesis using key Inr no inv0 unfolding run
        by (intro exI [of _ "RLong 0"] exI [of _ "st\<lparr>rd_log := rd_log st @ [?argv]\<rparr>"]) (simp split: option.splits if_splits)
    qed
  qed
qed

theorem create_store_semantics_witness:
  "\<exists>st'. exec_command sample_ext [''LLM.CREATE-VECTOR-STORE'', ''s'', ''--NX''] sample_redis = (Inr (RLong 0), st') \<and> redis_inv st'"
proof -
  let ?args = "\<lparr>ca_key = ''s'', ca_type = ''hnsw'', ca_opt = NX, ca_params = JObject [], ca_llm = llm_info_default\<rparr>"
  have p: "create_store_parse_args (ex_json sample_ext) [''LLM.CREATE-VECTOR-STORE'', ''s'', ''--NX''] = Inr ?args"
    by (simp add: create_store_parse_args_def create_parse_def create_store_opt_def create_args_init_def opt_flag_def no_more_def eval_names)
  have "vector_store_create (ca_type ?args) (ca_params ?args) (ca_llm ?args) = Inr sample_store"
    by (simp add: vector_store_create_def hnsw_create_def hnsw_parse_options_def sample_store_def)
  from create_store_semantics [OF sample_inv p this] show ?thesis by (auto simp: sample_redis_def)
qed

text \<open>C20. What ends the process: an LLM.CREATE-APP whose parameters are valid JSON but not an object, or whose prompt is not a template that
  can be parsed, throws an exception that no handler takes, so the server is terminated by one command of
  a client.\<close>

theorem create_app_ends_process:
  assumes "rd_keys st k = None"
  shows "(jparse (ex_json X) p = Inr conf \<and> (\<nexists>m. conf = JObject m) \<longrightarrow>
      exec_command X [''LLM.CREATE-APP'', k, ''--PARAMS'', p] st = (Inl Abort, st)) \<and>
    (tpl_parse (ex_inja X) t = Inl (StdException m) \<longrightarrow>
      exec_command X [''LLM.CREATE-APP'', k, ''--PROMPT'', t] st = (Inl Abort, st))"
proof (intro conjI impI; (elim conjE)?)
  show "exec_command X [''LLM.CREATE-APP'', k, ''--PARAMS'', p] st = (Inl Abort, st)"
    if p: "jparse (ex_json X) p = Inr conf" and n: "\<nexists>m. conf = JObject m"
  proof -
    have a: "create_app_parse_args (ex_json X) [''LLM.CREATE-APP'', k, ''--PARAMS'', p] =
        Inr \<lparr>ca_key = k, ca_type = ''app'', ca_opt = NONE, ca_params = conf, ca_llm = llm_info_default\<rparr>"
      using p by (simp add: create_app_parse_args_def create_parse_def create_app_opt_def create_args_init_def opt_value_def
          to_json_def no_more_def)
    obtain m where "app_create (ex_inja X) ''app'' llm_info_default conf = Inl (JsonException m)"
      using n by (cases conf) (auto simp: app_create_def simple_app_create_def type_error_def)
    then show ?thesis using assms a
      by (simp add: exec_command_eq [OF find_command_simps(1)] create_app_command_def create_application_command_def create_object_def
          askS_def create_key_def key_exists_def create_application_def command_run_def throwS_def)
  qed
  show "exec_command X [''LLM.CREATE-APP'', k, ''--PROMPT'', t] st = (Inl Abort, st)"
    if "tpl_parse (ex_inja X) t = Inl (StdException m)"
  proof -
    have a: "create_app_parse_args (ex_json X) [''LLM.CREATE-APP'', k, ''--PROMPT'', t] =
        Inr \<lparr>ca_key = k, ca_type = ''app'', ca_opt = NONE, ca_params = JObject [(''prompt'', JString t)], ca_llm = llm_info_default\<rparr>"
      by (simp add: create_app_parse_args_def create_parse_def create_app_opt_def create_args_init_def opt_value_def
          set_param_def no_more_def eval_names)
    have "app_create (ex_inja X) ''app'' llm_info_default (JObject [(''prompt'', JString t)]) = Inl (StdException m)"
      using that by (simp add: app_create_def simple_app_create_def prompt_new_def)
    then show ?thesis using assms a
      by (simp add: exec_command_eq [OF find_command_simps(1)] create_app_command_def create_application_command_def create_object_def
          askS_def create_key_def key_exists_def create_application_def command_run_def throwS_def)
  qed
qed

theorem create_app_ends_process_witness:
  "exec_command sample_ext [''LLM.CREATE-APP'', ''a'', ''--PARAMS'', ''[]''] sample_redis = (Inl Abort, sample_redis) \<and>
   exec_command sample_ext [''LLM.CREATE-APP'', ''a'', ''--PROMPT'', ''{{''] sample_redis = (Inl Abort, sample_redis)"
proof -
  have k: "rd_keys sample_redis ''a'' = None" by (simp add: sample_redis_def)
  have "jparse (ex_json sample_ext) ''[]'' = Inr (JArray [])" by (simp add: sample_json_def)
  moreover have "tpl_parse (ex_inja sample_ext) ''{{'' = Inl (StdException ''[inja.exception.parser_error]'')"
    by (simp add: sample_ext_def sample_inja_def)
  ultimately show ?thesis
    using create_app_ends_process [OF k, of sample_ext "''[]''" "JArray []" "''{{''" "''[inja.exception.parser_error]''"] by simp
qed

end
