(* ===== verification/Json_Lexer.thy ===== *)
theory Json_Lexer
  imports Json
begin

text \<open>
  The lexer of \<open>json.hpp\<close> (class \<open>detail::lexer\<close>): reading with one character of push-back, positions, the
  scanners of strings, numbers and literals.  The end of the input is \<open>None\<close> as the current character; bytes
  are compared by their value.  Comments are not ignored in any call of the program, and the decimal
  point of the locale is a point.
\<close>

section \<open>State\<close>

record lexer =
  lx_input :: string
  lx_current :: "char option"
  lx_unget :: bool
  lx_total :: nat
  lx_column :: nat
  lx_lines :: nat
  lx_token :: string
  lx_buffer :: string
  lx_error :: string

text \<open>The token types, with the value that the getters give for them; \<open>uninitialized\<close> and \<open>literal_or_value\<close> only
  occur in messages.\<close>

datatype token =
    TTrue | TFalse | TNull
  | TString string
  | TUnsigned "64 word"
  | TInteger "64 word"
  | TFloat "64 word"
  | TBeginArray | TBeginObject | TEndArray | TEndObject
  | TNameSep | TValueSep
  | TError | TEnd
  | TUninitialized | TLiteralOrValue

fun token_type_name :: "token \<Rightarrow> string" where
  "token_type_name TUninitialized = ''<uninitialized>''"
| "token_type_name TTrue = ''true literal''"
| "token_type_name TFalse = ''false literal''"
| "token_type_name TNull = ''null literal''"
| "token_type_name (TString s) = ''string literal''"
| "token_type_name (TUnsigned n) = ''number literal''"
| "token_type_name (TInteger n) = ''number literal''"
| "token_type_name (TFloat n) = ''number literal''"
| "token_type_name TBeginArray = [CHR 0x27] @ ''['' @ [CHR 0x27]"
| "token_type_name TBeginObject = [CHR 0x27] @ ''{'' @ [CHR 0x27]"
| "token_type_name TEndArray = [CHR 0x27] @ '']'' @ [CHR 0x27]"
| "token_type_name TEndObject = [CHR 0x27] @ ''}'' @ [CHR 0x27]"
| "token_type_name TNameSep = [CHR 0x27] @ '':'' @ [CHR 0x27]"
| "token_type_name TValueSep = [CHR 0x27] @ '','' @ [CHR 0x27]"
| "token_type_name TError = ''<parse error>''"
| "token_type_name TEnd = ''end of input''"
| "token_type_name TLiteralOrValue =
     [CHR 0x27] @ ''['' @ [CHR 0x27] @ '', '' @ [CHR 0x27] @ ''{'' @ [CHR 0x27] @ '', or a literal''"

definition lx_new :: "string \<Rightarrow> lexer" where
  "lx_new s = \<lparr>lx_input = s, lx_current = None, lx_unget = False, lx_total = 0, lx_column = 0, lx_lines = 0,
     lx_token = [], lx_buffer = [], lx_error = []\<rparr>"

section \<open>Input\<close>

definition lx_get :: "lexer \<Rightarrow> lexer" where
  "lx_get l =
     (let l1 = l\<lparr>lx_total := lx_total l + 1, lx_column := lx_column l + 1\<rparr>;
          l2 = (if lx_unget l1 then l1\<lparr>lx_unget := False\<rparr>
                else case lx_input l1 of
                    [] \<Rightarrow> l1\<lparr>lx_current := None\<rparr>
                  | c # cs \<Rightarrow> l1\<lparr>lx_current := Some c, lx_input := cs\<rparr>);
          l3 = (case lx_current l2 of None \<Rightarrow> l2 | Some c \<Rightarrow> l2\<lparr>lx_token := lx_token l2 @ [c]\<rparr>)
      in if lx_current l3 = Some (CHR 0x0A) then l3\<lparr>lx_lines := lx_lines l3 + 1, lx_column := 0\<rparr> else l3)"

definition lx_unget_char :: "lexer \<Rightarrow> lexer" where
  "lx_unget_char l =
     (let l1 = l\<lparr>lx_unget := True, lx_total := lx_total l - 1\<rparr>;
          l2 = (if lx_column l1 = 0 then (if 0 < lx_lines l1 then l1\<lparr>lx_lines := lx_lines l1 - 1\<rparr> else l1)
                else l1\<lparr>lx_column := lx_column l1 - 1\<rparr>)
      in if lx_current l2 \<noteq> None then l2\<lparr>lx_token := butlast (lx_token l2)\<rparr> else l2)"

definition lx_reset :: "lexer \<Rightarrow> lexer" where
  "lx_reset l = l\<lparr>lx_buffer := [], lx_token := (case lx_current l of None \<Rightarrow> [CHR 0xFF] | Some c \<Rightarrow> [c])\<rparr>"

definition lx_add :: "char \<Rightarrow> lexer \<Rightarrow> lexer" where
  "lx_add c l = l\<lparr>lx_buffer := lx_buffer l @ [c]\<rparr>"

definition lx_add_all :: "string \<Rightarrow> lexer \<Rightarrow> lexer" where
  "lx_add_all s l = l\<lparr>lx_buffer := lx_buffer l @ s\<rparr>"

definition lx_fail :: "string \<Rightarrow> lexer \<Rightarrow> token \<times> lexer" where
  "lx_fail msg l = (TError, l\<lparr>lx_error := msg\<rparr>)"

text \<open>What is still to be read.\<close>

definition lx_view :: "lexer \<Rightarrow> string" where
  "lx_view l = (if lx_unget l then (case lx_current l of None \<Rightarrow> lx_input l | Some c \<Rightarrow> c # lx_input l) else lx_input l)"

abbreviation lx_left :: "lexer \<Rightarrow> nat" where
  "lx_left l \<equiv> length (lx_view l)"

definition lx_at :: "lexer \<Rightarrow> string \<Rightarrow> bool" where
  "lx_at l xs \<longleftrightarrow> lx_view l = xs \<and> (lx_unget l \<and> lx_current l = None \<longrightarrow> lx_input l = [])"

lemma lx_get_simps [simp]:
  "lx_unget (lx_get l) = False"
  "lx_buffer (lx_get l) = lx_buffer l"
  "lx_error (lx_get l) = lx_error l"
  by (auto simp: lx_get_def Let_def split: option.split list.split)

lemma lx_get_left: "lx_current (lx_get l) = Some c \<Longrightarrow> lx_view l = c # lx_view (lx_get l)"
  by (auto simp: lx_get_def lx_view_def Let_def split: option.splits list.splits if_splits)

lemma lx_get_less: "lx_current (lx_get l) = Some c \<Longrightarrow> lx_left (lx_get l) < lx_left l"
  by (simp add: lx_get_left)

lemma lx_get_le: "lx_left (lx_get l) \<le> lx_left l"
  by (auto simp: lx_get_def lx_view_def Let_def split: option.splits list.splits if_splits)

lemma lx_at_Cons:
  "lx_at l (c # xs) \<Longrightarrow> lx_current (lx_get l) = Some c"
  "lx_at l (c # xs) \<Longrightarrow> lx_at (lx_get l) xs"
  by (auto simp: lx_at_def lx_get_def lx_view_def Let_def split: option.splits list.splits if_splits)

lemma lx_at_Nil: "lx_at l [] \<Longrightarrow> lx_current (lx_get l) = None" "lx_at l [] \<Longrightarrow> lx_at (lx_get l) []"
  by (auto simp: lx_at_def lx_get_def lx_view_def Let_def split: option.splits list.splits if_splits)

lemma lx_at_simps [simp]:
  "lx_at (lx_add c l) xs = lx_at l xs" "lx_at (lx_add_all s l) xs = lx_at l xs" "lx_at (lx_reset l) xs = lx_at l xs"
  "lx_at (l\<lparr>lx_error := m\<rparr>) xs = lx_at l xs"
  "lx_view (lx_add c l) = lx_view l" "lx_view (lx_add_all s l) = lx_view l" "lx_view (lx_reset l) = lx_view l"
  "lx_view (l\<lparr>lx_error := m\<rparr>) = lx_view l"
  "lx_buffer (lx_add c l) = lx_buffer l @ [c]" "lx_buffer (lx_add_all s l) = lx_buffer l @ s" "lx_buffer (lx_reset l) = []"
  "lx_current (lx_add c l) = lx_current l" "lx_current (lx_add_all s l) = lx_current l" "lx_current (lx_reset l) = lx_current l"
  by (simp_all add: lx_at_def lx_view_def lx_add_def lx_add_all_def lx_reset_def split: option.split)

lemma lx_unget_simps [simp]: "lx_buffer (lx_unget_char l) = lx_buffer l" "lx_current (lx_unget_char l) = lx_current l"
  by (simp_all add: lx_unget_char_def Let_def)

lemma lx_unget_view:
  "\<not> lx_unget l \<Longrightarrow> lx_view (lx_unget_char l) = (case lx_current l of None \<Rightarrow> lx_view l | Some c \<Rightarrow> c # lx_view l)"
  by (auto simp: lx_unget_char_def lx_view_def Let_def split: option.split)

lemma lx_at_unget: "lx_at l xs \<Longrightarrow> lx_at (lx_unget_char (lx_get l)) xs"
proof (cases xs)
  case Nil
  then show "lx_at l xs \<Longrightarrow> ?thesis" using lx_at_Nil [of l] lx_unget_view [of "lx_get l"]
    by (auto simp: lx_at_def lx_unget_char_def Let_def lx_view_def split: option.splits)
next
  case (Cons c ys)
  then show "lx_at l xs \<Longrightarrow> ?thesis" using lx_at_Cons [of l c ys] lx_unget_view [of "lx_get l"]
    by (simp add: lx_at_def)
qed

lemma lx_unget_left: "lx_left (lx_unget_char (lx_get l)) \<le> lx_left l"
  using lx_unget_view [of "lx_get l"] lx_get_left [of l] lx_get_le [of l] by (cases "lx_current (lx_get l)") auto

section \<open>Strings\<close>

definition hex_value :: "char option \<Rightarrow> nat option" where
  "hex_value oc =
     (case oc of None \<Rightarrow> None
      | Some c \<Rightarrow>
          if 48 \<le> byte c \<and> byte c \<le> 57 then Some (byte c - 48)
          else if 65 \<le> byte c \<and> byte c \<le> 70 then Some (byte c - 55)
          else if 97 \<le> byte c \<and> byte c \<le> 102 then Some (byte c - 87)
          else None)"

fun get_codepoint_from :: "nat list \<Rightarrow> nat \<Rightarrow> lexer \<Rightarrow> nat option \<times> lexer" where
  "get_codepoint_from [] codepoint l = (Some codepoint, l)"
| "get_codepoint_from (factor # factors) codepoint l =
     (let l1 = lx_get l in
      case hex_value (lx_current l1) of
        None \<Rightarrow> (None, l1)
      | Some v \<Rightarrow> get_codepoint_from factors (codepoint + v * 2 ^ factor) l1)"

definition get_codepoint :: "lexer \<Rightarrow> nat option \<times> lexer" where
  "get_codepoint = get_codepoint_from [12, 8, 4, 0] 0"

fun bytes_in_ranges :: "(nat \<times> nat) list \<Rightarrow> lexer \<Rightarrow> bool \<times> lexer" where
  "bytes_in_ranges [] l = (True, l)"
| "bytes_in_ranges ((lo, hi) # ranges) l =
     (let l1 = lx_get l in
      case lx_current l1 of
        None \<Rightarrow> (False, l1\<lparr>lx_error := ''invalid string: ill-formed UTF-8 byte''\<rparr>)
      | Some c \<Rightarrow>
          if lo \<le> byte c \<and> byte c \<le> hi then bytes_in_ranges ranges (lx_add c l1)
          else (False, l1\<lparr>lx_error := ''invalid string: ill-formed UTF-8 byte''\<rparr>))"

definition next_byte_in_range :: "char \<Rightarrow> (nat \<times> nat) list \<Rightarrow> lexer \<Rightarrow> bool \<times> lexer" where
  "next_byte_in_range c ranges l = bytes_in_ranges ranges (lx_add c l)"

text \<open>The bytes that may follow the first byte of a character, by the cases of \<open>scan_string\<close>.\<close>

definition utf8_ranges :: "nat \<Rightarrow> (nat \<times> nat) list option" where
  "utf8_ranges b =
     (if 0x20 \<le> b \<and> b \<le> 0x7F then Some []
      else if 0xC2 \<le> b \<and> b \<le> 0xDF then Some [(0x80, 0xBF)]
      else if b = 0xE0 then Some [(0xA0, 0xBF), (0x80, 0xBF)]
      else if 0xE1 \<le> b \<and> b \<le> 0xEC \<or> b = 0xEE \<or> b = 0xEF then Some [(0x80, 0xBF), (0x80, 0xBF)]
      else if b = 0xED then Some [(0x80, 0x9F), (0x80, 0xBF)]
      else if b = 0xF0 then Some [(0x90, 0xBF), (0x80, 0xBF), (0x80, 0xBF)]
      else if 0xF1 \<le> b \<and> b \<le> 0xF3 then Some [(0x80, 0xBF), (0x80, 0xBF), (0x80, 0xBF)]
      else if b = 0xF4 then Some [(0x80, 0x8F), (0x80, 0xBF), (0x80, 0xBF)]
      else None)"

text \<open>A code point as UTF-8; the operands of each \<open>|\<close> of the source have no bit in common.\<close>

definition utf8_encode :: "nat \<Rightarrow> string" where
  "utf8_encode cp =
     (if cp < 0x80 then [char_of cp]
      else if cp \<le> 0x7FF then [char_of (0xC0 + cp div 2 ^ 6), char_of (0x80 + cp mod 2 ^ 6)]
      else if cp \<le> 0xFFFF then
        [char_of (0xE0 + cp div 2 ^ 12), char_of (0x80 + cp div 2 ^ 6 mod 2 ^ 6), char_of (0x80 + cp mod 2 ^ 6)]
      else
        [char_of (0xF0 + cp div 2 ^ 18), char_of (0x80 + cp div 2 ^ 12 mod 2 ^ 6),
         char_of (0x80 + cp div 2 ^ 6 mod 2 ^ 6), char_of (0x80 + cp mod 2 ^ 6)])"

definition control_names :: "string list" where
  "control_names =
     [''NUL'', ''SOH'', ''STX'', ''ETX'', ''EOT'', ''ENQ'', ''ACK'', ''BEL'', ''BS'', ''HT'', ''LF'', ''VT'', ''FF'', ''CR'', ''SO'', ''SI'',
      ''DLE'', ''DC1'', ''DC2'', ''DC3'', ''DC4'', ''NAK'', ''SYN'', ''ETB'', ''CAN'', ''EM'', ''SUB'', ''ESC'', ''FS'', ''GS'', ''RS'', ''US'']"

definition upper_hex :: "nat \<Rightarrow> char" where
  "upper_hex n = (if n < 10 then char_of (48 + n) else char_of (55 + n))"

definition backslash :: char where
  "backslash = CHR 0x5C"

definition quote :: char where
  "quote = CHR 0x22"

definition control_message :: "nat \<Rightarrow> string" where
  "control_message b =
     (let hex = ''00'' @ [upper_hex (b div 16), upper_hex (b mod 16)] in
      ''invalid string: control character U+'' @ hex @ '' ('' @ control_names ! b @ '') must be escaped to '' @
      [backslash] @ ''u'' @ hex @
      (if b = 8 then '' or '' @ [backslash] @ ''b'' else if b = 9 then '' or '' @ [backslash] @ ''t''
       else if b = 10 then '' or '' @ [backslash] @ ''n'' else if b = 12 then '' or '' @ [backslash] @ ''f''
       else if b = 13 then '' or '' @ [backslash] @ ''r'' else []))"

text \<open>After the reverse solidus.  \<open>True\<close>: the escape has been added to the buffer.\<close>

definition unicode_error :: string where
  "unicode_error = ''invalid string: '' @ [CHR 0x27, backslash] @ ''u'' @ [CHR 0x27] @ '' must be followed by 4 hex digits''"

definition high_surrogate_error :: string where
  "high_surrogate_error = ''invalid string: surrogate U+D800..U+DBFF must be followed by U+DC00..U+DFFF''"

definition low_surrogate_error :: string where
  "low_surrogate_error = ''invalid string: surrogate U+DC00..U+DFFF must follow U+D800..U+DBFF''"

definition scan_unicode :: "lexer \<Rightarrow> bool \<times> lexer" where
  "scan_unicode l =
     (case get_codepoint l of
        (None, l1) \<Rightarrow> (False, l1\<lparr>lx_error := unicode_error\<rparr>)
      | (Some cp1, l1) \<Rightarrow>
          if 0xD800 \<le> cp1 \<and> cp1 \<le> 0xDBFF then
            (let l2 = lx_get l1 in
             if lx_current l2 \<noteq> Some backslash then (False, l2\<lparr>lx_error := high_surrogate_error\<rparr>)
             else
               let l3 = lx_get l2 in
               if lx_current l3 \<noteq> Some (CHR ''u'') then (False, l3\<lparr>lx_error := high_surrogate_error\<rparr>)
               else
                 case get_codepoint l3 of
                   (None, l4) \<Rightarrow> (False, l4\<lparr>lx_error := unicode_error\<rparr>)
                 | (Some cp2, l4) \<Rightarrow>
                     if 0xDC00 \<le> cp2 \<and> cp2 \<le> 0xDFFF then
                       (True, lx_add_all (utf8_encode (cp1 * 2 ^ 10 + cp2 - 0x35FDC00)) l4)
                     else (False, l4\<lparr>lx_error := high_surrogate_error\<rparr>))
          else if 0xDC00 \<le> cp1 \<and> cp1 \<le> 0xDFFF then (False, l1\<lparr>lx_error := low_surrogate_error\<rparr>)
          else (True, lx_add_all (utf8_encode cp1) l1))"

definition scan_escape :: "lexer \<Rightarrow> bool \<times> lexer" where
  "scan_escape l =
     (let l1 = lx_get l in
      case lx_current l1 of
        None \<Rightarrow> (False, l1\<lparr>lx_error := ''invalid string: forbidden character after backslash''\<rparr>)
      | Some c \<Rightarrow>
          if c = quote \<or> c = backslash \<or> c = CHR ''/'' then (True, lx_add c l1)
          else if c = CHR ''b'' then (True, lx_add (CHR 0x08) l1)
          else if c = CHR ''f'' then (True, lx_add (CHR 0x0C) l1)
          else if c = CHR ''n'' then (True, lx_add (CHR 0x0A) l1)
          else if c = CHR ''r'' then (True, lx_add (CHR 0x0D) l1)
          else if c = CHR ''t'' then (True, lx_add (CHR 0x09) l1)
          else if c = CHR ''u'' then scan_unicode l1
          else (False, l1\<lparr>lx_error := ''invalid string: forbidden character after backslash''\<rparr>))"

lemma get_codepoint_from_left: "get_codepoint_from fs cp l = (r, l') \<Longrightarrow> lx_left l' \<le> lx_left l"
proof (induction fs arbitrary: cp l)
  case (Cons f fs)
  then show ?case
    using lx_get_le [of l] by (auto simp: Let_def split: option.splits) (meson le_trans)+
qed simp

lemma bytes_in_ranges_left: "bytes_in_ranges rs l = (r, l') \<Longrightarrow> lx_left l' \<le> lx_left l"
proof (induction rs arbitrary: l)
  case (Cons p rs)
  obtain lo hi where p: "p = (lo, hi)" by force
  show ?case
  proof (cases "lx_current (lx_get l)")
    case None
    then show ?thesis using Cons.prems lx_get_le [of l] by (auto simp: p Let_def)
  next
    case (Some c)
    then show ?thesis using Cons.prems lx_get_le [of l] Cons.IH [of "lx_add c (lx_get l)"]
      by (auto simp: p Let_def split: if_splits)
  qed
qed simp

lemma scan_unicode_left: "scan_unicode l = (r, l') \<Longrightarrow> lx_left l' \<le> lx_left l"
proof -
  assume s: "scan_unicode l = (r, l')"
  obtain o1 l1 where g1: "get_codepoint l = (o1, l1)" by force
  obtain o2 l4 where g2: "get_codepoint (lx_get (lx_get l1)) = (o2, l4)" by force
  have "lx_left l1 \<le> lx_left l" "lx_left l4 \<le> lx_left (lx_get (lx_get l1))"
    using get_codepoint_from_left g1 g2 unfolding get_codepoint_def by blast+
  moreover have "lx_left (lx_get (lx_get l1)) \<le> lx_left (lx_get l1)" "lx_left (lx_get l1) \<le> lx_left l1" by (rule lx_get_le)+
  ultimately show ?thesis
    using s g1 g2 by (auto simp: scan_unicode_def Let_def split: option.splits if_splits)
qed

lemma scan_escape_left: "scan_escape l = (r, l') \<Longrightarrow> lx_left l' \<le> lx_left l"
  using lx_get_le [of l] scan_unicode_left [of "lx_get l" r l']
  by (auto simp: scan_escape_def Let_def split: option.splits if_splits)

function scan_string_from :: "lexer \<Rightarrow> token \<times> lexer" where
  "scan_string_from l =
     (let l1 = lx_get l in
      case lx_current l1 of
        None \<Rightarrow> lx_fail ''invalid string: missing closing quote'' l1
      | Some c \<Rightarrow>
          if c = quote then (TString (lx_buffer l1), l1)
          else if c = backslash then
            (case scan_escape l1 of (ok, l2) \<Rightarrow> if ok then scan_string_from l2 else (TError, l2))
          else if byte c < 0x20 then lx_fail (control_message (byte c)) l1
          else
            case utf8_ranges (byte c) of
              None \<Rightarrow> lx_fail ''invalid string: ill-formed UTF-8 byte'' l1
            | Some ranges \<Rightarrow>
                (case next_byte_in_range c ranges l1 of (ok, l2) \<Rightarrow> if ok then scan_string_from l2 else (TError, l2)))"
  by pat_completeness auto
termination
proof (relation "measure lx_left", simp)
  fix l l1 :: lexer and c ok l2
  assume "l1 = lx_get l" "lx_current l1 = Some c" "(ok, l2) = scan_escape l1"
  then show "(l2, l) \<in> measure lx_left"
    using scan_escape_left [of l1 ok l2] lx_get_less [of l c] by (metis in_measure le_less_trans)
next
  fix l l1 :: lexer and c rs ok l2
  assume "l1 = lx_get l" "lx_current l1 = Some c" "(ok, l2) = next_byte_in_range c rs l1"
  then show "(l2, l) \<in> measure lx_left"
    using bytes_in_ranges_left [of rs "lx_add c l1" ok l2] lx_get_less [of l c] by (simp add: next_byte_in_range_def)
qed

declare scan_string_from.simps [simp del]

definition scan_string :: "lexer \<Rightarrow> token \<times> lexer" where
  "scan_string l = scan_string_from (lx_reset l)"

section \<open>Numbers\<close>

text \<open>The state machine of \<open>scan_number\<close>: a label is a state, a \<open>goto\<close> a transition.  \<open>num_goto q c\<close> is \<open>None\<close> where the
  source takes the default branch.\<close>

datatype num_state = Minus | Zero | Any1 | Decimal1 | Decimal2 | Exponent | Sign | Any2

datatype num_type = Unsigned | Integer | Float

definition is_exponent :: "char \<Rightarrow> bool" where
  "is_exponent c \<longleftrightarrow> c = CHR ''e'' \<or> c = CHR ''E''"

fun num_goto :: "num_state \<Rightarrow> char \<Rightarrow> num_state option" where
  "num_goto Minus c = (if c = CHR ''0'' then Some Zero else if isdigit c then Some Any1 else None)"
| "num_goto Zero c = (if c = CHR ''.'' then Some Decimal1 else if is_exponent c then Some Exponent else None)"
| "num_goto Any1 c =
     (if isdigit c then Some Any1 else if c = CHR ''.'' then Some Decimal1 else if is_exponent c then Some Exponent else None)"
| "num_goto Decimal1 c = (if isdigit c then Some Decimal2 else None)"
| "num_goto Decimal2 c = (if isdigit c then Some Decimal2 else if is_exponent c then Some Exponent else None)"
| "num_goto Exponent c =
     (if c = CHR ''+'' \<or> c = CHR ''-'' then Some Sign else if isdigit c then Some Any2 else None)"
| "num_goto Sign c = (if isdigit c then Some Any2 else None)"
| "num_goto Any2 c = (if isdigit c then Some Any2 else None)"

text \<open>The default branch: an error message, or the number is done.\<close>

fun num_error :: "num_state \<Rightarrow> string option" where
  "num_error Minus = Some (''invalid number; expected digit after '' @ [CHR 0x27] @ ''-'' @ [CHR 0x27])"
| "num_error Decimal1 = Some (''invalid number; expected digit after '' @ [CHR 0x27] @ ''.'' @ [CHR 0x27])"
| "num_error Exponent =
     Some (''invalid number; expected '' @ [CHR 0x27] @ ''+'' @ [CHR 0x27] @ '', '' @ [CHR 0x27] @ ''-'' @ [CHR 0x27] @
       '', or digit after exponent'')"
| "num_error Sign = Some ''invalid number; expected digit after exponent sign''"
| "num_error _ = None"

text \<open>The assignment to \<open>number_type\<close> at a label.\<close>

fun num_enter :: "num_state \<Rightarrow> num_type \<Rightarrow> num_type" where
  "num_enter Minus t = Integer"
| "num_enter Decimal1 t = Float"
| "num_enter Exponent t = Float"
| "num_enter _ t = t"

text \<open>\<open>strtod\<close> on the text of a number: the nearest binary64, ties to even; too large becomes infinite.\<close>

definition round_f64 :: "bool \<Rightarrow> nat \<Rightarrow> nat \<Rightarrow> 64 word" where
  "round_f64 neg p q =
     (let P = p * 2 ^ 1074; j = bitlen (P div q) - 53;
          b = min (2047 * 2 ^ 52) (j * 2 ^ 52 + round_div P (q * 2 ^ j))
      in of_nat ((if neg then 2 ^ 63 else 0) + b))"

definition strtod_number :: "string \<Rightarrow> 64 word" where
  "strtod_number s =
     (let (neg, t) = split_sign s in
      case read_decimal t of Some (FNum p q) \<Rightarrow> round_f64 neg p q | _ \<Rightarrow> 0)"

definition f64_is_finite :: "64 word \<Rightarrow> bool" where
  "f64_is_finite x \<longleftrightarrow> f64_exp x \<noteq> 2047"

definition number_token :: "num_type \<Rightarrow> string \<Rightarrow> token" where
  "number_token ty s =
     (case ty of
        Unsigned \<Rightarrow> (let n = digits_val s in if n < 2 ^ 64 then TUnsigned (of_nat n) else TFloat (strtod_number s))
      | Integer \<Rightarrow> (let m = digits_val (tl s) in if m \<le> 2 ^ 63 then TInteger (- of_nat m) else TFloat (strtod_number s))
      | Float \<Rightarrow> TFloat (strtod_number s))"

definition scan_number_done :: "num_type \<Rightarrow> lexer \<Rightarrow> token \<times> lexer" where
  "scan_number_done ty l = (let l1 = lx_unget_char l in (number_token ty (lx_buffer l1), l1))"

function scan_number_from :: "num_state \<Rightarrow> num_type \<Rightarrow> lexer \<Rightarrow> token \<times> lexer" where
  "scan_number_from q ty l =
     (let l1 = lx_get l; ty1 = num_enter q ty in
      case Option.bind (lx_current l1) (\<lambda>c. map_option (Pair c) (num_goto q c)) of
        Some (c, q') \<Rightarrow> scan_number_from q' ty1 (lx_add c l1)
      | None \<Rightarrow>
          (case num_error q of
             Some msg \<Rightarrow> lx_fail msg l1
           | None \<Rightarrow> scan_number_done ty1 l1))"
  by pat_completeness auto
termination
  by (relation "measure (\<lambda>(q, ty, l). lx_left l)") (auto simp: bind_eq_Some_conv lx_get_less)

declare scan_number_from.simps [simp del]

text \<open>The first character of the number is the current one.\<close>

definition scan_number :: "char \<Rightarrow> lexer \<Rightarrow> token \<times> lexer" where
  "scan_number c l =
     (let l1 = lx_add c (lx_reset l) in
      scan_number_from (if c = CHR ''-'' then Minus else if c = CHR ''0'' then Zero else Any1) Unsigned l1)"

section \<open>The scanner\<close>

fun scan_literal :: "string \<Rightarrow> token \<Rightarrow> lexer \<Rightarrow> token \<times> lexer" where
  "scan_literal [] t l = (t, l)"
| "scan_literal (c # cs) t l =
     (let l1 = lx_get l in if lx_current l1 = Some c then scan_literal cs t l1 else lx_fail ''invalid literal'' l1)"

definition skip_bom :: "lexer \<Rightarrow> bool \<times> lexer" where
  "skip_bom l =
     (let l1 = lx_get l in
      if lx_current l1 = Some (CHR 0xEF) then
        let l2 = lx_get l1 in
        if lx_current l2 \<noteq> Some (CHR 0xBB) then (False, l2)
        else let l3 = lx_get l2 in (lx_current l3 = Some (CHR 0xBF), l3)
      else (True, lx_unget_char l1))"

definition is_space :: "char option \<Rightarrow> bool" where
  "is_space oc \<longleftrightarrow> oc \<in> {Some (CHR 0x20), Some (CHR 0x09), Some (CHR 0x0A), Some (CHR 0x0D)}"

function skip_whitespace :: "lexer \<Rightarrow> lexer" where
  "skip_whitespace l = (let l1 = lx_get l in if is_space (lx_current l1) then skip_whitespace l1 else l1)"
  by pat_completeness auto
termination
  by (relation "measure lx_left") (auto simp: is_space_def intro: lx_get_less)

declare skip_whitespace.simps [simp del]

definition scan_token :: "lexer \<Rightarrow> token \<times> lexer" where
  "scan_token l =
     (case lx_current l of
        None \<Rightarrow> (TEnd, l)
      | Some c \<Rightarrow>
          if c = CHR ''['' then (TBeginArray, l)
          else if c = CHR '']'' then (TEndArray, l)
          else if c = CHR ''{'' then (TBeginObject, l)
          else if c = CHR ''}'' then (TEndObject, l)
          else if c = CHR '':'' then (TNameSep, l)
          else if c = CHR '','' then (TValueSep, l)
          else if c = CHR ''t'' then scan_literal ''rue'' TTrue l
          else if c = CHR ''f'' then scan_literal ''alse'' TFalse l
          else if c = CHR ''n'' then scan_literal ''ull'' TNull l
          else if c = quote then scan_string l
          else if c = CHR ''-'' \<or> isdigit c then scan_number c l
          else if c = CHR 0x00 then (TEnd, l)
          else lx_fail ''invalid literal'' l)"

definition scan :: "lexer \<Rightarrow> token \<times> lexer" where
  "scan l =
     (case (if lx_total l = 0 then skip_bom l else (True, l)) of
        (False, l1) \<Rightarrow> lx_fail ''invalid BOM; must be 0xEF 0xBB 0xBF if given'' l1
      | (True, l1) \<Rightarrow> scan_token (skip_whitespace l1))"

text \<open>\<open>get_token_string\<close>: control characters in angle brackets.\<close>

definition get_token_string :: "lexer \<Rightarrow> string" where
  "get_token_string l =
     concat (map (\<lambda>c. if byte c \<le> 0x1F then ''<U+00'' @ [upper_hex (byte c div 16), upper_hex (byte c mod 16)] @ ''>'' else [c]) (lx_token l))"

section \<open>A token uses up input\<close>

lemma scan_string_left: "scan_string_from l = (t, l') \<Longrightarrow> lx_left l' \<le> lx_left l"
proof (induction l arbitrary: t l' rule: scan_string_from.induct)
  case (1 l)
  let ?l1 = "lx_get l"
  note le = lx_get_le [of l]
  show ?case
  proof (cases "lx_current ?l1")
    case None
    then show ?thesis using 1(3) le by (auto simp: scan_string_from.simps [of l] lx_fail_def)
  next
    case (Some c)
    obtain b l2 where e: "scan_escape ?l1 = (b, l2)" by force
    have "lx_left l2 \<le> lx_left l" using scan_escape_left [OF e] le by simp
    moreover have "lx_left l3 \<le> lx_left l" if "next_byte_in_range c rs ?l1 = (b', l3)" for rs b' l3
      using bytes_in_ranges_left [of rs "lx_add c ?l1" b' l3] that le by (simp add: next_byte_in_range_def)
    ultimately show ?thesis
      using 1(3) Some e le 1(1) [OF refl Some] 1(2) [OF refl Some]
      by (fastforce simp: scan_string_from.simps [of l] lx_fail_def Let_def split: if_splits option.splits prod.splits
          intro: le_trans)
  qed
qed

lemma scan_number_left: "scan_number_from q ty l = (t, l') \<Longrightarrow> lx_left l' \<le> lx_left l"
proof (induction q ty l arbitrary: t l' rule: scan_number_from.induct)
  case (1 q ty l)
  show ?case
  proof (cases "Option.bind (lx_current (lx_get l)) (\<lambda>c. map_option (Pair c) (num_goto q c))")
    case None
    then show ?thesis using 1(2) lx_get_le [of l] lx_unget_left [of l]
      by (auto simp: scan_number_from.simps [of q ty l] lx_fail_def scan_number_done_def Let_def split: option.splits)
  next
    case (Some p)
    obtain c q' where p: "p = (c, q')" by force
    then show ?thesis using 1(1) [OF refl refl Some p [symmetric]] 1(2) lx_get_le [of l] Some
      by (auto simp: scan_number_from.simps [of q ty l])
  qed
qed

lemma scan_literal_left: "scan_literal cs t l = (t', l') \<Longrightarrow> lx_left l' \<le> lx_left l"
proof (induction cs arbitrary: l)
  case (Cons c cs)
  then show ?case using lx_get_le [of l] by (auto simp: Let_def lx_fail_def split: if_splits intro: le_trans [OF Cons.IH])
qed simp

lemma skip_whitespace_left:
  "lx_left (skip_whitespace l) \<le> lx_left l" "lx_current (skip_whitespace l) = Some c \<Longrightarrow> lx_left (skip_whitespace l) < lx_left l"
proof (induction l rule: skip_whitespace.induct)
  case (1 l)
  case 1
  then show ?case using "1.IH"(1) lx_get_le [of l] by (auto simp: skip_whitespace.simps [of l] Let_def)
next
  case (1 l)
  case 2
  then show ?case using "1.IH" lx_get_le [of l] lx_get_less [of l c]
    by (auto simp: skip_whitespace.simps [of l] Let_def split: if_splits)
qed

lemma scan_token_left: "scan_token l = (t, l') \<Longrightarrow> lx_left l' \<le> lx_left l"
  using scan_string_left [of "lx_reset l" t l'] scan_literal_left [of _ _ l t l']
    scan_number_left [of _ _ "lx_add _ (lx_reset l)" t l']
  by (auto simp: scan_token_def lx_fail_def scan_string_def scan_number_def Let_def simp del: scan_literal.simps
      split: option.splits if_splits)

lemma scan_left:
  assumes "scan l = (t, l')"
  shows "lx_left l' \<le> lx_left l" and "t \<noteq> TEnd \<Longrightarrow> t \<noteq> TError \<Longrightarrow> lx_left l' < lx_left l"
proof -
  obtain ok l1 where b: "(if lx_total l = 0 then skip_bom l else (True, l)) = (ok, l1)" by force
  have le: "lx_left l1 \<le> lx_left l"
    using b lx_get_le [of l] lx_get_le [of "lx_get l"] lx_get_le [of "lx_get (lx_get l)"] lx_unget_left [of l]
    by (auto simp: skip_bom_def Let_def split: if_splits)
  have "lx_left l' \<le> lx_left l \<and> (t \<noteq> TEnd \<longrightarrow> t \<noteq> TError \<longrightarrow> lx_left l' < lx_left l)"
  proof (cases ok)
    case False
    then show ?thesis using assms b le by (auto simp: scan_def lx_fail_def)
  next
    case True
    then have s: "scan_token (skip_whitespace l1) = (t, l')" using assms b by (simp add: scan_def)
    note sl = scan_token_left [OF s] skip_whitespace_left [of l1]
    show ?thesis
    proof (cases "lx_current (skip_whitespace l1)")
      case None
      then show ?thesis using s sl le by (auto simp: scan_token_def)
    next
      case (Some c)
      then show ?thesis using sl(1,3) le by (meson le_trans less_le_trans le_less_trans less_imp_le)
    qed
  qed
  then show "lx_left l' \<le> lx_left l" "t \<noteq> TEnd \<Longrightarrow> t \<noteq> TError \<Longrightarrow> lx_left l' < lx_left l" by blast+
qed

end
