(* ===== verification/Grisu.thy ===== *)
theory Grisu
  imports Utils
begin

text \<open>
  Printing a \<open>double\<close> in \<open>json.hpp\<close> (namespace \<open>detail::dtoa_impl\<close> and \<open>detail::to_chars\<close>): the Grisu2 algorithm
  on 64-bit words and the layout of its digits.  A finite \<open>double\<close> is its bit pattern.  A loop that the
  types alone do not bound is a partial function into \<open>option\<close>: \<open>None\<close> is no result.
\<close>

unbundle bit_operations_syntax

section \<open>\<open>diyfp\<close>\<close>

record diyfp =
  df_f :: u64
  df_e :: int

definition diyfp_of :: "u64 \<Rightarrow> int \<Rightarrow> diyfp" where
  "diyfp_of f e = \<lparr>df_f = f, df_e = e\<rparr>"

definition diyfp_sub :: "diyfp \<Rightarrow> diyfp \<Rightarrow> diyfp" where
  "diyfp_sub x y = diyfp_of (df_f x - df_f y) (df_e x)"

definition diyfp_mul :: "diyfp \<Rightarrow> diyfp \<Rightarrow> diyfp" where
  "diyfp_mul x y =
     (let u_lo = df_f x AND 0xFFFFFFFF; u_hi = drop_bit 32 (df_f x);
          v_lo = df_f y AND 0xFFFFFFFF; v_hi = drop_bit 32 (df_f y);
          p0 = u_lo * v_lo; p1 = u_lo * v_hi; p2 = u_hi * v_lo; p3 = u_hi * v_hi;
          p0_hi = drop_bit 32 p0;
          p1_lo = p1 AND 0xFFFFFFFF; p1_hi = drop_bit 32 p1;
          p2_lo = p2 AND 0xFFFFFFFF; p2_hi = drop_bit 32 p2;
          Q = p0_hi + p1_lo + p2_lo + push_bit 31 1
      in diyfp_of (p3 + p2_hi + p1_hi + drop_bit 32 Q) (df_e x + df_e y + 64))"

partial_function (option) diyfp_normalize :: "diyfp \<Rightarrow> diyfp option" where
  "diyfp_normalize x =
     (if drop_bit 63 (df_f x) = 0 then diyfp_normalize (diyfp_of (push_bit 1 (df_f x)) (df_e x - 1)) else Some x)"

definition diyfp_normalize_to :: "diyfp \<Rightarrow> int \<Rightarrow> diyfp" where
  "diyfp_normalize_to x target = diyfp_of (push_bit (nat (df_e x - target)) (df_f x)) target"

section \<open>Boundaries\<close>

record boundaries =
  bd_w :: diyfp
  bd_minus :: diyfp
  bd_plus :: diyfp

text \<open>The value \<open>v\<close> as written in the bits, and its two boundaries before they are normalised.\<close>

definition diyfp_of_bits :: "64 word \<Rightarrow> diyfp" where
  "diyfp_of_bits x =
     (let E = drop_bit 52 x; F = x AND (push_bit 52 1 - 1)
      in if E = 0 then diyfp_of F (- 1074) else diyfp_of (F + push_bit 52 1) (int (unat E) - 1075))"

definition m_plus :: "64 word \<Rightarrow> diyfp" where
  "m_plus x = (let v = diyfp_of_bits x in diyfp_of (2 * df_f v + 1) (df_e v - 1))"

definition m_minus :: "64 word \<Rightarrow> diyfp" where
  "m_minus x =
     (let v = diyfp_of_bits x; E = drop_bit 52 x; F = x AND (push_bit 52 1 - 1)
      in if F = 0 \<and> 1 < E then diyfp_of (4 * df_f v - 1) (df_e v - 2)
         else diyfp_of (2 * df_f v - 1) (df_e v - 1))"

definition compute_boundaries :: "64 word \<Rightarrow> boundaries option" where
  "compute_boundaries x =
     Option.bind (diyfp_normalize (m_plus x)) (\<lambda>w_plus.
     Option.bind (diyfp_normalize (diyfp_of_bits x)) (\<lambda>w.
     Some \<lparr>bd_w = w, bd_minus = diyfp_normalize_to (m_minus x) (df_e w_plus), bd_plus = w_plus\<rparr>))"

section \<open>Cached powers of ten\<close>

definition cached_powers :: "(u64 \<times> int \<times> int) list" where
  "cached_powers =
     [(0xAB70FE17C79AC6CA, - 1060, - 300), (0xFF77B1FCBEBCDC4F, - 1034, - 292), (0xBE5691EF416BD60C, - 1007, - 284),
      (0x8DD01FAD907FFC3C, - 980, - 276), (0xD3515C2831559A83, - 954, - 268), (0x9D71AC8FADA6C9B5, - 927, - 260),
      (0xEA9C227723EE8BCB, - 901, - 252), (0xAECC49914078536D, - 874, - 244), (0x823C12795DB6CE57, - 847, - 236),
      (0xC21094364DFB5637, - 821, - 228), (0x9096EA6F3848984F, - 794, - 220), (0xD77485CB25823AC7, - 768, - 212),
      (0xA086CFCD97BF97F4, - 741, - 204), (0xEF340A98172AACE5, - 715, - 196), (0xB23867FB2A35B28E, - 688, - 188),
      (0x84C8D4DFD2C63F3B, - 661, - 180), (0xC5DD44271AD3CDBA, - 635, - 172), (0x936B9FCEBB25C996, - 608, - 164),
      (0xDBAC6C247D62A584, - 582, - 156), (0xA3AB66580D5FDAF6, - 555, - 148), (0xF3E2F893DEC3F126, - 529, - 140),
      (0xB5B5ADA8AAFF80B8, - 502, - 132), (0x87625F056C7C4A8B, - 475, - 124), (0xC9BCFF6034C13053, - 449, - 116),
      (0x964E858C91BA2655, - 422, - 108), (0xDFF9772470297EBD, - 396, - 100), (0xA6DFBD9FB8E5B88F, - 369, - 92),
      (0xF8A95FCF88747D94, - 343, - 84), (0xB94470938FA89BCF, - 316, - 76), (0x8A08F0F8BF0F156B, - 289, - 68),
      (0xCDB02555653131B6, - 263, - 60), (0x993FE2C6D07B7FAC, - 236, - 52), (0xE45C10C42A2B3B06, - 210, - 44),
      (0xAA242499697392D3, - 183, - 36), (0xFD87B5F28300CA0E, - 157, - 28), (0xBCE5086492111AEB, - 130, - 20),
      (0x8CBCCC096F5088CC, - 103, - 12), (0xD1B71758E219652C, - 77, - 4), (0x9C40000000000000, - 50, 4),
      (0xE8D4A51000000000, - 24, 12), (0xAD78EBC5AC620000, 3, 20), (0x813F3978F8940984, 30, 28),
      (0xC097CE7BC90715B3, 56, 36), (0x8F7E32CE7BEA5C70, 83, 44), (0xD5D238A4ABE98068, 109, 52),
      (0x9F4F2726179A2245, 136, 60), (0xED63A231D4C4FB27, 162, 68), (0xB0DE65388CC8ADA8, 189, 76),
      (0x83C7088E1AAB65DB, 216, 84), (0xC45D1DF942711D9A, 242, 92), (0x924D692CA61BE758, 269, 100),
      (0xDA01EE641A708DEA, 295, 108), (0xA26DA3999AEF774A, 322, 116), (0xF209787BB47D6B85, 348, 124),
      (0xB454E4A179DD1877, 375, 132), (0x865B86925B9BC5C2, 402, 140), (0xC83553C5C8965D3D, 428, 148),
      (0x952AB45CFA97A0B3, 455, 156), (0xDE469FBD99A05FE3, 481, 164), (0xA59BC234DB398C25, 508, 172),
      (0xF6C69A72A3989F5C, 534, 180), (0xB7DCBF5354E9BECE, 561, 188), (0x88FCF317F22241E2, 588, 196),
      (0xCC20CE9BD35C78A5, 614, 204), (0x98165AF37B2153DF, 641, 212), (0xE2A0B5DC971F303A, 667, 220),
      (0xA8D9D1535CE3B396, 694, 228), (0xFB9B7CD9A4A7443C, 720, 236), (0xBB764C4CA7A44410, 747, 244),
      (0x8BAB8EEFB6409C1A, 774, 252), (0xD01FEF10A657842C, 800, 260), (0x9B10A4E5E9913129, 827, 268),
      (0xE7109BFBA19C0C9D, 853, 276), (0xAC2820D9623BF429, 880, 284), (0x80444B5E7AA7CF85, 907, 292),
      (0xBF21E44003ACDD2D, 933, 300), (0x8E679C2F5E44FF8F, 960, 308), (0xD433179D9C8CB841, 986, 316),
      (0x9E19DB92B4E31BA9, 1013, 324)]"

text \<open>Division of C++ rounds towards zero.\<close>

definition quot :: "int \<Rightarrow> int \<Rightarrow> int" where
  "quot a b = (if 0 \<le> a then a div b else - (- a div b))"

definition cached_index :: "int \<Rightarrow> int" where
  "cached_index e =
     (let f = - 60 - e - 1; k = quot (f * 78913) (2 ^ 18) + (if 0 < f then 1 else 0)
      in quot (300 + k + 7) 8)"

definition cached_power :: "int \<Rightarrow> diyfp \<times> int" where
  "cached_power e = (case cached_powers ! nat (cached_index e) of (f, ec, k) \<Rightarrow> (diyfp_of f ec, k))"

section \<open>Digits\<close>

definition find_largest_pow10 :: "u32 \<Rightarrow> nat \<times> u32" where
  "find_largest_pow10 n =
     (if 1000000000 \<le> n then (10, 1000000000)
      else if 100000000 \<le> n then (9, 100000000)
      else if 10000000 \<le> n then (8, 10000000)
      else if 1000000 \<le> n then (7, 1000000)
      else if 100000 \<le> n then (6, 100000)
      else if 10000 \<le> n then (5, 10000)
      else if 1000 \<le> n then (4, 1000)
      else if 100 \<le> n then (3, 100)
      else if 10 \<le> n then (2, 10)
      else (1, 1))"

text \<open>\<open>buf[len - 1]--\<close> and \<open>buffer[length++] = '0' + d\<close>.\<close>

definition dec_last :: "string \<Rightarrow> string" where
  "dec_last buf = butlast buf @ [char_of (byte (last buf) + 255)]"

definition put_digit :: "string \<Rightarrow> nat \<Rightarrow> string" where
  "put_digit buf d = buf @ [char_of (48 + d)]"

partial_function (option) grisu2_round :: "string \<Rightarrow> u64 \<Rightarrow> u64 \<Rightarrow> u64 \<Rightarrow> u64 \<Rightarrow> string option" where
  "grisu2_round buf dist delta rest ten_k =
     (if rest < dist \<and> ten_k \<le> delta - rest \<and>
          (rest + ten_k < dist \<or> rest + ten_k - dist < dist - rest)
      then grisu2_round (dec_last buf) dist delta (rest + ten_k) ten_k
      else Some buf)"

text \<open>The fractional part: \<open>s\<close> is \<open>-one.e\<close>, \<open>m\<close> the number of digits so far.\<close>

partial_function (option) digit_gen_frac ::
    "nat \<Rightarrow> string \<Rightarrow> nat \<Rightarrow> u64 \<Rightarrow> u64 \<Rightarrow> u64 \<Rightarrow> (string \<times> nat) option" where
  "digit_gen_frac s buf m p2 delta dist =
     (let p = p2 * 10; d = drop_bit s p; r = p AND (push_bit s 1 - 1);
          buf1 = put_digit buf (unat d); delta1 = delta * 10; dist1 = dist * 10
      in if r \<le> delta1
         then Option.bind (grisu2_round buf1 dist1 delta1 r (push_bit s 1)) (\<lambda>buf2. Some (buf2, m + 1))
         else digit_gen_frac s buf1 (m + 1) r delta1 dist1)"

text \<open>The integral part: \<open>n\<close> digits are still to come; the fractional part follows.\<close>

fun digit_gen_int ::
    "nat \<Rightarrow> nat \<Rightarrow> string \<Rightarrow> u32 \<Rightarrow> u32 \<Rightarrow> u64 \<Rightarrow> u64 \<Rightarrow> u64 \<Rightarrow> int \<Rightarrow> (string \<times> int) option" where
  "digit_gen_int s 0 buf p1 pow10 p2 delta dist de =
     Option.bind (digit_gen_frac s buf 0 p2 delta dist) (\<lambda>(buf1, m). Some (buf1, de - int m))"
| "digit_gen_int s (Suc n) buf p1 pow10 p2 delta dist de =
     (let d = p1 div pow10; r = p1 mod pow10; buf1 = put_digit buf (unat d);
          rest = push_bit s (ucast r) + p2
      in if rest \<le> delta
         then Option.bind (grisu2_round buf1 dist delta rest (push_bit s (ucast pow10))) (\<lambda>buf2. Some (buf2, de + int n))
         else digit_gen_int s n buf1 r (pow10 div 10) p2 delta dist de)"

definition digit_gen :: "int \<Rightarrow> diyfp \<Rightarrow> diyfp \<Rightarrow> diyfp \<Rightarrow> (string \<times> int) option" where
  "digit_gen de M_minus w M_plus =
     (let delta = df_f (diyfp_sub M_plus M_minus); dist = df_f (diyfp_sub M_plus w);
          s = nat (- df_e M_plus);
          p1 = ucast (drop_bit s (df_f M_plus)) :: u32; p2 = df_f M_plus AND (push_bit s 1 - 1);
          (k, pow10) = find_largest_pow10 p1
      in digit_gen_int s k [] p1 pow10 p2 delta dist de)"

definition grisu2_scaled :: "diyfp \<Rightarrow> diyfp \<Rightarrow> diyfp \<Rightarrow> (string \<times> int) option" where
  "grisu2_scaled mm v mp =
     (let (c, k) = cached_power (df_e mp);
          w = diyfp_mul v c; w_minus = diyfp_mul mm c; w_plus = diyfp_mul mp c
      in digit_gen (- k) (diyfp_of (df_f w_minus + 1) (df_e w_minus)) w (diyfp_of (df_f w_plus - 1) (df_e w_plus)))"

definition grisu2 :: "64 word \<Rightarrow> (string \<times> int) option" where
  "grisu2 x = Option.bind (compute_boundaries x) (\<lambda>b. grisu2_scaled (bd_minus b) (bd_w b) (bd_plus b))"

declare diyfp_normalize.simps [code] grisu2_round.simps [code] digit_gen_frac.simps [code]

section \<open>Layout\<close>

definition append_exponent :: "string \<Rightarrow> int \<Rightarrow> string" where
  "append_exponent buf e =
     (let k = nat \<bar>e\<bar>; buf1 = buf @ (if e < 0 then ''-'' else ''+'')
      in if k < 10 then put_digit (buf1 @ ''0'') k
         else if k < 100 then put_digit (put_digit buf1 (k div 10)) (k mod 10)
         else put_digit (put_digit (put_digit buf1 (k div 100)) (k mod 100 div 10)) (k mod 100 mod 10))"

definition format_buffer :: "string \<Rightarrow> int \<Rightarrow> int \<Rightarrow> int \<Rightarrow> string" where
  "format_buffer buf de min_exp max_exp =
     (let k = int (length buf); n = k + de
      in if k \<le> n \<and> n \<le> max_exp then buf @ replicate (nat (n - k)) (CHR ''0'') @ ''.0''
         else if 0 < n \<and> n \<le> max_exp then take (nat n) buf @ ''.'' @ drop (nat n) buf
         else if min_exp < n \<and> n \<le> 0 then ''0.'' @ replicate (nat (- n)) (CHR ''0'') @ buf
         else append_exponent ((if k = 1 then buf else take 1 buf @ ''.'' @ drop 1 buf) @ ''e'') (n - 1))"

definition to_chars :: "64 word \<Rightarrow> string option" where
  "to_chars x =
     (let neg = bit x 63; v = (if neg then x XOR push_bit 63 1 else x); sign = (if neg then ''-'' else [])
      in if v = 0 then Some (sign @ ''0.0'')
         else Option.bind (grisu2 v) (\<lambda>(buf, de). Some (sign @ format_buffer buf de (- 4) 15)))"

end
