(* ===== verification/Json_Dump.thy ===== *)
theory Json_Dump
  imports Json_Lexer Grisu
begin

text \<open>
  The serializer of \<open>json.hpp\<close> (class \<open>detail::serializer\<close>) as \<open>dump()\<close> calls it without arguments: compact,
  no escaping of non-ASCII characters, error handler \<open>strict\<close>.  The string buffer of 512 bytes is flushed before it can
  overflow; its flushes do not show in the result, which is a \<open>std::string\<close> and is lost when \<open>dump\<close> throws.
\<close>

section \<open>UTF-8\<close>

text \<open>The table: the classes of the 256 bytes, then a row of 16 entries for each of the nine states.\<close>

definition utf8_rows :: "nat list list" where
  "utf8_rows =
     [[0, 1, 2, 3, 5, 8, 7, 1, 1, 1, 4, 6, 1, 1, 1, 1],
      [1, 1, 1, 1, 1, 1, 1, 1, 1, 1, 1, 1, 1, 1, 1, 1],
      [1, 0, 1, 1, 1, 1, 1, 0, 1, 0, 1, 1, 1, 1, 1, 1],
      [1, 2, 1, 1, 1, 1, 1, 2, 1, 2, 1, 1, 1, 1, 1, 1],
      [1, 1, 1, 1, 1, 1, 1, 2, 1, 1, 1, 1, 1, 1, 1, 1],
      [1, 2, 1, 1, 1, 1, 1, 1, 1, 2, 1, 1, 1, 1, 1, 1],
      [1, 1, 1, 1, 1, 1, 1, 3, 1, 3, 1, 1, 1, 1, 1, 1],
      [1, 3, 1, 1, 1, 1, 1, 3, 1, 3, 1, 1, 1, 1, 1, 1],
      [1, 3, 1, 1, 1, 1, 1, 1, 1, 1, 1, 1, 1, 1, 1, 1]]"

definition utf8d :: "nat list" where
  "utf8d =
     replicate 128 0 @ replicate 16 1 @ replicate 16 9 @ replicate 32 7 @ replicate 2 8 @ replicate 30 2 @
     replicate 1 0xA @ replicate 12 0x3 @ replicate 1 0x4 @ replicate 2 0x3 @
     replicate 1 0xB @ replicate 3 0x6 @ replicate 1 0x5 @ replicate 11 0x8 @ concat utf8_rows"

text \<open>\<open>decode\<close>: the new state and code point; \<open>|\<close> joins operands that have no bit in common.\<close>

definition utf8_decode :: "nat \<times> nat \<Rightarrow> nat \<Rightarrow> nat \<times> nat" where
  "utf8_decode q b =
     (let (state, codep) = q; ty = utf8d ! b;
          codep' = (if state \<noteq> 0 then b mod 2 ^ 6 + codep * 2 ^ 6 mod 2 ^ 32 else b mod 2 ^ (8 - ty))
      in (utf8d ! (256 + state * 16 + ty), codep'))"

definition hex_bytes :: "nat \<Rightarrow> string" where
  "hex_bytes b = [upper_hex (b div 16), upper_hex (b mod 16)]"

definition lower_hex :: "nat \<Rightarrow> char" where
  "lower_hex n = (if n < 10 then char_of (48 + n) else char_of (87 + n))"

text \<open>What is appended for a complete character whose last byte is \<open>c\<close>; the bytes before it have been copied.\<close>

definition escape :: "nat \<Rightarrow> char \<Rightarrow> string" where
  "escape codep c =
     (if codep = 0x08 then [backslash] @ ''b'' else if codep = 0x09 then [backslash] @ ''t''
      else if codep = 0x0A then [backslash] @ ''n'' else if codep = 0x0C then [backslash] @ ''f''
      else if codep = 0x0D then [backslash] @ ''r'' else if codep = 0x22 then [backslash, quote]
      else if codep = 0x5C then [backslash, backslash]
      else if codep \<le> 0x1F then [backslash] @ ''u00'' @ [lower_hex (codep div 16), lower_hex (codep mod 16)]
      else [c])"

fun dump_bytes :: "nat \<Rightarrow> nat \<times> nat \<Rightarrow> string \<Rightarrow> (string \<times> nat) res" where
  "dump_bytes i q [] = Inr ([], fst q)"
| "dump_bytes i q (c # cs) =
     (let q' = utf8_decode q (byte c) in
      if fst q' = 1 then
        type_error ''316'' (''invalid UTF-8 byte at index '' @ nat_to_string i @ '': 0x'' @ hex_bytes (byte c))
      else bindR (dump_bytes (i + 1) q' cs) (\<lambda>(out, state).
        Inr ((if fst q' = 0 then escape (snd q') c else [c]) @ out, state)))"

definition dump_escaped :: "string \<Rightarrow> string res" where
  "dump_escaped s =
     bindR (dump_bytes 0 (0, 0) s) (\<lambda>(out, state).
       if state = 0 then Inr out
       else type_error ''316'' (''incomplete UTF-8 string; last byte: 0x'' @ hex_bytes (byte (last s))))"

section \<open>Numbers\<close>

function count_digits_from :: "nat \<Rightarrow> nat \<Rightarrow> nat" where
  "count_digits_from n_digits x =
     (if x < 10 then n_digits else if x < 100 then n_digits + 1 else if x < 1000 then n_digits + 2
      else if x < 10000 then n_digits + 3 else count_digits_from (n_digits + 4) (x div 10000))"
  by pat_completeness auto
termination by (relation "measure snd") auto

declare count_digits_from.simps [simp del]

definition count_digits :: "nat \<Rightarrow> nat" where
  "count_digits x = count_digits_from 1 x"

text \<open>The digits are written backwards into the buffer, from \<open>p\<close> down, two at a time.\<close>

function put_pairs :: "string \<Rightarrow> nat \<Rightarrow> nat \<Rightarrow> string" where
  "put_pairs buf p n =
     (if 100 \<le> n then
        let d = n mod 100 in
        put_pairs (buf[p - 1 := digit_char (d mod 10), p - 2 := digit_char (d div 10)]) (p - 2) (n div 100)
      else if 10 \<le> n then buf[p - 1 := digit_char (n mod 10), p - 2 := digit_char (n div 10)]
      else buf[p - 1 := digit_char n])"
  by pat_completeness auto
termination by (relation "measure (\<lambda>(buf, p, n). n)") auto

declare put_pairs.simps [simp del]

text \<open>\<open>buf\<close> is \<open>number_buffer\<close> as the calls before left it.\<close>

definition remove_sign :: "64 word \<Rightarrow> nat" where
  "remove_sign x = unat (- (x + 1)) + 1"

definition dump_magnitude :: "string \<Rightarrow> bool \<Rightarrow> nat \<Rightarrow> string" where
  "dump_magnitude buf neg n =
     (let n_chars = (if neg then 1 else 0) + count_digits n
      in take n_chars (put_pairs (if neg then buf[0 := CHR ''-''] else buf) n_chars n))"

definition dump_unsigned :: "string \<Rightarrow> 64 word \<Rightarrow> string" where
  "dump_unsigned buf x = (if x = 0 then ''0'' else dump_magnitude buf False (unat x))"

definition dump_signed :: "string \<Rightarrow> 64 word \<Rightarrow> string" where
  "dump_signed buf x =
     (if x = 0 then ''0''
      else if sint x < 0 then dump_magnitude buf True (remove_sign x)
      else dump_magnitude buf False (unat x))"

definition dump_float :: "64 word \<Rightarrow> string res" where
  "dump_float x =
     (if \<not> f64_is_finite x then Inr ''null''
      else case to_chars x of Some s \<Rightarrow> Inr s | None \<Rightarrow> Inl Undefined)"

section \<open>Values\<close>

definition number_buffer :: string where
  "number_buffer = replicate 64 (CHR 0x00)"

fun dump :: "json \<Rightarrow> string res"
  and dump_elements :: "json list \<Rightarrow> string res"
  and dump_members :: "(string \<times> json) list \<Rightarrow> string res" where
  "dump JNull = Inr ''null''"
| "dump (JBool b) = Inr (if b then ''true'' else ''false'')"
| "dump (JInt i) = Inr (dump_signed number_buffer i)"
| "dump (JUInt n) = Inr (dump_unsigned number_buffer n)"
| "dump (JFloat x) = dump_float x"
| "dump (JString s) = bindR (dump_escaped s) (\<lambda>t. Inr ([quote] @ t @ [quote]))"
| "dump (JArray xs) = bindR (dump_elements xs) (\<lambda>t. Inr (''['' @ t @ '']''))"
| "dump (JObject m) = bindR (dump_members m) (\<lambda>t. Inr (''{'' @ t @ ''}''))"
| "dump_elements [] = Inr []"
| "dump_elements (x # xs) =
     bindR (dump x) (\<lambda>t. if xs = [] then Inr t else bindR (dump_elements xs) (\<lambda>ts. Inr (t @ '','' @ ts)))"
| "dump_members [] = Inr []"
| "dump_members ((k, x) # m) =
     bindR (dump_escaped k) (\<lambda>kt.
     bindR (dump x) (\<lambda>t.
       let first = [quote] @ kt @ [quote] @ '':'' @ t in
       if m = [] then Inr first else bindR (dump_members m) (\<lambda>ts. Inr (first @ '','' @ ts))))"

end
