(* ===== verification/Json_Strings.thy ===== *)
theory Json_Strings
  imports Json_Dump Json_Lexer
begin

text \<open>
  Strings of JSON: the UTF-8 decoder of \<open>serializer::dump_escaped\<close> accepts exactly the byte sequences that
  \<open>lexer::scan_string\<close> accepts, and the lexer reads back what the serialiser wrote.
\<close>

section \<open>The decoder\<close>

lemma nth_segment:
  "i < n \<Longrightarrow> (replicate n x @ ys) ! i = x" "n \<le> i \<Longrightarrow> (replicate n x @ ys) ! i = ys ! (i - n)"
  by (simp_all add: nth_append)

lemma byte_cases:
  fixes b :: nat
  obtains "b < 128" | "128 \<le> b" "b < 144" | "144 \<le> b" "b < 160" | "160 \<le> b" "b < 192" | "192 \<le> b" "b < 194"
  | "194 \<le> b" "b < 224" | "b = 224" | "224 < b" "b < 237" | "b = 237" | "237 < b" "b < 240" | "b = 240" | "240 < b" "b < 244"
  | "b = 244" | "244 < b"
proof -
  have "b < 128 \<or> 128 \<le> b \<and> b < 144 \<or> 144 \<le> b \<and> b < 160 \<or> 160 \<le> b \<and> b < 192 \<or> 192 \<le> b \<and> b < 194 \<or>
      194 \<le> b \<and> b < 224 \<or> b = 224 \<or> 224 < b \<and> b < 237 \<or> b = 237 \<or> 237 < b \<and> b < 240 \<or> b = 240 \<or>
      240 < b \<and> b < 244 \<or> b = 244 \<or> 244 < b"
    by linarith
  then show thesis using that by blast
qed

lemma utf8_type:
  "b < 0x80 \<Longrightarrow> utf8d ! b = 0"
  "0x80 \<le> b \<Longrightarrow> b < 0x90 \<Longrightarrow> utf8d ! b = 1" "0x90 \<le> b \<Longrightarrow> b < 0xA0 \<Longrightarrow> utf8d ! b = 9" "0xA0 \<le> b \<Longrightarrow> b < 0xC0 \<Longrightarrow> utf8d ! b = 7"
  "0xC0 \<le> b \<Longrightarrow> b < 0xC2 \<Longrightarrow> utf8d ! b = 8" "0xC2 \<le> b \<Longrightarrow> b < 0xE0 \<Longrightarrow> utf8d ! b = 2"
  "utf8d ! 0xE0 = 10" "0xE0 < b \<Longrightarrow> b < 0xED \<Longrightarrow> utf8d ! b = 3" "utf8d ! 0xED = 4" "0xED < b \<Longrightarrow> b < 0xF0 \<Longrightarrow> utf8d ! b = 3"
  "utf8d ! 0xF0 = 11" "0xF0 < b \<Longrightarrow> b < 0xF4 \<Longrightarrow> utf8d ! b = 6" "utf8d ! 0xF4 = 5" "0xF4 < b \<Longrightarrow> b < 0x100 \<Longrightarrow> utf8d ! b = 8"
  unfolding utf8d_def by (simp_all add: nth_segment del: replicate_Suc replicate_0)

lemma utf8_state: "q < 9 \<Longrightarrow> t < 16 \<Longrightarrow> utf8d ! (256 + q * 16 + t) = utf8_rows ! q ! t"
proof -
  have len: "\<forall>r \<in> set utf8_rows. length r = 16" "length utf8_rows = 9" by (simp_all add: utf8_rows_def)
  have conc: "concat rs ! (q * 16 + t) = rs ! q ! t" if "\<forall>r \<in> set rs. length r = 16" "q < length rs" "t < 16" for rs :: "nat list list" and q t
    using that
  proof (induction rs arbitrary: q)
    case (Cons r rs)
    then show ?case by (cases q) (simp_all add: nth_append)
  qed simp
  have "utf8d ! (256 + n) = concat utf8_rows ! n" for n by (simp add: utf8d_def nth_append)
  then show "q < 9 \<Longrightarrow> t < 16 \<Longrightarrow> ?thesis" using conc [OF len(1)] len(2) by (simp add: add.assoc)
qed

text \<open>The bytes a state still expects.\<close>

definition state_ranges :: "nat \<Rightarrow> (nat \<times> nat) list" where
  "state_ranges q =
     [[], [], [(0x80, 0xBF)], [(0x80, 0xBF), (0x80, 0xBF)], [(0xA0, 0xBF), (0x80, 0xBF)], [(0x80, 0x9F), (0x80, 0xBF)],
      [(0x90, 0xBF), (0x80, 0xBF), (0x80, 0xBF)], [(0x80, 0xBF), (0x80, 0xBF), (0x80, 0xBF)],
      [(0x80, 0x8F), (0x80, 0xBF), (0x80, 0xBF)]] ! q"

text \<open>A bound from below for the code point so far, which makes a complete one at least \<open>0x80\<close>.\<close>

definition codep_ok :: "nat \<Rightarrow> nat \<Rightarrow> bool" where
  "codep_ok q cp \<longleftrightarrow> [0x80, 0, 2, 1, 0, 1, 0, 1, 1] ! q \<le> cp \<and> cp < [2 ^ 24, 0, 2 ^ 18, 2 ^ 12, 2 ^ 12, 2 ^ 12, 2 ^ 6, 2 ^ 6, 2 ^ 6] ! q"

lemma mod_interval: "k * m \<le> b \<Longrightarrow> b < Suc k * m \<Longrightarrow> b mod m = b - k * (m :: nat)"
  by (metis add_diff_cancel_left' le_Suc_ex add.commute mod_mult_self3 mod_less mult_Suc nat_add_left_cancel_less)

lemma utf8_first:
  assumes "b < 256"
  shows "if b < 0x80 then utf8_decode (0, cp) b = (0, b)
    else case utf8_ranges b of None \<Rightarrow> fst (utf8_decode (0, cp) b) = 1
      | Some rs \<Rightarrow> \<exists>q cp'. utf8_decode (0, cp) b = (q, cp') \<and> 2 \<le> q \<and> q < 9 \<and> state_ranges q = rs \<and> codep_ok q cp'"
proof -
  let ?P = "\<lambda>q cp'. if b < 0x80 then (q, cp') = (0, b)
    else case utf8_ranges b of None \<Rightarrow> q = 1
      | Some rs \<Rightarrow> 2 \<le> q \<and> q < 9 \<and> state_ranges q = rs \<and> codep_ok q cp'"
  have d: "utf8_decode (0, cp) b = (utf8_rows ! 0 ! ty, b mod 2 ^ (8 - ty))" if "utf8d ! b = ty" "ty < 16" for ty
    using utf8_state [of 0 ty] that by (simp add: utf8_decode_def Let_def)
  have r: "194 \<le> b \<Longrightarrow> b < 224 \<Longrightarrow> 2 \<le> b mod 64" "225 \<le> b \<Longrightarrow> b < 240 \<Longrightarrow> 1 \<le> b mod 32"
    "241 \<le> b \<Longrightarrow> b < 244 \<Longrightarrow> 1 \<le> b mod 4"
    using mod_interval [of 3 64 b] mod_interval [of 7 32 b] mod_interval [of 60 4 b] by simp_all
  have m: "b mod 64 < 64" "b mod 32 < 32" "b mod 4 < 4" by simp_all
  note ds = utf8_rows_def state_ranges_def codep_ok_def utf8_ranges_def
  have "?P (fst (utf8_decode (0, cp) b)) (snd (utf8_decode (0, cp) b))"
  proof (cases b rule: byte_cases)
    case 1 then show ?thesis using utf8_type(1) d [of 0] by (simp add: ds)
  next
    case 2 then show ?thesis using utf8_type(2) d [of 1] by (simp add: ds)
  next
    case 3 then show ?thesis using utf8_type(3) d [of 9] by (simp add: ds)
  next
    case 4 then show ?thesis using utf8_type(4) d [of 7] by (simp add: ds)
  next
    case 5 then show ?thesis using utf8_type(5) d [of 8] by (simp add: ds)
  next
    case 6 then show ?thesis using utf8_type(6) d [of 2] r(1) m(1) by (simp add: ds)
  next
    case 7 then show ?thesis using utf8_type(7) d [of 10] by (simp add: ds)
  next
    case 8 then show ?thesis using utf8_type(8) d [of 3] r(2) m(2) by (simp add: ds)
  next
    case 9 then show ?thesis using utf8_type(9) d [of 4] by (simp add: ds)
  next
    case 10
    then have "b = 238 \<or> b = 239" by linarith
    then show ?thesis using utf8_type(10) [of b] d [of 3] r(2) m(2) by (auto simp: ds)
  next
    case 11 then show ?thesis using utf8_type(11) d [of 11] by (simp add: ds)
  next
    case 12 then show ?thesis using utf8_type(12) d [of 6] r(3) m(3) by (simp add: ds)
  next
    case 13 then show ?thesis using utf8_type(13) d [of 5] by (simp add: ds)
  next
    case 14 then show ?thesis using utf8_type(14) d [of 8] assms by (simp add: ds)
  qed
  then show ?thesis by (cases "utf8_decode (0, cp) b") (auto split: option.splits if_splits)
qed

text \<open>A later byte is in the expected range and leads to the state that expects the rest, or it is rejected.\<close>

lemma utf8_next:
  assumes q: "2 \<le> q" "q < 9" and cp: "codep_ok q cp" and b: "b < 256"
  shows "fst (utf8_decode (q, cp) b) = 1 \<or>
    (\<exists>lo hi q' cp'. utf8_decode (q, cp) b = (q', cp') \<and> state_ranges q = (lo, hi) # state_ranges q' \<and>
       lo \<le> b \<and> b \<le> hi \<and> (q' = 0 \<or> 2 \<le> q' \<and> q' < 9) \<and> codep_ok q' cp')"
proof -
  have d: "utf8_decode (q, cp) b = (utf8_rows ! q ! ty, b mod 64 + cp * 64 mod 4294967296)" if "utf8d ! b = ty" "ty < 16" for ty
    using utf8_state [of q ty] that q by (simp add: utf8_decode_def Let_def)
  have q': "q = 2 \<or> q = 3 \<or> q = 4 \<or> q = 5 \<or> q = 6 \<or> q = 7 \<or> q = 8" using q by linarith
  have other: "fst (utf8_decode (q, cp) b) = 1" if "utf8d ! b \<in> {0, 2, 3, 4, 5, 6, 8, 10, 11}"
    using d [OF refl] q' that by (auto simp: utf8_rows_def)
  have m: "b mod 64 < 64" "0x90 \<le> b \<Longrightarrow> b < 0xC0 \<Longrightarrow> 16 \<le> b mod 64" "0xA0 \<le> b \<Longrightarrow> b < 0xC0 \<Longrightarrow> 32 \<le> b mod 64"
    using mod_interval [of 2 64 b] by simp_all
  note ds = utf8_rows_def state_ranges_def codep_ok_def
  show ?thesis
  proof (cases b rule: byte_cases)
    case 2
    then show ?thesis using utf8_type(2) d [of 1] q' cp m by (auto simp: ds)
  next
    case 3
    then show ?thesis using utf8_type(3) d [of 9] q' cp m by (auto simp: ds)
  next
    case 4
    then show ?thesis using utf8_type(4) d [of 7] q' cp m by (auto simp: ds)
  qed (rule disjI1, rule other, use b in \<open>simp add: utf8_type\<close>)+
qed

section \<open>Strings\<close>

definition fits :: "(nat \<times> nat) list \<Rightarrow> string \<Rightarrow> bool" where
  "fits = list_all2 (\<lambda>(lo, hi) c. lo \<le> byte c \<and> byte c \<le> hi)"

lemma fits_simps [simp]: "fits [] bs \<longleftrightarrow> bs = []" "fits ((lo, hi) # rs) (c # bs) \<longleftrightarrow> lo \<le> byte c \<and> byte c \<le> hi \<and> fits rs bs"
  by (simp_all add: fits_def)

lemma escape_raw: "0x80 \<le> cp \<Longrightarrow> escape cp c = [c]"
  by (simp add: escape_def)

text \<open>The remaining bytes of a character are copied.\<close>

lemma dump_raw:
  assumes "dump_bytes i (q, cp) cs = Inr (out, 0)" "2 \<le> q" "q < 9" "codep_ok q cp"
  shows "\<exists>bs s' out' i' cp'. cs = bs @ s' \<and> fits (state_ranges q) bs \<and> out = bs @ out' \<and> dump_bytes i' (0, cp') s' = Inr (out', 0)"
  using assms
proof (induction cs arbitrary: i q cp out)
  case Nil
  then show ?case by simp
next
  case (Cons c cs)
  have one: "fst (utf8_decode (q, cp) (byte c)) \<noteq> 1" using Cons.prems(1) by (auto simp: Let_def type_error_def)
  then obtain lo hi q' cp' where u: "utf8_decode (q, cp) (byte c) = (q', cp')" "state_ranges q = (lo, hi) # state_ranges q'"
      "lo \<le> byte c" "byte c \<le> hi" "q' = 0 \<or> 2 \<le> q' \<and> q' < 9" "codep_ok q' cp'"
    using utf8_next [OF Cons.prems(2-4) byte_less, of c] by blast
  have "q' = 0 \<Longrightarrow> escape cp' c = [c]" using u(6) by (intro escape_raw) (simp add: codep_ok_def)
  then obtain out2 where o: "dump_bytes (i + 1) (q', cp') cs = Inr (out2, 0)" "out = c # out2"
    using Cons.prems(1) one by (auto simp: Let_def u(1) bindR_def split: sum.splits if_splits)
  show ?case
  proof (cases "q' = 0")
    case True
    then show ?thesis using o u(2-4)
      by (intro exI [of _ "[c]"] exI [of _ cs] exI [of _ out2] exI [of _ "i + 1"] exI [of _ cp']) (simp add: state_ranges_def)
  next
    case False
    then obtain bs s' out' i' cp'' where "cs = bs @ s'" "fits (state_ranges q') bs" "out2 = bs @ out'"
        "dump_bytes i' (0, cp'') s' = Inr (out', 0)"
      using Cons.IH [OF o(1)] u(5,6) by blast
    then show ?thesis using o(2) u(2-4)
      by (intro exI [of _ "c # bs"] exI [of _ s'] exI [of _ out'] exI [of _ i'] exI [of _ cp'']) simp
  qed
qed

text \<open>The text of a string that is accepted, character by character.\<close>

lemma dump_cases:
  assumes "dump_bytes i (0, cp) (c # cs) = Inr (out, 0)"
  shows "(\<exists>out' i' cp'. byte c < 0x80 \<and> out = escape (byte c) c @ out' \<and> dump_bytes i' (0, cp') cs = Inr (out', 0)) \<or>
    (\<exists>rs bs s' out' i' cp'. 0x80 \<le> byte c \<and> utf8_ranges (byte c) = Some rs \<and> fits rs bs \<and> cs = bs @ s' \<and>
       out = c # bs @ out' \<and> dump_bytes i' (0, cp') s' = Inr (out', 0))"
proof -
  have one: "fst (utf8_decode (0, cp) (byte c)) \<noteq> 1" using assms by (auto simp: Let_def type_error_def)
  obtain q' cp' where u: "utf8_decode (0, cp) (byte c) = (q', cp')" by force
  obtain out2 where o: "dump_bytes (i + 1) (q', cp') cs = Inr (out2, 0)" "out = (if q' = 0 then escape cp' c else [c]) @ out2"
    using assms one by (auto simp: Let_def u(1) bindR_def split: sum.splits if_splits)
  show ?thesis
  proof (cases "byte c < 0x80")
    case True
    then have "q' = 0" "cp' = byte c" using utf8_first [OF byte_less, of c cp] u by auto
    then show ?thesis using True o by auto
  next
    case False
    then obtain rs where rs: "utf8_ranges (byte c) = Some rs" "2 \<le> q'" "q' < 9" "state_ranges q' = rs" "codep_ok q' cp'"
      using utf8_first [OF byte_less, of c cp] u one by (auto split: option.splits)
    from dump_raw [OF o(1) rs(2,3,5)] obtain bs s' out' i' cp'' where
      "cs = bs @ s'" "fits rs bs" "out2 = bs @ out'" "dump_bytes i' (0, cp'') s' = Inr (out', 0)" unfolding rs(4) by blast
    then show ?thesis using False o(2) rs(1,2) by (intro disjI2) (simp, blast)
  qed
qed

lemma char_eqI: "byte c = n \<Longrightarrow> n < 256 \<Longrightarrow> c = char_of n"
  by (metis byte_char_of byte_inject)

lemma byte_chars:
  "byte c = 8 \<Longrightarrow> c = CHR 0x08" "byte c = 9 \<Longrightarrow> c = CHR 0x09" "byte c = 10 \<Longrightarrow> c = CHR 0x0A" "byte c = 12 \<Longrightarrow> c = CHR 0x0C"
  "byte c = 13 \<Longrightarrow> c = CHR 0x0D" "byte c = 34 \<Longrightarrow> c = quote" "byte c = 92 \<Longrightarrow> c = backslash"
  unfolding byte_inject [of c, symmetric] by (simp_all add: byte_def quote_def backslash_def)

lemma bytes_in_ranges_fits:
  "fits rs bs \<Longrightarrow> lx_at l (bs @ rest) \<Longrightarrow>
     \<exists>l'. bytes_in_ranges rs l = (True, l') \<and> lx_at l' rest \<and> lx_buffer l' = lx_buffer l @ bs"
proof (induction rs arbitrary: bs l)
  case (Cons p rs)
  obtain lo hi where p: "p = (lo, hi)" by force
  obtain c bs' where bs: "bs = c # bs'" using Cons.prems(1) by (cases bs) (simp_all add: fits_def)
  then have l: "lx_current (lx_get l) = Some c" "lx_at (lx_add c (lx_get l)) (bs' @ rest)"
    using Cons.prems(2) lx_at_Cons by simp_all
  obtain l' where "bytes_in_ranges rs (lx_add c (lx_get l)) = (True, l')" "lx_at l' rest"
      "lx_buffer l' = lx_buffer (lx_add c (lx_get l)) @ bs'"
    using Cons.IH [OF _ l(2)] Cons.prems(1) by (auto simp: p bs)
  then show ?case using Cons.prems(1) l(1) by (simp add: p bs)
qed simp

lemma hex_value_lower: "n < 16 \<Longrightarrow> hex_value (Some (lower_hex n)) = Some n"
  by (simp add: hex_value_def lower_hex_def)

lemma hex_value_zero: "hex_value (Some (CHR ''0'')) = Some 0"
  by (simp add: hex_value_def byte_def)

lemma scan_unicode_low:
  assumes "n < 0x20" "lx_at l (''00'' @ [lower_hex (n div 16), lower_hex (n mod 16)] @ rest)"
  shows "\<exists>l'. scan_unicode l = (True, l') \<and> lx_at l' rest \<and> lx_buffer l' = lx_buffer l @ [char_of n]"
proof -
  let ?l1 = "lx_get l" and ?l2 = "lx_get (lx_get l)"
  have a1: "lx_current ?l1 = Some (CHR ''0'')" "lx_at ?l1 (CHR ''0'' # lower_hex (n div 16) # lower_hex (n mod 16) # rest)"
    using assms(2) lx_at_Cons by simp_all
  have a2: "lx_current ?l2 = Some (CHR ''0'')" "lx_at ?l2 (lower_hex (n div 16) # lower_hex (n mod 16) # rest)"
    using a1(2) lx_at_Cons by simp_all
  let ?l3 = "lx_get ?l2"
  have a3: "lx_current ?l3 = Some (lower_hex (n div 16))" "lx_at ?l3 (lower_hex (n mod 16) # rest)"
    using a2(2) lx_at_Cons by simp_all
  let ?l4 = "lx_get ?l3"
  have a4: "lx_current ?l4 = Some (lower_hex (n mod 16))" "lx_at ?l4 rest" using a3(2) lx_at_Cons by simp_all
  have "n div 16 < 16" "n mod 16 < 16" using assms(1) by (simp_all add: div_less_iff_less_mult)
  then have "get_codepoint l = (Some n, ?l4)"
    using a1(1) a2(1) a3(1) a4(1) by (simp add: get_codepoint_def Let_def hex_value_zero hex_value_lower mult.commute)
  then show ?thesis using assms(1) a4(2) by (simp add: scan_unicode_def utf8_encode_def)
qed

text \<open>One character of the text of a string.\<close>

lemma scan_char:
  assumes c: "byte c < 0x80" and at: "lx_at l (escape (byte c) c @ rest)"
  shows "\<exists>l'. scan_string_from l = scan_string_from l' \<and> lx_at l' rest \<and> lx_buffer l' = lx_buffer l @ [c]"
proof -
  let ?l1 = "lx_get l"
  have esc: "\<exists>l'. scan_string_from l = scan_string_from l' \<and> lx_at l' rest \<and> lx_buffer l' = lx_buffer l @ [c]"
    if "escape (byte c) c = backslash # xs" "lx_at ?l1 (xs @ rest) \<Longrightarrow> \<exists>l'. scan_escape ?l1 = (True, l') \<and> lx_at l' rest \<and> lx_buffer l' = lx_buffer l @ [c]" for xs
  proof -
    have "lx_current ?l1 = Some backslash" "lx_at ?l1 (xs @ rest)" using at that(1) lx_at_Cons by simp_all
    with that(2) show ?thesis
      by (subst scan_string_from.simps) (auto simp: Let_def backslash_def quote_def)
  qed
  have simple: "\<exists>l'. scan_escape ?l1 = (True, l') \<and> lx_at l' rest \<and> lx_buffer l' = lx_buffer l @ [c]"
    if "lx_at ?l1 ([x] @ rest)" "(x, c) \<in> {(quote, quote), (backslash, backslash), (CHR ''b'', CHR 0x08), (CHR ''f'', CHR 0x0C),
        (CHR ''n'', CHR 0x0A), (CHR ''r'', CHR 0x0D), (CHR ''t'', CHR 0x09)}" for x
  proof -
    have "lx_current (lx_get ?l1) = Some x" "lx_at (lx_get ?l1) rest" using that(1) lx_at_Cons by simp_all
    then show ?thesis using that(2) by (auto simp: scan_escape_def Let_def quote_def backslash_def)
  qed
  consider "byte c = 8" | "byte c = 9" | "byte c = 10" | "byte c = 12" | "byte c = 13" | "byte c = 34" | "byte c = 92"
    | "byte c < 32" "byte c \<notin> {8, 9, 10, 12, 13}" | "32 \<le> byte c" "byte c \<notin> {34, 92}" by force
  then show ?thesis
  proof cases
    case 1 then show ?thesis by (intro esc [of "''b''"] simple [of "CHR ''b''"]) (use byte_chars(1) [OF 1] 1 in \<open>simp_all add: escape_def\<close>)
  next
    case 2 then show ?thesis by (intro esc [of "''t''"] simple [of "CHR ''t''"]) (use byte_chars(2) [OF 2] 2 in \<open>simp_all add: escape_def\<close>)
  next
    case 3 then show ?thesis by (intro esc [of "''n''"] simple [of "CHR ''n''"]) (use byte_chars(3) [OF 3] 3 in \<open>simp_all add: escape_def\<close>)
  next
    case 4 then show ?thesis by (intro esc [of "''f''"] simple [of "CHR ''f''"]) (use byte_chars(4) [OF 4] 4 in \<open>simp_all add: escape_def\<close>)
  next
    case 5 then show ?thesis by (intro esc [of "''r''"] simple [of "CHR ''r''"]) (use byte_chars(5) [OF 5] 5 in \<open>simp_all add: escape_def\<close>)
  next
    case 6 then show ?thesis by (intro esc [of "[quote]"] simple [of quote]) (use byte_chars(6) [OF 6] 6 in \<open>simp_all add: escape_def quote_def\<close>)
  next
    case 7 then show ?thesis by (intro esc [of "[backslash]"] simple [of backslash]) (use byte_chars(7) [OF 7] 7 in \<open>simp_all add: escape_def backslash_def\<close>)
  next
    case 8
    let ?xs = "''u00'' @ [lower_hex (byte c div 16), lower_hex (byte c mod 16)]"
    show ?thesis
    proof (rule esc [of ?xs])
      show "escape (byte c) c = backslash # ?xs" using 8 by (simp add: escape_def)
      assume "lx_at ?l1 (?xs @ rest)"
      then have "lx_current (lx_get ?l1) = Some (CHR ''u'')" "lx_at (lx_get ?l1) (''00'' @ [lower_hex (byte c div 16), lower_hex (byte c mod 16)] @ rest)"
        using lx_at_Cons by simp_all
      with scan_unicode_low [OF 8(1) this(2)] char_eqI [OF refl, of c]
      show "\<exists>l'. scan_escape ?l1 = (True, l') \<and> lx_at l' rest \<and> lx_buffer l' = lx_buffer l @ [c]"
        by (auto simp: scan_escape_def Let_def quote_def backslash_def)
    qed
  next
    case 9
    then have "escape (byte c) c = [c]" by (simp add: escape_def)
    then have l1: "lx_current ?l1 = Some c" "lx_at ?l1 rest" using at lx_at_Cons by simp_all
    have "c \<noteq> quote" "c \<noteq> backslash" using 9 by (auto simp: quote_def backslash_def byte_def)
    moreover have "utf8_ranges (byte c) = Some []" using 9 c by (simp add: utf8_ranges_def)
    ultimately have "scan_string_from l = scan_string_from (lx_add c ?l1)"
      using l1(1) 9 by (subst scan_string_from.simps) (simp add: Let_def next_byte_in_range_def)
    then show ?thesis using l1(2) by (intro exI [of _ "lx_add c ?l1"]) simp
  qed
qed

lemma scan_dumped:
  "dump_bytes i (0, cp) s = Inr (out, 0) \<Longrightarrow> lx_at l (out @ quote # rest) \<Longrightarrow>
     \<exists>l'. scan_string_from l = (TString (lx_buffer l @ s), l') \<and> lx_at l' rest"
proof (induction s arbitrary: i cp out l rule: length_induct)
  case (1 s)
  show ?case
  proof (cases s)
    case Nil
    then have "lx_current (lx_get l) = Some quote" "lx_at (lx_get l) rest" using 1(2,3) lx_at_Cons by simp_all
    then show ?thesis by (subst scan_string_from.simps) (simp add: Let_def Nil)
  next
    case (Cons c cs)
    from dump_cases [OF 1(2) [unfolded Cons]] consider
      (single) out' i' cp' where "byte c < 0x80" "out = escape (byte c) c @ out'" "dump_bytes i' (0, cp') cs = Inr (out', 0)"
    | (multi) rs bs s' out' i' cp' where "0x80 \<le> byte c" "utf8_ranges (byte c) = Some rs" "fits rs bs" "cs = bs @ s'"
       "out = c # bs @ out'" "dump_bytes i' (0, cp') s' = Inr (out', 0)" by blast
    then show ?thesis
    proof cases
      case single
      then obtain l' where l': "scan_string_from l = scan_string_from l'" "lx_at l' (out' @ quote # rest)" "lx_buffer l' = lx_buffer l @ [c]"
        using scan_char [of c l "out' @ quote # rest"] 1(3) by auto
      then show ?thesis using 1(1) [rule_format, OF _ single(3) l'(2)] by (simp add: Cons)
    next
      case multi
      let ?l1 = "lx_get l"
      have l1: "lx_current ?l1 = Some c" "lx_at (lx_add c ?l1) (bs @ out' @ quote # rest)" using 1(3) multi(5) lx_at_Cons by simp_all
      obtain l' where l': "bytes_in_ranges rs (lx_add c ?l1) = (True, l')" "lx_at l' (out' @ quote # rest)"
          "lx_buffer l' = lx_buffer l @ [c] @ bs"
        using bytes_in_ranges_fits [OF multi(3) l1(2)] by auto
      have "c \<noteq> quote" "c \<noteq> backslash" using multi(1) by (auto simp: quote_def backslash_def byte_def)
      then have "scan_string_from l = scan_string_from l'"
        using l1(1) multi(1,2) l'(1) by (subst scan_string_from.simps) (simp add: Let_def next_byte_in_range_def)
      moreover have "length s' < length s" using multi(4) by (simp add: Cons)
      ultimately show ?thesis using 1(1) [rule_format, OF _ multi(6) l'(2)] l'(3) by (simp add: Cons multi(4))
    qed
  qed
qed

lemma dump_escaped_scan:
  assumes "dump_escaped s = Inr out" "lx_at l (out @ quote # rest)"
  shows "\<exists>l'. scan_string l = (TString s, l') \<and> lx_at l' rest"
proof -
  have "dump_bytes 0 (0, 0) s = Inr (out, 0)" using assms(1)
    by (auto simp: dump_escaped_def bindR_def type_error_def split: sum.splits if_splits)
  from scan_dumped [OF this, of "lx_reset l"] assms(2) show ?thesis by (simp add: scan_string_def)
qed

end
