(* ===== verification/Grisu_Digits.thy ===== *)
theory Grisu_Digits
  imports Grisu
begin

text \<open>
  The arithmetic of \<open>Grisu\<close> on natural numbers: no operation that matters wraps, normalisation ends, and the digit
  generation returns digits of a number between \<open>M_minus\<close> and \<open>M_plus\<close>.
\<close>

section \<open>The operations on natural numbers\<close>

abbreviation sig :: "diyfp \<Rightarrow> nat" where
  "sig x \<equiv> unat (df_f x)"

lemma diyfp_of_sel [simp]: "df_f (diyfp_of f e) = f" "df_e (diyfp_of f e) = e"
  by (simp_all add: diyfp_of_def)

lemma unat_less [simp]: "unat (w :: u64) < 18446744073709551616"
  using unsigned_less [of w] by simp

lemma unat_mul64: "unat (a * b :: u64) = unat a * unat b mod 2 ^ 64"
  by (simp add: unat_word_ariths)

lemma unat_add64: "unat (a + b :: u64) = (unat a + unat b) mod 2 ^ 64"
  by (simp add: unat_word_ariths)

lemma unat_mask32: "unat (w AND 0xFFFFFFFF :: u64) = unat w mod 2 ^ 32"
proof -
  have "w AND 0xFFFFFFFF = take_bit 32 w" by (simp only: take_bit_eq_mask mask_eq_exp_minus_1) simp
  then have "unat (w AND 0xFFFFFFFF) = take_bit 32 (unat w)" by (simp only: unsigned_take_bit_eq)
  then show ?thesis by (simp only: take_bit_eq_mod)
qed

lemma unat_drop: "unat (drop_bit n w :: u64) = unat w div 2 ^ n"
proof -
  have "unat (drop_bit n w) = drop_bit n (unat w)" by (rule unat_drop_bit_eq)
  then show ?thesis by (simp only: drop_bit_eq_div)
qed

lemma mul_parts:
  fixes a b c d :: nat
  assumes "a < 2 ^ 32" "b < 2 ^ 32" "c < 2 ^ 32" "d < 2 ^ 32"
  defines "Q \<equiv> a * c div 2 ^ 32 + a * d mod 2 ^ 32 + b * c mod 2 ^ 32 + 2 ^ 31"
  shows "b * d + b * c div 2 ^ 32 + a * d div 2 ^ 32 + Q div 2 ^ 32 = ((a + b * 2 ^ 32) * (c + d * 2 ^ 32) + 2 ^ 63) div 2 ^ 64"
proof -
  define p0l p0h p1l p1h p2l p2h ql qh where p:
    "p0l = a * c mod 2 ^ 32" "p0h = a * c div 2 ^ 32" "p1l = a * d mod 2 ^ 32" "p1h = a * d div 2 ^ 32"
    "p2l = b * c mod 2 ^ 32" "p2h = b * c div 2 ^ 32" "ql = Q mod 2 ^ 32" "qh = Q div 2 ^ 32"
  have e: "a * c = p0h * 2 ^ 32 + p0l" "a * d = p1h * 2 ^ 32 + p1l" "b * c = p2h * 2 ^ 32 + p2l" "Q = qh * 2 ^ 32 + ql"
    by (simp_all only: p div_mult_mod_eq)
  have Q: "Q = p0h + p1l + p2l + 2 ^ 31" by (simp only: Q_def p)
  have lt: "p0l < 2 ^ 32" "ql < 2 ^ 32" by (simp_all add: p)
  have "(a + b * 2 ^ 32) * (c + d * 2 ^ 32) + 2 ^ 63 = a * c + (a * d + b * c) * 2 ^ 32 + b * d * 2 ^ 64 + 2 ^ 63"
    by (simp add: algebra_simps)
  also have "\<dots> = (p0l + ql * 2 ^ 32) + (b * d + p2h + p1h + qh) * 2 ^ 64"
    using e Q by simp
  finally have eq: "(a + b * 2 ^ 32) * (c + d * 2 ^ 32) + 2 ^ 63 = \<dots>" .
  have "p0l + ql * 2 ^ 32 < 2 ^ 64" using lt by simp
  then have "((p0l + ql * 2 ^ 32) + (b * d + p2h + p1h + qh) * 2 ^ 64) div 2 ^ 64 = b * d + p2h + p1h + qh"
    by simp
  then show ?thesis unfolding eq by (simp only: p)
qed

lemma unat_mul32:
  fixes u v :: u64
  assumes "unat u < 2 ^ 32" "unat v < 2 ^ 32"
  shows "unat (u * v) = unat u * unat v" and "unat u * unat v \<le> (2 ^ 32 - 1) * (2 ^ 32 - 1)"
proof -
  show le: "unat u * unat v \<le> (2 ^ 32 - 1) * (2 ^ 32 - 1)" using assms by (intro mult_le_mono) auto
  then show "unat (u * v) = unat u * unat v" by (simp add: unat_mul64)
qed

lemma unat_add_small: "unat u + unat v < 2 ^ 64 \<Longrightarrow> unat (u + v :: u64) = unat u + unat v"
  by (simp add: unat_add64)

lemma sig_mul: "sig (diyfp_mul x y) = (sig x * sig y + 2 ^ 63) div 2 ^ 64"
proof -
  define a b c d where w: "a = df_f x AND 0xFFFFFFFF" "b = drop_bit 32 (df_f x)" "c = df_f y AND 0xFFFFFFFF" "d = drop_bit 32 (df_f y)"
  define A B C D where n: "A = unat a" "B = unat b" "C = unat c" "D = unat d"
  have lt: "A < 2 ^ 32" "B < 2 ^ 32" "C < 2 ^ 32" "D < 2 ^ 32"
    unfolding n w unat_mask32 unat_drop by (simp_all add: less_mult_imp_div_less)
  have xy: "A + B * 2 ^ 32 = sig x" "C + D * 2 ^ 32 = sig y"
    unfolding n w unat_mask32 unat_drop by simp_all
  note p = unat_mul32 [of a c, folded n] unat_mul32 [of a d, folded n] unat_mul32 [of b c, folded n] unat_mul32 [of b d, folded n]
  define Q where "Q = drop_bit 32 (a * c) + ((a * d) AND 0xFFFFFFFF) + ((b * c) AND 0xFFFFFFFF) + push_bit 31 1"
  define q where "q = A * C div 2 ^ 32 + A * D mod 2 ^ 32 + B * C mod 2 ^ 32 + 2 ^ 31"
  have parts: "A * C div 2 ^ 32 < 2 ^ 32" "A * D mod 2 ^ 32 < 2 ^ 32" "B * C mod 2 ^ 32 < 2 ^ 32"
    using p(2) lt by (simp_all add: less_mult_imp_div_less)
  have "unat (push_bit 31 1 :: u64) = 2 ^ 31" by simp
  then have Q: "unat Q = q"
    using parts lt unfolding Q_def q_def
    by (simp add: unat_add_small unat_drop unat_mask32 p(1,3,5))
  have h: "B * D + B * C div 2 ^ 32 + A * D div 2 ^ 32 + q div 2 ^ 32 = (sig x * sig y + 2 ^ 63) div 2 ^ 64"
    using mul_parts [OF lt] unfolding xy q_def by simp
  have "sig x * sig y \<le> (2 ^ 64 - 1) * (2 ^ 64 - 1)" by (intro mult_le_mono) (simp_all add: less_Suc_eq_le [symmetric])
  then have small: "(sig x * sig y + 2 ^ 63) div 2 ^ 64 < 2 ^ 64" by (intro less_mult_imp_div_less) simp
  have "sig (diyfp_mul x y) = unat (b * d + drop_bit 32 (b * c) + drop_bit 32 (a * d) + drop_bit 32 Q)"
    by (simp only: diyfp_mul_def Let_def diyfp_of_sel w Q_def)
  also have "\<dots> = (B * D + B * C div 2 ^ 32 + A * D div 2 ^ 32 + q div 2 ^ 32) mod 2 ^ 64"
    using lt by (simp only: unat_add64 unat_drop p(1,3,5,7) Q mod_add_left_eq)
  finally show ?thesis unfolding h using small by simp
qed

section \<open>Normal form\<close>

lemma unat_push1: "unat w < 2 ^ 63 \<Longrightarrow> unat (push_bit 1 w :: u64) = 2 * unat w"
proof -
  assume "unat w < 2 ^ 63"
  moreover have "push_bit 1 w = w * 2" by (simp add: push_bit_eq_mult)
  ultimately show ?thesis by (simp add: unat_mul64)
qed

lemma drop63: "drop_bit 63 w = (0 :: u64) \<longleftrightarrow> unat w < 2 ^ 63"
proof -
  have "drop_bit 63 w = 0 \<longleftrightarrow> unat (drop_bit 63 w) = 0" by (simp add: unsigned_eq_0_iff)
  then show ?thesis by (simp only: unat_drop) (simp add: div_eq_0_iff)
qed

lemma normalize_result:
  assumes "0 < sig x"
  shows "\<exists>y j. diyfp_normalize x = Some y \<and> 2 ^ 63 \<le> sig y \<and> sig y = sig x * 2 ^ j \<and> df_e y = df_e x - int j"
  using assms
proof (induction "2 ^ 64 - sig x" arbitrary: x rule: less_induct)
  case less
  show ?case
  proof (cases "sig x < 2 ^ 63")
    case False
    then show ?thesis
      by (subst diyfp_normalize.simps) (auto simp: drop63 intro!: exI [of _ 0])
  next
    case True
    let ?x = "diyfp_of (push_bit 1 (df_f x)) (df_e x - 1)"
    have s: "sig ?x = 2 * sig x" using True by (simp only: diyfp_of_sel unat_push1)
    have "2 ^ 64 - sig ?x < 2 ^ 64 - sig x" using True less.prems unfolding s by simp
    from less.hyps [OF this] obtain y j where
      y: "diyfp_normalize ?x = Some y" "2 ^ 63 \<le> sig y" "sig y = sig ?x * 2 ^ j" "df_e y = df_e ?x - int j"
      using less.prems unfolding s by auto
    have "diyfp_normalize x = Some y" using True y(1) by (subst diyfp_normalize.simps) (simp add: drop63)
    then show ?thesis using y(2-4) s by (intro exI [of _ y] exI [of _ "Suc j"]) auto
  qed
qed

section \<open>Rounding the last digit\<close>

lemma dec_last_put: "d < 9 \<Longrightarrow> dec_last (put_digit b (Suc d)) = put_digit b d"
proof -
  assume d: "d < 9"
  then have "char_of (byte (char_of (48 + Suc d)) + 255) = (char_of (48 + d) :: char)"
    by (simp add: char_of_mod_256 [of "304 + d", symmetric] mod_if)
  then show ?thesis by (simp add: dec_last_def put_digit_def)
qed

lemma round_result:
  assumes "unat rest \<le> unat delta" "0 < unat ten" "unat delta < unat rest + d * unat ten" "d \<le> 9"
  shows "\<exists>j<d. grisu2_round (put_digit b d) dist delta rest ten = Some (put_digit b (d - j)) \<and>
           unat rest + j * unat ten \<le> unat delta"
  using assms
proof (induction d arbitrary: rest)
  case 0
  then show ?case by simp
next
  case (Suc d)
  have rest: "rest \<le> delta" using Suc.prems(1) by (simp add: word_le_nat_alt)
  have diff: "unat (delta - rest) = unat delta - unat rest" using rest by (rule unat_sub)
  let ?g = "rest < dist \<and> ten \<le> delta - rest \<and> (rest + ten < dist \<or> rest + ten - dist < dist - rest)"
  show ?case
  proof (cases ?g)
    case False
    then have "grisu2_round (put_digit b (Suc d)) dist delta rest ten = Some (put_digit b (Suc d))"
      by (subst grisu2_round.simps) (simp only: if_False)
    then show ?thesis using Suc.prems by (intro exI [of _ 0]) simp
  next
    case True
    then have "unat ten \<le> unat (delta - rest)" by (simp only: word_le_nat_alt)
    then have le: "unat rest + unat ten \<le> unat delta" using diff Suc.prems(1) by linarith
    then have s: "unat (rest + ten) = unat rest + unat ten"
      by (intro unat_add_small le_less_trans [OF le]) simp
    have "\<exists>j<d. grisu2_round (put_digit b d) dist delta (rest + ten) ten = Some (put_digit b (d - j)) \<and>
           unat (rest + ten) + j * unat ten \<le> unat delta"
      using Suc.prems le by (intro Suc.IH) (simp_all add: s)
    then obtain j where j: "j < d" "grisu2_round (put_digit b d) dist delta (rest + ten) ten = Some (put_digit b (d - j))"
      "unat rest + unat ten + j * unat ten \<le> unat delta" by (auto simp: s)
    have "grisu2_round (put_digit b (Suc d)) dist delta rest ten = Some (put_digit b (d - j))"
      using True j(2) Suc.prems(4) by (subst grisu2_round.simps) (simp add: dec_last_put)
    then show ?thesis using j by (intro exI [of _ "Suc j"]) simp
  qed
qed

section \<open>The digits\<close>

lemma put_digit_simps [simp]:
  "d \<le> 9 \<Longrightarrow> digits_val (put_digit b d) = 10 * digits_val b + d" "length (put_digit b d) = Suc (length b)"
  "put_digit b d \<noteq> []"
  by (simp_all add: put_digit_def digit_val_def)

definition decimal :: "string \<Rightarrow> bool" where
  "decimal b \<longleftrightarrow> (\<forall>c \<in> set b. isdigit c) \<and> (b \<noteq> [] \<longrightarrow> hd b \<noteq> CHR ''0'')"

lemma byte_0: "byte (CHR ''0'') = 48"
  by (simp add: byte_def)

lemma decimal_put: "decimal b \<Longrightarrow> d \<le> 9 \<Longrightarrow> b \<noteq> [] \<or> 0 < d \<Longrightarrow> decimal (put_digit b d)"
proof -
  assume "decimal b" "d \<le> 9" "b \<noteq> [] \<or> 0 < d"
  moreover have "isdigit (char_of (48 + d))" using \<open>d \<le> 9\<close> by (simp add: isdigit_def)
  moreover have "0 < d \<Longrightarrow> (char_of (48 + d) :: char) \<noteq> CHR ''0''"
    using \<open>d \<le> 9\<close> byte_char_of [of "48 + d"] byte_0 by fastforce
  ultimately show ?thesis by (cases b) (auto simp: decimal_def put_digit_def)
qed

text \<open>\<open>D * 10 ^ r\<close> is at most \<open>M\<close> and misses it by no more than \<open>\<Delta>\<close>, both in units of \<open>2 ^ -s\<close>.\<close>

definition approx :: "nat \<Rightarrow> nat \<Rightarrow> nat \<Rightarrow> nat \<Rightarrow> int \<Rightarrow> bool" where
  "approx M \<Delta> s D r \<longleftrightarrow>
     D * 2 ^ s * 10 ^ nat r \<le> M * 10 ^ nat (- r) \<and> M * 10 ^ nat (- r) \<le> D * 2 ^ s * 10 ^ nat r + \<Delta> * 10 ^ nat (- r)"

lemma unat_mask: "s < 64 \<Longrightarrow> unat (w AND (push_bit s 1 - 1) :: u64) = unat w mod 2 ^ s"
proof -
  have "w AND (push_bit s 1 - 1) = take_bit s w"
    by (simp add: take_bit_eq_mask mask_eq_exp_minus_1 push_bit_eq_mult)
  then have "unat (w AND (push_bit s 1 - 1)) = take_bit s (unat w)" by (simp only: unsigned_take_bit_eq)
  then show ?thesis by (simp only: take_bit_eq_mod)
qed

lemma unat_push: "unat w * 2 ^ s < 2 ^ 64 \<Longrightarrow> unat (push_bit s w :: u64) = unat w * 2 ^ s"
proof -
  assume "unat w * 2 ^ s < 2 ^ 64"
  moreover have "unat (push_bit s w) = take_bit 64 (push_bit s (unat w))" by (simp add: unsigned_push_bit_eq)
  then have "unat (push_bit s w) = unat w * 2 ^ s mod 2 ^ 64" by (simp only: push_bit_eq_mult take_bit_eq_mod)
  ultimately show ?thesis by simp
qed

lemma frac_result:
  assumes s: "s \<le> 60" and M: "M * 10 ^ m = digits_val buf * 2 ^ s + unat p2"
    and p2: "unat p2 < 2 ^ s" "unat delta < unat p2" and delta: "unat delta = \<Delta> * 10 ^ m" "0 < unat delta"
    and buf: "decimal buf" "buf \<noteq> []"
  shows "\<exists>buf' m'. digit_gen_frac s buf m p2 delta dist = Some (buf', m') \<and> decimal buf' \<and> buf' \<noteq> [] \<and> 0 < m' \<and>
           length buf' + m = length buf + m' \<and> \<Delta> * 10 ^ (m' - 1) < 2 ^ s \<and> approx M \<Delta> s (digits_val buf') (- int m')"
  using M p2 delta buf
proof (induction "2 ^ s - unat delta" arbitrary: buf m p2 delta dist rule: less_induct)
  case less
  note M = less.prems(1) and p2 = less.prems(2,3) and delta = less.prems(4,5) and buf = less.prems(6,7)
  have "(2::nat) ^ s \<le> 2 ^ 60" using s by (rule power_increasing) simp
  then have p2s: "(2::nat) ^ s < 2 ^ 64" by (rule le_less_trans) simp
  have small: "unat p2 < 2 ^ 60" "unat delta < 2 ^ 60"
    using p2 \<open>2 ^ s \<le> 2 ^ 60\<close> by linarith+
  define p where "p = 10 * unat p2"
  have up: "unat (p2 * 10) = p" "unat (delta * 10) = 10 * unat delta" using small by (simp_all add: unat_mul64 p_def)
  define d r where "d = p div 2 ^ s" and "r = p mod 2 ^ s"
  have pdr: "p = d * 2 ^ s + r" by (simp only: d_def r_def div_mult_mod_eq)
  have d9: "d \<le> 9"
  proof -
    have "p < 10 * 2 ^ s" using p2(1) by (simp add: p_def)
    then have "d < 10" by (simp add: d_def div_less_iff_less_mult)
    then show ?thesis by simp
  qed
  define rw one :: u64 where w: "rw = (p2 * 10) AND (push_bit s 1 - 1)" "one = push_bit s 1"
  let ?buf = "put_digit buf d"
  have ten: "unat one = 2 ^ s" unfolding w using p2s by (subst unat_push) simp_all
  have ur: "unat rw = r" "unat (drop_bit s (p2 * 10)) = d" using s by (simp_all only: w(1) unat_mask unat_drop up r_def d_def)
  have rs: "r < 2 ^ s" by (simp add: r_def)
  have M': "M * 10 ^ Suc m = digits_val ?buf * 2 ^ s + r"
    using M d9 pdr by (simp add: p_def algebra_simps)
  have dec: "decimal ?buf" using buf d9 by (simp add: decimal_put)
  have step: "digit_gen_frac s buf m p2 delta dist =
      (if rw \<le> delta * 10
       then Option.bind (grisu2_round ?buf (dist * 10) (delta * 10) rw one) (\<lambda>buf2. Some (buf2, m + 1))
       else digit_gen_frac s ?buf (m + 1) rw (delta * 10) (dist * 10))"
    by (subst digit_gen_frac.simps) (simp only: Let_def ur w)
  show ?case
  proof (cases "rw \<le> delta * 10")
    case True
    then have le: "r \<le> 10 * unat delta" using up ur by (simp add: word_le_nat_alt)
    have "\<exists>j<d. grisu2_round ?buf (dist * 10) (delta * 10) rw one = Some (put_digit buf (d - j)) \<and>
           unat rw + j * unat one \<le> unat (delta * 10)"
      using le d9 p2(2) pdr unfolding p_def by (intro round_result) (simp_all add: ur up ten)
    then obtain j where j: "j < d" "grisu2_round ?buf (dist * 10) (delta * 10) rw one = Some (put_digit buf (d - j))"
      "r + j * 2 ^ s \<le> 10 * unat delta" by (auto simp: ur up ten)
    from j(1) obtain k where k: "d = j + k" "0 < k" by (auto dest: less_imp_add_positive)
    have eq: "digits_val ?buf * 2 ^ s = digits_val (put_digit buf (d - j)) * 2 ^ s + j * 2 ^ s"
      using k d9 by (simp add: algebra_simps)
    have "approx M \<Delta> s (digits_val (put_digit buf (d - j))) (- int (Suc m))"
      using M' eq j(3) delta(1) by (simp add: approx_def mult_ac del: of_nat_Suc)
    moreover have "decimal (put_digit buf (d - j))" using buf d9 by (simp add: decimal_put)
    moreover have "\<Delta> * 10 ^ m < 2 ^ s" using p2 delta(1) by linarith
    ultimately show ?thesis
      using step True j(2) by (intro exI [of _ "put_digit buf (d - j)"] exI [of _ "Suc m"]) simp
  next
    case False
    then have gt: "10 * unat delta < r" using up ur by (simp add: word_le_nat_alt)
    have "2 ^ s - unat (delta * 10) < 2 ^ s - unat delta" using gt rs delta(2) by (simp add: up)
    from less.hyps [OF this, of "Suc m" ?buf rw "dist * 10"] M' gt rs delta dec
    obtain buf' m' where "digit_gen_frac s ?buf (Suc m) rw (delta * 10) (dist * 10) = Some (buf', m')"
      "decimal buf'" "buf' \<noteq> []" "0 < m'" "length buf' + Suc m = length ?buf + m'" "\<Delta> * 10 ^ (m' - 1) < 2 ^ s" "approx M \<Delta> s (digits_val buf') (- int m')"
      by (auto simp: ur up mult_ac)
    then show ?thesis using step False by (intro exI [of _ buf'] exI [of _ m']) simp
  qed
qed

text \<open>In the integral part \<open>n\<close> digits are still to come and \<open>R\<close> is what the digits so far leave of \<open>M\<close>.\<close>

lemma unat_ucast32 [simp]: "unat (ucast (w :: u32) :: u64) = unat w"
  by (simp add: unsigned_ucast_eq take_bit_nat_eq_self_iff) (rule less_trans [OF unsigned_less], simp)

lemma int_result:
  assumes s: "s \<le> 60" and M: "M = digits_val buf * 10 ^ n * 2 ^ s + (unat p1 * 2 ^ s + unat p2)" "M < 2 ^ 64"
    and p1: "unat p1 < 10 ^ n" "0 < n \<Longrightarrow> unat pow10 = 10 ^ (n - 1)" and p2: "unat p2 < 2 ^ s"
    and rest: "unat delta < unat p1 * 2 ^ s + unat p2" "0 < unat delta"
    and buf: "decimal buf" "if buf = [] then 0 < n \<and> 10 ^ (n - 1) \<le> unat p1 else True"
  shows "\<exists>buf' r. digit_gen_int s n buf p1 pow10 p2 delta dist de = Some (buf', de + r) \<and> decimal buf' \<and> buf' \<noteq> [] \<and>
           int (length buf') + r = int (length buf + n) \<and> (r < 0 \<longrightarrow> unat delta * 10 ^ nat (- r - 1) < 2 ^ s) \<and> approx M (unat delta) s (digits_val buf') r"
  using M p1 rest buf
proof (induction n arbitrary: buf p1 pow10)
  case 0
  have "\<exists>buf' m'. digit_gen_frac s buf 0 p2 delta dist = Some (buf', m') \<and> decimal buf' \<and> buf' \<noteq> [] \<and> 0 < m' \<and>
           length buf' + 0 = length buf + m' \<and> unat delta * 10 ^ (m' - 1) < 2 ^ s \<and> approx M (unat delta) s (digits_val buf') (- int m')"
    using 0 p2 s by (intro frac_result) (auto split: if_splits)
  then obtain buf' m' where "digit_gen_frac s buf 0 p2 delta dist = Some (buf', m')" "decimal buf'" "buf' \<noteq> []"
      "length buf' = length buf + m'" "0 < m'" "unat delta * 10 ^ (m' - 1) < 2 ^ s" "approx M (unat delta) s (digits_val buf') (- int m')" by auto
  then show ?case by (intro exI [of _ buf'] exI [of _ "- int m'"]) (simp add: nat_diff_distrib)
next
  case (Suc n)
  note M = Suc.prems(1,2) and p1 = Suc.prems(3,4) and rest = Suc.prems(5,6) and buf = Suc.prems(7,8)
  have pow: "unat pow10 = 10 ^ n" using p1(2) by simp
  define d r where "d = unat p1 div 10 ^ n" and "r = unat p1 mod 10 ^ n"
  have pdr: "unat p1 = d * 10 ^ n + r" by (simp only: d_def r_def div_mult_mod_eq)
  have d9: "d \<le> 9"
  proof -
    have "d < 10" using p1(1) by (simp add: d_def div_less_iff_less_mult)
    then show ?thesis by simp
  qed
  define dw rw where w: "dw = p1 div pow10" "rw = p1 mod pow10"
  have u: "unat dw = d" "unat rw = r" by (simp_all add: w unat_div unat_mod pow d_def r_def)
  let ?buf = "put_digit buf d"
  define R where "R = r * 2 ^ s + unat p2"
  have before: "unat p1 * 2 ^ s + unat p2 = d * (10 ^ n * 2 ^ s) + R" by (simp add: pdr R_def algebra_simps)
  have M': "M = digits_val ?buf * 10 ^ n * 2 ^ s + R"
    unfolding M(1) before using d9 by (simp add: algebra_simps)
  then have R: "R < 2 ^ 64" using M(2) by linarith
  define rest_w where rw: "rest_w = push_bit s (ucast rw) + p2"
  have ur: "unat rest_w = R"
  proof -
    have "r * 2 ^ s < 2 ^ 64" using R unfolding R_def by linarith
    then have "unat (push_bit s (ucast rw) :: u64) = r * 2 ^ s" by (subst unat_push) (simp_all add: u)
    then show ?thesis unfolding rw using R by (subst unat_add_small) (simp_all add: R_def)
  qed
  have pos: "0 < d" if "buf = []"
  proof -
    have "10 ^ n \<le> unat p1" using buf(2) that by simp
    then show ?thesis by (simp add: d_def div_greater_zero_iff)
  qed
  have dec: "decimal ?buf" using buf d9 pos by (intro decimal_put) auto
  define ten where ten: "ten = push_bit s (ucast pow10 :: u64)"
  have step: "digit_gen_int s (Suc n) buf p1 pow10 p2 delta dist de =
      (if rest_w \<le> delta
       then Option.bind (grisu2_round ?buf dist delta rest_w ten) (\<lambda>buf2. Some (buf2, de + int n))
       else digit_gen_int s n ?buf rw (pow10 div 10) p2 delta dist de)"
    by (simp only: digit_gen_int.simps Let_def w [symmetric] u rw ten)
  show ?case
  proof (cases "rest_w \<le> delta")
    case True
    then have le: "R \<le> unat delta" by (simp add: word_le_nat_alt ur)
    have gt: "unat delta < R + d * (10 ^ n * 2 ^ s)" using rest(1) before by simp
    then have d0: "0 < d" using le by (cases d) auto
    have "10 ^ n * 2 ^ s \<le> d * (10 ^ n * 2 ^ s)" using d0 by simp
    also have "\<dots> < 2 ^ 64" using M unfolding before by linarith
    finally have uten: "unat ten = 10 ^ n * 2 ^ s" unfolding ten by (subst unat_push) (simp_all add: pow)
    have "\<exists>j<d. grisu2_round ?buf dist delta rest_w ten = Some (put_digit buf (d - j)) \<and>
           unat rest_w + j * unat ten \<le> unat delta"
      using le d9 gt by (intro round_result) (simp_all add: ur uten)
    then obtain j where j: "j < d" "grisu2_round ?buf dist delta rest_w ten = Some (put_digit buf (d - j))"
      "R + j * (10 ^ n * 2 ^ s) \<le> unat delta" by (auto simp: ur uten)
    from j(1) obtain k where k: "d = j + k" "0 < k" by (auto dest: less_imp_add_positive)
    have eq: "digits_val ?buf * 10 ^ n * 2 ^ s = digits_val (put_digit buf (d - j)) * 10 ^ n * 2 ^ s + j * (10 ^ n * 2 ^ s)"
      using k d9 by (simp add: algebra_simps)
    have "approx M (unat delta) s (digits_val (put_digit buf (d - j))) (int n)"
      using M' eq j(3) by (simp add: approx_def mult_ac)
    moreover have "decimal (put_digit buf (d - j))" using buf d9 k by (intro decimal_put) auto
    ultimately show ?thesis
      using step True j(2) by (intro exI [of _ "put_digit buf (d - j)"] exI [of _ "int n"]) simp
  next
    case False
    then have gt: "unat delta < R" by (simp add: word_le_nat_alt ur)
    have "\<exists>buf' r. digit_gen_int s n ?buf rw (pow10 div 10) p2 delta dist de = Some (buf', de + r) \<and> decimal buf' \<and> buf' \<noteq> [] \<and>
           int (length buf') + r = int (length ?buf + n) \<and> (r < 0 \<longrightarrow> unat delta * 10 ^ nat (- r - 1) < 2 ^ s) \<and> approx M (unat delta) s (digits_val buf') r"
    proof (rule Suc.IH)
      show "M = digits_val ?buf * 10 ^ n * 2 ^ s + (unat rw * 2 ^ s + unat p2)" using M' by (simp only: R_def u)
      show "unat rw < 10 ^ n" by (simp add: u r_def)
      show "unat (pow10 div 10) = 10 ^ (n - 1)" if "0 < n"
        using that by (cases n) (simp_all add: unat_div pow)
    qed (use M(2) gt rest(2) dec in \<open>simp_all add: R_def u\<close>)
    then show ?thesis using step False by simp
  qed
qed

lemma largest_pow10:
  assumes "0 < unat p"
  obtains k where "find_largest_pow10 p = (k, 10 ^ (k - 1))" "0 < k" "k \<le> 10" "10 ^ (k - 1) \<le> unat p" "unat p < 10 ^ k"
    "unat (10 ^ (k - 1) :: u32) = 10 ^ (k - 1)"
proof -
  have lt: "unat p < 4294967296" using unsigned_less [of p] by simp
  show thesis
  proof (rule that [of "fst (find_largest_pow10 p)"])
  qed (use assms lt in \<open>auto simp: find_largest_pow10_def word_le_nat_alt\<close>)
qed

lemma digit_gen_result:
  assumes lt: "0 < sig Mm" "sig Mm < sig Mp" and big: "2 ^ 61 \<le> sig Mp" and e: "- 60 \<le> df_e Mp" "df_e Mp \<le> - 32"
  shows "\<exists>buf r. digit_gen de Mm w Mp = Some (buf, de + r) \<and> decimal buf \<and> buf \<noteq> [] \<and>
           0 < int (length buf) + r \<and> int (length buf) + r \<le> 10 \<and>
           (length buf \<le> 10 \<or> (sig Mp - sig Mm) * 10 ^ (length buf - 2) < sig Mp) \<and>
           approx (sig Mp) (sig Mp - sig Mm) (nat (- df_e Mp)) (digits_val buf) r"
proof -
  define s where s: "s = nat (- df_e Mp)"
  have s60: "32 \<le> s" "s \<le> 60" using e by (simp_all add: s)
  define p1 :: u32 where p1: "p1 = ucast (drop_bit s (df_f Mp))"
  define p2 where p2: "p2 = df_f Mp AND (push_bit s 1 - 1)"
  define delta where delta: "delta = df_f Mp - df_f Mm"
  have "sig Mp < 2 ^ 64" by simp
  also have "(2 :: nat) ^ 64 = 2 ^ 32 * 2 ^ 32" by simp
  also have "\<dots> \<le> 2 ^ 32 * 2 ^ s" using s60(1) by (intro mult_le_mono2 power_increasing) auto
  finally have "sig Mp div 2 ^ s < 2 ^ 32" by (simp add: div_less_iff_less_mult)
  then have u1: "unat p1 = sig Mp div 2 ^ s"
    unfolding p1 by (simp add: unsigned_ucast_eq unat_drop take_bit_nat_eq_self_iff)
  have u2: "unat p2 = sig Mp mod 2 ^ s" unfolding p2 using s60 by (simp only: unat_mask)
  have ud: "unat delta = sig Mp - sig Mm" unfolding delta by (rule unat_sub) (use lt in \<open>simp add: word_le_nat_alt\<close>)
  have M: "sig Mp = unat p1 * 2 ^ s + unat p2" by (simp only: u1 u2 div_mult_mod_eq)
  have "(2::nat) ^ s \<le> 2 ^ 61" using s60(2) by (intro power_increasing) auto
  then have "2 ^ s \<le> sig Mp" using big by linarith
  then have pos: "0 < unat p1" unfolding u1 by (simp add: div_greater_zero_iff)
  obtain k where k: "find_largest_pow10 p1 = (k, 10 ^ (k - 1))" "0 < k" "k \<le> 10" "10 ^ (k - 1) \<le> unat p1" "unat p1 < 10 ^ k"
    "unat (10 ^ (k - 1) :: u32) = 10 ^ (k - 1)"
    using largest_pow10 [OF pos] by blast
  have "digit_gen de Mm w Mp = digit_gen_int s k [] p1 (10 ^ (k - 1)) p2 delta (df_f (diyfp_sub Mp w)) de"
    unfolding digit_gen_def Let_def s [symmetric] p1 [symmetric] p2 [symmetric] k(1) by (simp add: diyfp_sub_def delta)
  moreover have "\<exists>buf' r. digit_gen_int s k [] p1 (10 ^ (k - 1)) p2 delta (df_f (diyfp_sub Mp w)) de = Some (buf', de + r) \<and>
      decimal buf' \<and> buf' \<noteq> [] \<and> int (length buf') + r = int (length ([] :: string) + k) \<and>
      (r < 0 \<longrightarrow> unat delta * 10 ^ nat (- r - 1) < 2 ^ s) \<and>
      approx (sig Mp) (unat delta) s (digits_val buf') r"
  proof (rule int_result)
    show "unat p2 < 2 ^ s" by (simp add: u2)
    show "sig Mp = digits_val [] * 10 ^ k * 2 ^ s + (unat p1 * 2 ^ s + unat p2)" using M by simp
    show "unat delta < unat p1 * 2 ^ s + unat p2" unfolding M [symmetric] ud using lt by simp
  qed (use s60 lt k in \<open>simp_all add: ud decimal_def\<close>)
  ultimately obtain buf r where res: "digit_gen de Mm w Mp = Some (buf, de + r)" "decimal buf" "buf \<noteq> []" "int (length buf) + r = int k"
      "r < 0 \<longrightarrow> (sig Mp - sig Mm) * 10 ^ nat (- r - 1) < 2 ^ s" "approx (sig Mp) (sig Mp - sig Mm) s (digits_val buf) r"
    unfolding ud by auto
  have "length buf \<le> 10 \<or> (sig Mp - sig Mm) * 10 ^ (length buf - 2) < sig Mp"
  proof (cases "r < 0")
    case True
    then have l: "length buf - 2 = nat (- r - 1) + (k - 1)" using res(4) k(2) by linarith
    have "(sig Mp - sig Mm) * 10 ^ (length buf - 2) = (sig Mp - sig Mm) * 10 ^ nat (- r - 1) * 10 ^ (k - 1)"
      unfolding l power_add by (simp only: mult.assoc)
    also have "\<dots> < 2 ^ s * 10 ^ (k - 1)" using res(5) True by simp
    also have "\<dots> \<le> unat p1 * 2 ^ s" using k(4) by (simp add: mult.commute)
    also have "\<dots> \<le> sig Mp" unfolding M by simp
    finally show ?thesis ..
  qed (use res(4) k(3) in auto)
  then show ?thesis using res k(2,3) unfolding s [symmetric] by auto
qed

end
