(* ===== verification/Grisu_Powers.thy ===== *)
theory Grisu_Powers
  imports Grisu_Digits Complex_Main
begin

text \<open>
  The table of powers of ten is accurate to half a unit, the computed index selects the right entry, and scaling the
  boundaries by it moves them by less than the unit that \<open>grisu2\<close> gives away.
\<close>

section \<open>The table\<close>

text \<open>The entries are powers of ten up to half a unit, and normalised.  With larger exponents first \<open>10 ^ k\<close>, then \<open>2 ^ -e\<close>
  is the larger number; both are kept along the table.\<close>

definition accurate :: "u64 \<times> int \<times> int \<Rightarrow> bool" where
  "accurate c \<longleftrightarrow> (case c of (f, e, k) \<Rightarrow> \<bar>real (unat f) * 2 powi e - 10 powi k\<bar> \<le> 2 powi e / 2)"

fun check_up :: "int \<Rightarrow> int \<Rightarrow> int \<Rightarrow> int \<Rightarrow> (u64 \<times> int \<times> int) list \<Rightarrow> bool" where
  "check_up k0 P e0 E [] = True"
| "check_up k0 P e0 E ((f, e, k) # cs) =
     (let E' = E * 2 ^ nat (e - e0) in
      2 * \<bar>uint f * E' - P\<bar> \<le> E' \<and> e0 \<le> e \<and> k = k0 \<and> check_up (k0 + 8) (P * 10 ^ 8) e E' cs)"

fun check_down :: "int \<Rightarrow> int \<Rightarrow> int \<Rightarrow> int \<Rightarrow> (u64 \<times> int \<times> int) list \<Rightarrow> bool" where
  "check_down k0 P e0 E [] = True"
| "check_down k0 P e0 E ((f, e, k) # cs) =
     (let E' = E * 2 ^ nat (e - e0) in
      2 * \<bar>uint f * P - E'\<bar> \<le> P \<and> e0 \<le> e \<and> k = - k0 \<and> check_down (k0 + 8) (P * 10 ^ 8) e E' cs)"

abbreviation negate_e :: "u64 \<times> int \<times> int \<Rightarrow> u64 \<times> int \<times> int" where
  "negate_e c \<equiv> (case c of (f, e, k) \<Rightarrow> (f, - e, k))"

lemma table_up: "check_up 20 (10 ^ 20) 0 1 (drop 40 cached_powers)"
  by code_simp

lemma table_down: "check_down 4 (10 ^ 4) 0 1 (map negate_e (rev (take 38 cached_powers)))"
  by code_simp

lemma real_abs_le: "2 * \<bar>a - b\<bar> \<le> (c :: int) \<Longrightarrow> \<bar>real_of_int a - real_of_int b\<bar> \<le> real_of_int c / 2"
proof -
  assume "2 * \<bar>a - b\<bar> \<le> c"
  then have "real_of_int (2 * \<bar>a - b\<bar>) \<le> real_of_int c" by (simp only: of_int_le_iff)
  then show ?thesis by simp
qed

lemma power_gap: "0 \<le> a \<Longrightarrow> a \<le> b \<Longrightarrow> (2 :: int) ^ nat a * 2 ^ nat (b - a) = 2 ^ nat b"
  by (simp flip: power_add nat_add_distrib)

lemma powi_nat: "0 \<le> e \<Longrightarrow> (b :: real) powi e = b ^ nat e"
  by (simp add: power_int_def)

lemma check_up_accurate:
  "check_up k0 P e0 E cs \<Longrightarrow> 0 \<le> k0 \<Longrightarrow> 0 \<le> e0 \<Longrightarrow> P = 10 ^ nat k0 \<Longrightarrow> E = 2 ^ nat e0 \<Longrightarrow> c \<in> set cs \<Longrightarrow> accurate c"
proof (induction k0 P e0 E cs rule: check_up.induct)
  case (2 k0 P e0 E f e k cs)
  have e: "0 \<le> e" using 2(2,4) by (simp add: Let_def)
  have E': "E * 2 ^ nat (e - e0) = 2 ^ nat e"
    using 2(2-6) by (simp add: Let_def power_gap)
  have P': "P * 10 ^ 8 = 10 ^ nat (k0 + 8)" using 2(3,5) by (simp add: nat_add_distrib power_add)
  have "accurate (f, e, k)"
    using 2(2-5) real_abs_le [of "uint f * 2 ^ nat e" "10 ^ nat k0" "2 ^ nat e"]
    e by (simp add: E' accurate_def Let_def powi_nat)
  moreover have "accurate c" if "c \<in> set cs"
    using 2(1) [OF refl _ _ _ _ _ that] 2(2-4) E' P' by (simp add: Let_def)
  ultimately show ?case using 2(7) by auto
qed simp

lemma inverse_accurate:
  assumes "0 < T" "0 < W" "\<bar>F * T - W\<bar> \<le> T / (2 :: real)"
  shows "\<bar>F * inverse W - inverse T\<bar> \<le> inverse W / 2"
proof -
  have "F / W - 1 / T = (F * T - W) / (W * T)" using assms(1,2) by (simp add: field_simps)
  then have "\<bar>F / W - 1 / T\<bar> = \<bar>F * T - W\<bar> / (W * T)" using assms(1,2) by (simp add: abs_mult)
  also have "\<dots> \<le> T / 2 / (W * T)" using assms by (intro divide_right_mono) simp_all
  finally show ?thesis using assms(1) by (simp add: inverse_eq_divide)
qed

lemma check_down_accurate:
  "check_down k0 P e0 E cs \<Longrightarrow> 0 \<le> k0 \<Longrightarrow> 0 \<le> e0 \<Longrightarrow> P = 10 ^ nat k0 \<Longrightarrow> E = 2 ^ nat e0 \<Longrightarrow> c \<in> set cs \<Longrightarrow> accurate (negate_e c)"
proof (induction k0 P e0 E cs rule: check_down.induct)
  case (2 k0 P e0 E f e k cs)
  have e: "0 \<le> e" using 2(2,4) by (simp add: Let_def)
  have E': "E * 2 ^ nat (e - e0) = 2 ^ nat e"
    using 2(2-6) by (simp add: Let_def power_gap)
  have P': "P * 10 ^ 8 = 10 ^ nat (k0 + 8)" using 2(3,5) by (simp add: nat_add_distrib power_add)
  have "accurate (f, - e, k)"
  proof -
    have "\<bar>real (unat f) * 10 powi k0 - 2 powi e\<bar> \<le> 10 powi k0 / 2"
      using 2(2-5) real_abs_le [of "uint f * 10 ^ nat k0" "2 ^ nat e" "10 ^ nat k0"]
      e by (simp add: E' Let_def powi_nat)
    then have "\<bar>real (unat f) * inverse (2 powi e) - inverse (10 powi k0)\<bar> \<le> inverse (2 powi e) / 2"
      by (intro inverse_accurate) simp_all
    moreover have "k = - k0" using 2(2) by (simp add: Let_def)
    ultimately show ?thesis by (simp only: accurate_def power_int_minus prod.case)
  qed
  moreover have "accurate (negate_e c)" if "c \<in> set cs"
    using 2(1) [OF refl _ _ _ _ _ that] 2(2-4) E' P' by (simp add: Let_def)
  ultimately show ?case using 2(7) by auto
qed simp

lemma all_accurate: "c \<in> set cached_powers \<Longrightarrow> accurate c"
proof -
  assume c: "c \<in> set cached_powers"
  have "cached_powers = take 38 cached_powers @ take 2 (drop 38 cached_powers) @ drop 40 cached_powers"
    by (simp add: cached_powers_def)
  with c consider "c \<in> set (take 38 cached_powers)" | "c \<in> set (take 2 (drop 38 cached_powers))" | "c \<in> set (drop 40 cached_powers)"
    by (metis Un_iff set_append)
  then show ?thesis
  proof cases
    case 1
    then have "negate_e c \<in> set (map negate_e (rev (take 38 cached_powers)))" by force
    from check_down_accurate [OF table_down _ _ _ _ this] show ?thesis by (cases c) simp
  next
    case 2
    then show ?thesis by (auto simp: cached_powers_def accurate_def power_int_minus)
  next
    case 3
    from check_up_accurate [OF table_up _ _ _ _ this] show ?thesis by simp
  qed
qed

definition table_ok :: "nat \<times> u64 \<times> int \<times> int \<Rightarrow> bool" where
  "table_ok c = (case c of (i, f, e, k) \<Rightarrow>
     - 300 \<le> k \<and> k \<le> 324 \<and> 2 ^ 63 \<le> unat f \<and>
     2 ^ 18 * (8 * int i - 300) < 78913 * (e + 64) \<and> 78913 * (e + 34) < 2 ^ 18 * (8 * int i - 308))"

lemma table_ok: "list_all table_ok (enumerate 0 cached_powers)"
  unfolding cached_powers_def by (simp add: table_ok_def)

lemma cached_powers_length: "length cached_powers = 79"
  by (simp add: cached_powers_def)

text \<open>The index is the one the comment derives.\<close>

lemma quot_ceil: "0 < b \<Longrightarrow> quot a b + (if 0 < a then 1 else 0) = k \<Longrightarrow> b * (k - 1) \<le> a \<and> a \<le> b * k"
proof -
  assume b: "0 < b" and k: "quot a b + (if 0 < a then 1 else 0) = k"
  have bounds: "b * (x div b) \<le> x" "x < b * (x div b + 1)" for x
    unfolding distrib_left using pos_mod_bound [OF b, of x] pos_mod_sign [OF b, of x] minus_mod_eq_mult_div [of x b] by linarith+
  show ?thesis
    using k bounds [of a] bounds [of "- a"] by (cases "0 < a") (auto simp: quot_def algebra_simps split: if_splits)
qed

lemma cached_index_bounds:
  assumes "- 1137 \<le> e" "e \<le> 960"
  shows "0 \<le> cached_index e" "cached_index e < 79"
    and "2 ^ 18 * (8 * cached_index e - 308) \<le> 78913 * (- 61 - e)" "78913 * (- 61 - e) \<le> 2 ^ 18 * (8 * cached_index e - 300)"
proof -
  define f where f: "f = - 61 - e"
  define k where k: "k = quot (f * 78913) (2 ^ 18) + (if 0 < f * 78913 then 1 else 0)"
  have fk: "2 ^ 18 * (k - 1) \<le> f * 78913" "f * 78913 \<le> 2 ^ 18 * k"
    using quot_ceil [of "2 ^ 18" "f * 78913" k] k by simp_all
  have "- 1021 \<le> f" "f \<le> 1076" using assms by (simp_all add: f)
  then have kb: "- 307 \<le> k" "k \<le> 324" using fk by simp_all
  have i: "cached_index e = (307 + k) div 8"
  proof -
    have "(if 0 < f then 1 else 0) = (if 0 < f * 78913 then 1 else (0 :: int))" by simp
    then have "cached_index e = quot (300 + k + 7) 8" by (simp only: cached_index_def Let_def k f) simp
    then show ?thesis using kb by (simp add: quot_def)
  qed
  have "8 * ((307 + k) div 8) \<le> 307 + k" "307 + k \<le> 8 * ((307 + k) div 8) + 7" by simp_all
  then have ik: "8 * cached_index e \<le> 307 + k" "300 + k \<le> 8 * cached_index e" unfolding i by simp_all
  show "0 \<le> cached_index e" "cached_index e < 79" using ik kb by simp_all
  show "2 ^ 18 * (8 * cached_index e - 308) \<le> 78913 * (- 61 - e)" "78913 * (- 61 - e) \<le> 2 ^ 18 * (8 * cached_index e - 300)"
    using ik fk by (simp_all add: f)
qed

lemma cached_power_result:
  assumes "- 1137 \<le> e" "e \<le> 960"
  shows "\<exists>c k. cached_power e = (c, k) \<and> 2 ^ 63 \<le> sig c \<and> - 300 \<le> k \<and> k \<le> 324 \<and>
    - 60 \<le> df_e c + e + 64 \<and> df_e c + e + 64 \<le> - 32 \<and> \<bar>real (sig c) * 2 powi df_e c - 10 powi k\<bar> \<le> 2 powi df_e c / 2"
proof -
  define i where i: "i = nat (cached_index e)"
  note b = cached_index_bounds [OF assms]
  have ii: "cached_index e = int i" "i < 79" using b(1,2) by (simp_all add: i)
  obtain f ec k where c: "cached_powers ! i = (f, ec, k)" by (cases "cached_powers ! i")
  have "enumerate 0 cached_powers ! i = (i, f, ec, k)" using ii(2) c by (simp add: nth_enumerate_eq cached_powers_length)
  then have "(i, f, ec, k) \<in> set (enumerate 0 cached_powers)"
    using ii(2) by (metis cached_powers_length length_enumerate nth_mem)
  then have ok: "table_ok (i, f, ec, k)" using table_ok by (simp add: list_all_iff)
  have acc: "accurate (f, ec, k)" using all_accurate nth_mem [of i cached_powers] ii(2) c by (simp add: cached_powers_length)
  have "2 ^ 18 * (8 * int i - 308) \<le> 78913 * (- 61 - e)" "78913 * (- 61 - e) \<le> 2 ^ 18 * (8 * int i - 300)"
    using b(3,4) ii(1) by simp_all
  then have "78913 * (ec + 34) < 78913 * (- 61 - e)" "78913 * (- 61 - e) < 78913 * (ec + 64)"
    using ok by (simp_all add: table_ok_def)
  then have "- 60 \<le> ec + e + 64" "ec + e + 64 \<le> - 32" by simp_all
  moreover have "cached_power e = (diyfp_of f ec, k)" by (simp add: cached_power_def i [symmetric] c)
  ultimately show ?thesis using ok acc by (auto simp: table_ok_def accurate_def)
qed

section \<open>Scaling\<close>

definition dval :: "diyfp \<Rightarrow> real" where
  "dval x = real (sig x) * 2 powi df_e x"

lemma sig_real: "real (sig x) < 2 ^ 64"
proof -
  have "real (sig x) < real (2 ^ 64)" unfolding of_nat_less_iff by simp
  then show ?thesis by simp
qed

lemma mul_bounds:
  "real (sig (diyfp_mul x y)) \<le> real (sig x) * real (sig y) / 2 ^ 64 + 1 / 2"
  "real (sig x) * real (sig y) / 2 ^ 64 - 1 / 2 < real (sig (diyfp_mul x y))"
proof -
  define n where n: "n = sig x * sig y + 2 ^ 63"
  have "n div 2 ^ 64 * 2 ^ 64 \<le> n" "n < n div 2 ^ 64 * 2 ^ 64 + 2 ^ 64"
    using div_mult_mod_eq [of n "2 ^ 64"] mod_less_divisor [of "2 ^ 64" n, OF zero_less_power] by linarith+
  then have "real (n div 2 ^ 64 * 2 ^ 64) \<le> real n" "real n < real (n div 2 ^ 64 * 2 ^ 64 + 2 ^ 64)" by (simp_all only: of_nat_le_iff of_nat_less_iff)
  then show "real (sig (diyfp_mul x y)) \<le> real (sig x) * real (sig y) / 2 ^ 64 + 1 / 2"
    "real (sig x) * real (sig y) / 2 ^ 64 - 1 / 2 < real (sig (diyfp_mul x y))"
    unfolding sig_mul n [symmetric] by (simp_all add: n field_simps)
qed

text \<open>Half a unit for the power and half a unit for the product: together less than one.\<close>

lemma scale_error:
  fixes X F B T w :: real
  assumes "0 \<le> X" "X < 2 ^ 64" "0 < B" "0 < w" and T: "\<bar>F * B - T\<bar> \<le> B / 2"
  shows "(X * F / 2 ^ 64 - 1 / 2) * (B * w * 2 ^ 64) < X * w * T" and "X * w * T < (X * F / 2 ^ 64 + 1 / 2) * (B * w * 2 ^ 64)"
proof -
  have "X * w * \<bar>F * B - T\<bar> \<le> X * w * (B / 2)" using assms by (intro mult_left_mono) simp_all
  then have "\<bar>X * w * (F * B - T)\<bar> \<le> X * w * (B / 2)" using assms(1,4) by (simp add: abs_mult)
  moreover have "X * (w * (B / 2)) < 2 ^ 64 * (w * (B / 2))" using assms by (intro mult_strict_right_mono) simp_all
  ultimately have "\<bar>X * w * (F * B - T)\<bar> < 2 ^ 64 * (w * (B / 2))" by (simp only: mult.assoc)
  then show "(X * F / 2 ^ 64 - 1 / 2) * (B * w * 2 ^ 64) < X * w * T" "X * w * T < (X * F / 2 ^ 64 + 1 / 2) * (B * w * 2 ^ 64)"
    by (auto simp: algebra_simps abs_less_iff)
qed

lemma approx_real:
  assumes "approx M \<Delta> s D r" and "\<Delta> \<le> M"
  shows "real (M - \<Delta>) / 2 ^ s \<le> real D * 10 powi r" and "real D * 10 powi r \<le> real M / 2 ^ s"
proof -
  define a b where ab: "a = (10::nat) ^ nat r" "b = (10::nat) ^ nat (- r)"
  have pos: "0 < b" by (simp add: ab)
  have ten: "10 powi r = real a / real b"
    by (cases "0 \<le> r") (simp_all add: ab power_int_def inverse_eq_divide power_one_over)
  have le: "D * 2 ^ s * a \<le> M * b" "(M - \<Delta>) * b \<le> D * 2 ^ s * a"
    using assms(1) unfolding approx_def ab diff_mult_distrib by linarith+
  have "real (D * 2 ^ s * a) \<le> real (M * b)" "real ((M - \<Delta>) * b) \<le> real (D * 2 ^ s * a)"
    using le by (simp_all only: of_nat_le_iff)
  then show "real (M - \<Delta>) / 2 ^ s \<le> real D * 10 powi r" "real D * 10 powi r \<le> real M / 2 ^ s"
    using pos by (simp_all add: ten field_simps)
qed

lemma scaled_result:
  assumes P: "2 ^ 63 \<le> sig mp" and N: "sig mm + 1536 \<le> sig mp" "0 < sig mm" "sig mp < 2 ^ 53 * (sig mp - sig mm)" and e: "df_e mm = df_e mp" "- 1137 \<le> df_e mp" "df_e mp \<le> 960"
  shows "\<exists>buf de. grisu2_scaled mm v mp = Some (buf, de) \<and> decimal buf \<and> buf \<noteq> [] \<and>
           - 324 < int (length buf) + de \<and> int (length buf) + de \<le> 310 \<and> length buf \<le> 17 \<and>
           dval mm < real (digits_val buf) * 10 powi de \<and> real (digits_val buf) * 10 powi de < dval mp"
proof -
  obtain c k where c: "cached_power (df_e mp) = (c, k)" "2 ^ 63 \<le> sig c" "- 300 \<le> k" "k \<le> 324"
    "- 60 \<le> df_e c + df_e mp + 64" "df_e c + df_e mp + 64 \<le> - 32" "\<bar>real (sig c) * 2 powi df_e c - 10 powi k\<bar> \<le> 2 powi df_e c / 2"
    using cached_power_result [OF e(2,3)] by blast
  let ?p = "diyfp_mul mp c" and ?m = "diyfp_mul mm c"
  have ec: "df_e ?p = df_e mp + df_e c + 64" "df_e ?m = df_e ?p" by (simp_all add: diyfp_mul_def Let_def e(1))
  have F: "2 ^ 63 \<le> real (sig c)" using c(2) by (metis of_nat_le_iff of_nat_numeral of_nat_power)
  have XP: "2 ^ 63 \<le> real (sig mp)" using P by (metis of_nat_le_iff of_nat_numeral of_nat_power)
  have gap: "real (sig mm) + 1536 \<le> real (sig mp)" using N(1) by linarith
  have "1536 * 2 ^ 63 \<le> (real (sig mp) - real (sig mm)) * real (sig c)"
    using gap F by (intro mult_mono) simp_all
  then have "real (sig mm) * real (sig c) / 2 ^ 64 + 768 \<le> real (sig mp) * real (sig c) / 2 ^ 64" by (simp add: field_simps)
  then have "real (sig ?m) + 767 \<le> real (sig ?p)" using mul_bounds(1) [of mm c] mul_bounds(2) [of mp c] by linarith
  then have lt: "sig ?m + 767 \<le> sig ?p" by linarith
  have "2 ^ 63 * 2 ^ 63 \<le> real (sig mp) * real (sig c)" using F XP by (intro mult_mono) simp_all
  then have "2 ^ 62 \<le> real (sig mp) * real (sig c) / 2 ^ 64" by simp
  then have "real (2 ^ 61 + 1) \<le> real (sig ?p)" using mul_bounds(2) [of mp c] by simp
  then have big: "2 ^ 61 + 1 \<le> sig ?p" by (simp only: of_nat_le_iff)
  define Mm Mp where M: "Mm = diyfp_of (df_f ?m + 1) (df_e ?m)" "Mp = diyfp_of (df_f ?p - 1) (df_e ?p)"
  have "sig ?m + 1 \<le> sig ?p" using lt by simp
  then have "sig ?m + 1 < 2 ^ 64" by (rule le_less_trans) simp
  then have sm: "sig Mm = sig ?m + 1" unfolding M diyfp_of_sel by (subst unat_add_small) simp_all
  have sp: "sig Mp = sig ?p - 1" unfolding M diyfp_of_sel by (subst unat_sub) (use big in \<open>simp_all add: word_le_nat_alt\<close>)
  have eM: "df_e Mp = df_e mp + df_e c + 64" by (simp add: M ec)
  have "\<exists>buf r. digit_gen (- k) Mm (diyfp_mul v c) Mp = Some (buf, - k + r) \<and> decimal buf \<and> buf \<noteq> [] \<and>
           0 < int (length buf) + r \<and> int (length buf) + r \<le> 10 \<and>
           (length buf \<le> 10 \<or> (sig Mp - sig Mm) * 10 ^ (length buf - 2) < sig Mp) \<and>
           approx (sig Mp) (sig Mp - sig Mm) (nat (- df_e Mp)) (digits_val buf) r"
    using lt big c(5,6) by (intro digit_gen_result) (simp_all add: sm sp eM)
  then obtain buf r where d: "digit_gen (- k) Mm (diyfp_mul v c) Mp = Some (buf, - k + r)" "decimal buf" "buf \<noteq> []"
      "0 < int (length buf) + r" "int (length buf) + r \<le> 10"
      "approx (sig Mp) (sig Mp - sig Mm) (nat (- df_e Mp)) (digits_val buf) r"
      "length buf \<le> 10 \<or> (sig Mp - sig Mm) * 10 ^ (length buf - 2) < sig Mp" by blast
  have res: "grisu2_scaled mm v mp = Some (buf, - k + r)" by (simp add: grisu2_scaled_def Let_def c(1) d(1) M [symmetric])
  define u where u: "u = (2 :: real) powi df_e Mp"
  have u': "u = 2 powi df_e c * 2 powi df_e mp * 2 ^ 64" by (simp add: u eM power_int_add)
  have upos: "0 < u" by (simp add: u)
  have "df_e Mp = - int (nat (- df_e Mp))" using c(6) by (simp add: eM)
  then have us: "u = 1 / 2 ^ nat (- df_e Mp)" unfolding u by (metis power_int_minus power_int_of_nat inverse_eq_divide)
  have "sig Mp - (sig Mp - sig Mm) = sig Mm" using lt by (simp add: sm sp)
  then have ap: "real (sig Mm) * u \<le> real (digits_val buf) * 10 powi r" "real (digits_val buf) * 10 powi r \<le> real (sig Mp) * u"
    using approx_real [OF d(6)] by (simp_all add: us)
  note X = sig_real [of mm] sig_real [of mp]
  have "real (sig Mp) \<le> real (sig mp) * real (sig c) / 2 ^ 64 - 1 / 2"
    using mul_bounds(1) [of mp c] big by (simp add: sp of_nat_diff)
  then have "real (sig Mp) * u \<le> (real (sig mp) * real (sig c) / 2 ^ 64 - 1 / 2) * u" using upos by (intro mult_right_mono) simp_all
  also have "\<dots> < real (sig mp) * 2 powi df_e mp * 10 powi k"
    unfolding u' using c(7) by (intro scale_error(1) of_nat_0_le_iff X(2)) simp_all
  finally have hi: "real (digits_val buf) * 10 powi r < dval mp * 10 powi k" using ap(2) by (simp add: dval_def)
  have "real (sig mm) * 2 powi df_e mp * 10 powi k < (real (sig mm) * real (sig c) / 2 ^ 64 + 1 / 2) * u"
    unfolding u' using c(7) by (intro scale_error(2) of_nat_0_le_iff X(1)) simp_all
  also have "\<dots> \<le> real (sig Mm) * u" using mul_bounds(2) [of mm c] upos by (intro mult_right_mono) (simp_all add: sm)
  finally have lo: "dval mm * 10 powi k < real (digits_val buf) * 10 powi r" using ap(1) by (simp add: dval_def e(1))
  have pk: "(0 :: real) < 10 powi k" by simp
  have "(10 :: real) powi r = 10 powi (- k + r) * 10 powi k" by (simp flip: power_int_add)
  then have "dval mm < real (digits_val buf) * 10 powi (- k + r)" "real (digits_val buf) * 10 powi (- k + r) < dval mp"
    using hi lo pk by (simp_all only: mult.assoc [symmetric] mult_less_cancel_right_pos)
  moreover have "length buf \<le> 17"
  proof (rule ccontr)
    assume "\<not> length buf \<le> 17"
    then have len: "(sig Mp - sig Mm) * 10 ^ (length buf - 2) < sig Mp" "16 \<le> length buf - 2" using d(7) by auto
    have "(sig Mp - sig Mm) * 10 ^ 16 \<le> (sig Mp - sig Mm) * 10 ^ (length buf - 2)"
      using len(2) by (intro mult_le_mono2 power_increasing) auto
    then have "(sig Mp - sig Mm) * 10 ^ 16 < sig Mp" using len(1) by linarith
    then have "real ((sig Mp - sig Mm) * 10 ^ 16) < real (sig Mp)" by (simp only: of_nat_less_iff)
    then have big_M: "(real (sig Mp) - real (sig Mm)) * 10 ^ 16 < real (sig Mp)"
      using lt by (simp add: sm sp of_nat_diff)
    define D where "D = (real (sig mp) - real (sig mm)) * real (sig c) / 2 ^ 64"
    have D: "768 \<le> D" unfolding D_def using \<open>1536 * 2 ^ 63 \<le> (real (sig mp) - real (sig mm)) * real (sig c)\<close> by simp
    have "real (sig ?p) - real (sig ?m) \<ge> D - 1" using mul_bounds(1) [of mm c] mul_bounds(2) [of mp c]
      by (simp add: D_def left_diff_distrib diff_divide_distrib)
    then have "real (sig Mp) - real (sig Mm) \<ge> D - 3" using big by (simp add: sm sp of_nat_diff)
    moreover have "real (sig Mp) \<le> 2 ^ 53 * D"
    proof -
      have "real (sig mp) \<le> real (2 ^ 53 * (sig mp - sig mm))" using N(3) by (simp only: of_nat_le_iff)
      also have "\<dots> = 2 ^ 53 * (real (sig mp) - real (sig mm))" using N(1) by (simp add: of_nat_diff)
      finally have "real (sig mp) * real (sig c) \<le> 2 ^ 53 * (real (sig mp) - real (sig mm)) * real (sig c)"
        by (intro mult_right_mono of_nat_0_le_iff)
      then have "real (sig mp) * real (sig c) / 2 ^ 64 \<le> 2 ^ 53 * (real (sig mp) - real (sig mm)) * real (sig c) / 2 ^ 64"
        by (intro divide_right_mono) simp_all
      also have "\<dots> = 2 ^ 53 * D" unfolding D_def by (simp only: mult.assoc times_divide_eq_right)
      finally have "real (sig mp) * real (sig c) / 2 ^ 64 \<le> 2 ^ 53 * D" .
      then show ?thesis using \<open>real (sig Mp) \<le> real (sig mp) * real (sig c) / 2 ^ 64 - 1 / 2\<close> by linarith
    qed
    ultimately show False using D big_M by simp
  qed
  ultimately show ?thesis using res d(2-5) c(3,4) by (intro exI [of _ buf] exI [of _ "- k + r"]) simp
qed

end
