(* ===== verification/Grisu_Bounds.thy ===== *)
theory Grisu_Bounds
  imports Grisu_Powers
begin

text \<open>
  The boundaries of a double, and the theorem about \<open>grisu2\<close>: it returns digits and an exponent that denote a number
  strictly between the boundaries.
\<close>

section \<open>The boundaries of a double\<close>

text \<open>The significand and the exponent field of a positive finite double.\<close>

definition f64_mant :: "nat \<Rightarrow> nat" where
  "f64_mant b = (if b div 2 ^ 52 = 0 then b mod 2 ^ 52 else 2 ^ 52 + b mod 2 ^ 52)"

definition f64_scale :: "nat \<Rightarrow> nat" where
  "f64_scale b = b div 2 ^ 52 - 1"

lemma f64_decompose: "b = f64_scale b * 2 ^ 52 + f64_mant b"
proof -
  have eq: "b div 2 ^ 52 * 2 ^ 52 + b mod 2 ^ 52 = b" by (rule div_mult_mod_eq)
  show ?thesis
  proof (cases "b div 2 ^ 52")
    case 0
    with eq show ?thesis by (simp only: f64_scale_def f64_mant_def) simp
  next
    case (Suc e)
    then show ?thesis using eq unfolding f64_scale_def f64_mant_def Suc by simp
  qed
qed

lemma f64_mant_less: "f64_mant b < 2 ^ 53"
  by (simp add: f64_mant_def) (use mod_less_divisor [of "2 ^ 52" b] in linarith)

lemma diyfp_of_bits_result:
  "sig (diyfp_of_bits x) = f64_mant (unat x)" "df_e (diyfp_of_bits x) = int (f64_scale (unat x)) - 1074"
proof -
  define E F where EF: "E = drop_bit 52 x" "F = x AND (push_bit 52 1 - 1)"
  have u: "unat E = unat x div 2 ^ 52" "unat F = unat x mod 2 ^ 52" unfolding EF by (simp_all only: unat_drop) (rule unat_mask, simp)
  have "unat (push_bit 52 1 :: u64) = 2 ^ 52" by (subst unat_push) simp_all
  moreover have "unat F + 2 ^ 52 < 2 ^ 64" 
    unfolding u(2) by (rule less_trans [OF add_strict_right_mono [OF mod_less_divisor]]) simp_all
  ultimately have s: "unat (F + push_bit 52 1) = unat F + 2 ^ 52" by (subst unat_add_small) (simp_all only:)
  have z: "E = 0 \<longleftrightarrow> unat x div 2 ^ 52 = 0" by (simp only: u(1) [symmetric]) (simp add: unsigned_eq_0_iff)
  have d: "diyfp_of_bits x = (if E = 0 then diyfp_of F (- 1074) else diyfp_of (F + push_bit 52 1) (int (unat E) - 1075))"
    by (simp only: diyfp_of_bits_def Let_def EF)
  show "sig (diyfp_of_bits x) = f64_mant (unat x)"
    unfolding d f64_mant_def z [symmetric] by (simp add: s u(2) del: push_bit_of_1)
  show "df_e (diyfp_of_bits x) = int (f64_scale (unat x)) - 1074"
    unfolding d f64_scale_def u(1) [symmetric] 
    by (cases "unat E") (auto simp: unsigned_eq_0_iff)
qed

text \<open>A double that is a power of two, and not a least normal number, has a closer neighbour below.\<close>

definition closer_below :: "nat \<Rightarrow> bool" where
  "closer_below b \<longleftrightarrow> b mod 2 ^ 52 = 0 \<and> 1 < b div 2 ^ 52"

lemma m_plus_result: "sig (m_plus x) = 2 * f64_mant (unat x) + 1" "df_e (m_plus x) = int (f64_scale (unat x)) - 1075"
proof -
  have "2 * f64_mant (unat x) + 1 < 2 ^ 64" using f64_mant_less [of "unat x"] by simp
  then show "sig (m_plus x) = 2 * f64_mant (unat x) + 1"
    using diyfp_of_bits_result(1) [of x] by (simp add: m_plus_def Let_def unat_add64 unat_mul64)
  show "df_e (m_plus x) = int (f64_scale (unat x)) - 1075" by (simp add: m_plus_def Let_def diyfp_of_bits_result)
qed

lemma unat_mult_pred:
  fixes w :: u64
  assumes "0 < unat w" "0 < n" "n * unat w < 2 ^ 64" "n < 2 ^ 64"
  shows "unat (of_nat n * w - 1) = n * unat w - 1"
proof -
  have m: "unat (of_nat n * w) = n * unat w" using assms(3,4) by (simp add: unat_mul64 unsigned_of_nat take_bit_nat_eq_self)
  have "1 \<le> of_nat n * w" unfolding word_le_nat_alt m using assms(1,2) by (simp add: Suc_le_eq)
  then show ?thesis by (simp only: unat_sub m unsigned_1)
qed

lemma m_minus_result:
  assumes "0 < unat x"
  shows "closer_below (unat x) \<Longrightarrow> sig (m_minus x) = 4 * f64_mant (unat x) - 1 \<and> df_e (m_minus x) = int (f64_scale (unat x)) - 1076"
    and "\<not> closer_below (unat x) \<Longrightarrow> sig (m_minus x) = 2 * f64_mant (unat x) - 1 \<and> df_e (m_minus x) = int (f64_scale (unat x)) - 1075"
proof -
  have m: "f64_mant (unat x) < 2 ^ 53" "0 < f64_mant (unat x)"
    using f64_mant_less f64_decompose [of "unat x"] assms by (auto simp: f64_mant_def f64_scale_def)
  have four: "unat (4 * df_f (diyfp_of_bits x) - 1) = 4 * f64_mant (unat x) - 1"
    using unat_mult_pred [of "df_f (diyfp_of_bits x)" 4] m by (simp add: diyfp_of_bits_result)
  have two: "unat (2 * df_f (diyfp_of_bits x) - 1) = 2 * f64_mant (unat x) - 1"
    using unat_mult_pred [of "df_f (diyfp_of_bits x)" 2] m by (simp add: diyfp_of_bits_result)
  have "unat (drop_bit 52 x) = unat x div 2 ^ 52" "unat (x AND (push_bit 52 1 - 1)) = unat x mod 2 ^ 52"
    by (simp_all only: unat_drop) (rule unat_mask, simp)
  moreover have "x AND (push_bit 52 1 - 1) = 0 \<longleftrightarrow> unat (x AND (push_bit 52 1 - 1)) = 0"
    "1 < drop_bit 52 x \<longleftrightarrow> 1 < unat (drop_bit 52 x)"
    by (simp only: unsigned_eq_0_iff) (simp add: word_less_nat_alt)
  ultimately have c: "x AND (push_bit 52 1 - 1) = 0 \<and> 1 < drop_bit 52 x \<longleftrightarrow> closer_below (unat x)"
    unfolding closer_below_def by simp
  have "m_minus x = (if closer_below (unat x) then diyfp_of (4 * df_f (diyfp_of_bits x) - 1) (df_e (diyfp_of_bits x) - 2)
      else diyfp_of (2 * df_f (diyfp_of_bits x) - 1) (df_e (diyfp_of_bits x) - 1))"
    by (simp only: m_minus_def Let_def c)
  then show "closer_below (unat x) \<Longrightarrow> sig (m_minus x) = 4 * f64_mant (unat x) - 1 \<and> df_e (m_minus x) = int (f64_scale (unat x)) - 1076"
    "\<not> closer_below (unat x) \<Longrightarrow> sig (m_minus x) = 2 * f64_mant (unat x) - 1 \<and> df_e (m_minus x) = int (f64_scale (unat x)) - 1075"
    by (simp_all add: four two diyfp_of_bits_result)
qed

text \<open>The numbers that lie strictly between the boundaries of a double.\<close>

definition lower_bound :: "nat \<Rightarrow> real" where
  "lower_bound b =
     (if closer_below b then (4 * real (f64_mant b) - 1) * 2 powi (int (f64_scale b) - 1076)
      else (2 * real (f64_mant b) - 1) * 2 powi (int (f64_scale b) - 1075))"

definition upper_bound :: "nat \<Rightarrow> real" where
  "upper_bound b = (2 * real (f64_mant b) + 1) * 2 powi (int (f64_scale b) - 1075)"

lemma normalize_to_result:
  assumes "d = nat (df_e x - t)" "t \<le> df_e x" "sig x * 2 ^ d < 2 ^ 64"
  shows "sig (diyfp_normalize_to x t) = sig x * 2 ^ d" "df_e (diyfp_normalize_to x t) = t" "dval (diyfp_normalize_to x t) = dval x"
proof -
  show s: "sig (diyfp_normalize_to x t) = sig x * 2 ^ d"
    unfolding diyfp_normalize_to_def diyfp_of_sel assms(1) [symmetric] by (rule unat_push [OF assms(3)])
  show e: "df_e (diyfp_normalize_to x t) = t" by (simp add: diyfp_normalize_to_def)
  have "(2 :: real) powi df_e x = 2 powi (int d + t)" using assms(1,2) by simp
  also have "\<dots> = 2 ^ d * 2 powi t" by (simp add: power_int_add)
  finally show "dval (diyfp_normalize_to x t) = dval x" unfolding dval_def s e by simp
qed

lemma grisu2_result:
  assumes "0 < unat x" "unat x < 2047 * 2 ^ 52"
  shows "\<exists>buf de. grisu2 x = Some (buf, de) \<and> decimal buf \<and> buf \<noteq> [] \<and>
           - 324 < int (length buf) + de \<and> int (length buf) + de \<le> 310 \<and> length buf \<le> 17 \<and>
           lower_bound (unat x) < real (digits_val buf) * 10 powi de \<and> real (digits_val buf) * 10 powi de < upper_bound (unat x)"
proof -
  define f s where fs: "f = f64_mant (unat x)" "s = f64_scale (unat x)"
  have f: "f < 2 ^ 53" "0 < f"
    using f64_mant_less f64_decompose [of "unat x"] assms(1) by (auto simp: fs f64_mant_def f64_scale_def)
  have s: "s \<le> 2045"
  proof -
    have "unat x div 2 ^ 52 < 2047" using assms(2) by (simp add: div_less_iff_less_mult)
    then show ?thesis by (simp add: fs f64_scale_def)
  qed
  have p: "sig (m_plus x) = 2 * f + 1" "df_e (m_plus x) = int s - 1075" by (simp_all add: fs m_plus_result)
  obtain wp j where wp: "diyfp_normalize (m_plus x) = Some wp" "2 ^ 63 \<le> sig wp" "sig wp = (2 * f + 1) * 2 ^ j" "df_e wp = int s - 1075 - int j"
    using normalize_result [of "m_plus x"] p by auto
  obtain w where w: "diyfp_normalize (diyfp_of_bits x) = Some w"
    using normalize_result [of "diyfp_of_bits x"] f(2) by (auto simp: diyfp_of_bits_result fs)
  have lt: "(2 * f + 1) * 2 ^ j < 2 ^ 64" unfolding wp(3) [symmetric] by simp
  have j: "10 \<le> j" "j \<le> 62"
  proof -
    show "10 \<le> j"
    proof (rule ccontr)
      assume "\<not> 10 \<le> j"
      then have "(2::nat) ^ j \<le> 2 ^ 9" by (intro power_increasing) auto
      then have "(2 * f + 1) * 2 ^ j \<le> (2 ^ 54 - 1) * 2 ^ 9" using f(1) by (intro mult_le_mono) auto
      then show False using wp(2,3) by simp
    qed
    show "j \<le> 62"
    proof (rule ccontr)
      assume "\<not> j \<le> 62"
      then have "(2::nat) ^ 63 \<le> 2 ^ j" by (intro power_increasing) auto
      then have "3 * 2 ^ 63 \<le> (2 * f + 1) * 2 ^ j" using f(2) by (intro mult_le_mono) auto
      then show False using lt by simp
    qed
  qed
  have up: "dval wp = upper_bound (unat x)"
  proof -
    have "(2 :: real) powi (int s - 1075) = 2 powi (int j + (int s - 1075 - int j))" by simp
    also have "\<dots> = 2 ^ j * 2 powi (int s - 1075 - int j)" by (subst power_int_add) simp_all
    finally show ?thesis unfolding dval_def upper_bound_def wp(3,4) fs [symmetric] by (simp add: algebra_simps)
  qed
  let ?wm = "diyfp_normalize_to (m_minus x) (df_e wp)"
  obtain i where i: "j = Suc i" "9 \<le> i" using j(1) by (cases j) auto
  have i9: "(2 :: nat) ^ 9 \<le> 2 ^ i" using i(2) by (intro power_increasing) auto
  have wm: "sig ?wm + 1536 \<le> sig wp \<and> 0 < sig ?wm \<and> sig wp < 2 ^ 53 * (sig wp - sig ?wm) \<and> df_e ?wm = df_e wp \<and> dval ?wm = lower_bound (unat x)"
  proof (cases "closer_below (unat x)")
    case True
    note m = m_minus_result(1) [OF assms(1) True, folded fs]
    have d: "i = nat (df_e (m_minus x) - df_e wp)" "df_e wp \<le> df_e (m_minus x)" by (simp_all add: m wp(4) i)
    have le: "(4 * f - 1) * 2 ^ i + 3 * 2 ^ i = sig wp" unfolding wp(3) i(1) using f(2) by (simp add: algebra_simps)
    then have "sig (m_minus x) * 2 ^ i < 2 ^ 64" using m by (simp add: wp(3)) (use lt le in \<open>simp add: wp(3)\<close>)
    note n = normalize_to_result [OF d this]
    have "real (4 * f - 1) = 4 * real f - 1" using f(2) by (simp add: of_nat_diff)
    then have "dval (m_minus x) = lower_bound (unat x)" by (simp add: dval_def m lower_bound_def True fs [symmetric])
    moreover have "sig wp < 2 ^ 53 * (sig wp - sig ?wm)"
    proof -
      have "f = 2 ^ 52" using True by (auto simp: closer_below_def fs f64_mant_def)
      then have "sig wp = (2 * 2 ^ 52 + 1) * 2 * 2 ^ i" by (simp add: wp(3) i(1))
      moreover have "sig wp - sig ?wm = 3 * 2 ^ i" using n le m by simp
      ultimately show ?thesis by simp
    qed
    ultimately show ?thesis using n le i9 f(2) m by simp
  next
    case False
    note m = m_minus_result(2) [OF assms(1) False, folded fs]
    have d: "j = nat (df_e (m_minus x) - df_e wp)" "df_e wp \<le> df_e (m_minus x)" by (simp_all add: m wp(4))
    have le: "(2 * f - 1) * 2 ^ j + 4 * 2 ^ i = sig wp" unfolding wp(3) i(1) using f(2) by (simp add: algebra_simps)
    then have "sig (m_minus x) * 2 ^ j < 2 ^ 64" using m by (simp add: wp(3)) (use lt le in \<open>simp add: wp(3)\<close>)
    note n = normalize_to_result [OF d this]
    have "real (2 * f - 1) = 2 * real f - 1" using f(2) by (simp add: of_nat_diff)
    then have "dval (m_minus x) = lower_bound (unat x)" by (simp add: dval_def m lower_bound_def False fs [symmetric])
    moreover have "sig wp < 2 ^ 53 * (sig wp - sig ?wm)"
    proof -
      have "(2 * f + 1) * 2 ^ j < 2 ^ 54 * 2 ^ j" using f(1) by (intro mult_strict_right_mono) auto
      then have "sig wp < 2 ^ 54 * 2 * 2 ^ i" by (simp add: wp(3) i(1))
      moreover have "sig wp - sig ?wm = 4 * 2 ^ i" using n le m by simp
      ultimately show ?thesis by simp
    qed
    ultimately show ?thesis using n le i9 f(2) m by simp
  qed
  have e: "- 1137 \<le> df_e wp" "df_e wp \<le> 960" using j s by (simp_all add: wp(4))
  have "grisu2 x = grisu2_scaled ?wm w wp" by (simp add: grisu2_def compute_boundaries_def wp(1) w)
  then show ?thesis using scaled_result [of wp ?wm w] wp(2) wm e by (simp add: up)
qed

end
