(* ===== verification/Number_Roundtrip.thy ===== *)
theory Number_Roundtrip
  imports Grisu_Bounds Json_Lexer
begin

text \<open>
  A number strictly between the boundaries of a double is read as that double; every finite double is printed as a JSON
  number that reads back as itself.
\<close>

section \<open>Reading a number between the boundaries\<close>

definition near_double :: "nat \<Rightarrow> nat \<Rightarrow> nat \<Rightarrow> bool" where
  "near_double b P q \<longleftrightarrow>
     2 * P < (2 * f64_mant b + 1) * 2 ^ f64_scale b * q \<and>
     (if closer_below b then (4 * f64_mant b - 1) * 2 ^ f64_scale b * q < 4 * P
      else (2 * f64_mant b - 1) * 2 ^ f64_scale b * q < 2 * P)"

lemma powi_minus:
  "(2 :: real) powi (int s - 1075) = 2 ^ s / 2 ^ 1075" "(2 :: real) powi (int s - 1076) = 2 ^ s / 2 ^ 1076"
proof -
  have "(2 :: real) powi (int s - int n) = 2 ^ s / 2 ^ n" for n by (simp add: power_int_diff)
  from this [of 1075] this [of 1076]
  show "(2 :: real) powi (int s - 1075) = 2 ^ s / 2 ^ 1075" "(2 :: real) powi (int s - 1076) = 2 ^ s / 2 ^ 1076"
    by (simp_all only: of_nat_numeral)
qed

lemma near_doubleI:
  assumes "0 < q" "0 < f64_mant b" "lower_bound b < real p / real q" "real p / real q < upper_bound b"
  shows "near_double b (p * 2 ^ 1074) q"
proof -
  let ?f = "f64_mant b" and ?s = "f64_scale b" and ?P = "p * 2 ^ 1074"
  have q: "0 < real q" using assms(1) by simp
  have "real p / real q < (2 * real ?f + 1) * 2 ^ ?s / 2 ^ 1075"
    using assms(4) by (simp only: upper_bound_def powi_minus times_divide_eq_right)
  then have "real p * 2 ^ 1075 < (2 * real ?f + 1) * 2 ^ ?s * real q" using q by (simp add: field_simps)
  then have "real (2 * ?P) < real ((2 * ?f + 1) * 2 ^ ?s * q)" by (simp add: algebra_simps)
  then have up: "2 * ?P < (2 * ?f + 1) * 2 ^ ?s * q" by (simp only: of_nat_less_iff)
  have low: "(2 * ?f - 1) * 2 ^ ?s * q < 2 * ?P" if "\<not> closer_below b"
  proof -
    have "(2 * real ?f - 1) * 2 ^ ?s / 2 ^ 1075 < real p / real q"
      using assms(3) that by (simp only: lower_bound_def powi_minus times_divide_eq_right if_False)
    then have "(2 * real ?f - 1) * 2 ^ ?s * real q < real p * 2 ^ 1075" using q by (simp add: field_simps)
    then have "real ((2 * ?f - 1) * 2 ^ ?s * q) < real (2 * ?P)" using assms(2) by (simp add: of_nat_diff)
    then show ?thesis by (simp only: of_nat_less_iff)
  qed
  have low': "(4 * ?f - 1) * 2 ^ ?s * q < 4 * ?P" if "closer_below b"
  proof -
    have "(4 * real ?f - 1) * 2 ^ ?s / 2 ^ 1076 < real p / real q"
      using assms(3) that by (simp only: lower_bound_def powi_minus times_divide_eq_right if_True)
    then have "(4 * real ?f - 1) * 2 ^ ?s * real q < real p * 2 ^ 1076" using q by (simp add: field_simps)
    then have "real ((4 * ?f - 1) * 2 ^ ?s * q) < real (4 * ?P)" using assms(2) by (simp add: of_nat_diff)
    then show ?thesis by (simp only: of_nat_less_iff)
  qed
  show ?thesis using up low low' by (simp add: near_double_def)
qed

lemma f64_mant_cases:
  assumes "0 < b"
  shows "0 < f64_mant b" "0 < f64_scale b \<Longrightarrow> 2 ^ 52 \<le> f64_mant b"
    "closer_below b \<longleftrightarrow> 0 < f64_scale b \<and> f64_mant b = 2 ^ 52"
  using assms div_mult_mod_eq [of b "2 ^ 52"] mod_less_divisor [of "2 ^ 52" b, OF zero_less_power]
  by (auto simp: f64_mant_def f64_scale_def closer_below_def simp del: mod_less_divisor)

lemma round_near:
  assumes b: "0 < b" and q: "0 < q" and near: "near_double b P q"
  shows "(bitlen (P div q) - 53) * 2 ^ 52 + round_div P (q * 2 ^ (bitlen (P div q) - 53)) = b"
proof -
  define f s where fs: "f = f64_mant b" "s = f64_scale b"
  have dec: "b = s * 2 ^ 52 + f" unfolding fs by (rule f64_decompose)
  have f: "f < 2 ^ 53" "0 < f" "0 < s \<Longrightarrow> 2 ^ 52 \<le> f" "closer_below b \<longleftrightarrow> 0 < s \<and> f = 2 ^ 52"
    using f64_mant_less [of b] f64_mant_cases [OF b] by (simp_all add: fs)
  define B where B: "B = 2 ^ s * q"
  have B0: "0 < B" using q by (simp add: B)
  have up: "2 * P < (2 * f + 1) * B" using near unfolding near_double_def fs B mult.assoc by blast
  have low: "(2 * f - 1) * B < 2 * P" if "\<not> closer_below b" using near that by (simp add: near_double_def fs B mult.assoc)
  have low4: "(4 * f - 1) * B < 4 * P" if "closer_below b" using near that by (simp add: near_double_def fs B mult.assoc)
  have lt: "P < 2 ^ 53 * B"
  proof -
    have "(2 * f + 1) * B \<le> 2 ^ 54 * B" using f(1) by (intro mult_le_mono1) simp
    from less_le_trans [OF up this] show ?thesis by simp
  qed
  have same: ?thesis if j: "bitlen (P div q) - 53 = s" and lo: "(2 * f - 1) * B < 2 * P"
  proof -
    have "round_div P B = f"
      by (rule round_div_unique) (use up lo f(2) in \<open>simp_all add: algebra_simps diff_mult_distrib\<close>)
    then show ?thesis unfolding j dec B by (simp add: mult.commute)
  qed
  have div_le: "P div q < 2 ^ k \<longleftrightarrow> P < 2 ^ k * q" for k using q by (simp add: div_less_iff_less_mult)
  have len: "bitlen (P div q) \<le> 53 + s" unfolding bitlen_le_iff div_le using lt by (simp add: B power_add mult_ac)
  show ?thesis
  proof (cases "s = 0")
    case True
    then show ?thesis using len f(4) low by (intro same) simp_all
  next
    case False
    then obtain t where t: "s = Suc t" by (cases s) auto
    show ?thesis
    proof (cases "2 ^ 52 * B \<le> P")
      case True
      then have "\<not> bitlen (P div q) \<le> 52 + s" unfolding bitlen_le_iff div_le by (simp add: B power_add mult_ac)
      then have j: "bitlen (P div q) - 53 = s" using len by simp
      moreover have "(2 * f - 1) * B < 2 * P"
      proof (cases "closer_below b")
        case True
        then have "f = 2 ^ 52" using f(4) by simp
        then have "(2 * f - 1) * B < 2 * (2 ^ 52 * B)" using B0 by (simp add: diff_mult_distrib)
        also have "\<dots> \<le> 2 * P" using \<open>2 ^ 52 * B \<le> P\<close> by simp
        finally show ?thesis .
      qed (rule low)
      ultimately show ?thesis by (rule same)
    next
      case below: False
      have fe: "f = 2 ^ 52"
      proof (rule ccontr)
        assume "f \<noteq> 2 ^ 52"
        then have "2 ^ 52 + 1 \<le> f" "\<not> closer_below b" using f(3,4) t by simp_all
        then have "(2 ^ 53 + 1) * B \<le> (2 * f - 1) * B" by (intro mult_le_mono1) simp
        from le_less_trans [OF this low [OF \<open>\<not> closer_below b\<close>]] show False using below by simp
      qed
      then have cb: "closer_below b" using f(4) t by simp
      have lo: "(2 ^ 54 - 1) * B < 4 * P" using low4 [OF cb] by (simp add: fe)
      define C where C: "C = q * 2 ^ t"
      have BC: "B = 2 * C" by (simp add: B C t)
      have "2 ^ 53 * C \<le> 2 ^ 54 * C - C" using BC B0 by simp
      then have "2 ^ 52 * C \<le> P" using lo BC by (simp add: diff_mult_distrib)
      then have "\<not> bitlen (P div q) \<le> 52 + t" unfolding bitlen_le_iff div_le by (simp add: C power_add mult_ac)
      moreover have "bitlen (P div q) \<le> 53 + t" unfolding bitlen_le_iff div_le using below BC by (simp add: C power_add mult_ac)
      ultimately have j: "bitlen (P div q) - 53 = t" by simp
      have "round_div P C = 2 ^ 53"
        by (rule round_div_unique) (use lo below BC in \<open>simp_all add: diff_mult_distrib\<close>)
      then show ?thesis unfolding j C [symmetric] dec fe t by simp
    qed
  qed
qed

lemma round_f64_near:
  assumes "0 < b" "b < 2047 * 2 ^ 52" "0 < q" "near_double b (p * 2 ^ 1074) q"
  shows "round_f64 neg p q = of_nat ((if neg then 2 ^ 63 else 0) + b)"
  using round_near [OF assms(1,3,4)] assms(2) by (simp only: round_f64_def Let_def min_def) simp

section \<open>The shape of a printed number\<close>

definition exponent_text :: "(bool \<times> string) option \<Rightarrow> string" where
  "exponent_text ex = (case ex of None \<Rightarrow> [] | Some (neg, ds) \<Rightarrow> ''e'' @ (if neg then ''-'' else ''+'') @ ds)"

definition exponent_val :: "(bool \<times> string) option \<Rightarrow> int" where
  "exponent_val ex = (case ex of None \<Rightarrow> 0 | Some (neg, ds) \<Rightarrow> if neg then - int (digits_val ds) else int (digits_val ds))"

definition number_text :: "string \<Rightarrow> string \<Rightarrow> (bool \<times> string) option \<Rightarrow> string" where
  "number_text ip fp ex = ip @ (if fp = [] then [] else CHR ''.'' # fp) @ exponent_text ex"

definition number_ok :: "string \<Rightarrow> string \<Rightarrow> (bool \<times> string) option \<Rightarrow> bool" where
  "number_ok ip fp ex \<longleftrightarrow>
     ip \<noteq> [] \<and> (\<forall>c \<in> set ip. isdigit c) \<and> (hd ip = CHR ''0'' \<longrightarrow> ip = ''0'') \<and> (\<forall>c \<in> set fp. isdigit c) \<and>
     (case ex of None \<Rightarrow> True | Some (neg, ds) \<Rightarrow> ds \<noteq> [] \<and> (\<forall>c \<in> set ds. isdigit c))"

lemma not_digits [simp]: "\<not> isdigit (CHR ''e'')" "\<not> isdigit (CHR ''+'')" "\<not> isdigit (CHR ''-'')" "\<not> isdigit (CHR '','')"
  "\<not> isdigit (CHR '']'')" "\<not> isdigit (CHR ''}'')" "isdigit (CHR ''0'')"
  by (simp_all add: isdigit_def byte_def)

lemma takeWhile_digits: "\<forall>c \<in> set s. isdigit c \<Longrightarrow> t = [] \<or> \<not> isdigit (hd t) \<Longrightarrow>
    takeWhile isdigit (s @ t) = s \<and> dropWhile isdigit (s @ t) = t"
  by (cases t) (auto simp: takeWhile_append dropWhile_append takeWhile_eq_Nil_iff)

lemma exponent_text_hd: "exponent_text ex = [] \<or> (exponent_text ex \<noteq> [] \<and> hd (exponent_text ex) = CHR ''e'')"
  by (auto simp: exponent_text_def split: option.split)

lemma read_digits_number:
  assumes "number_ok ip fp ex"
  shows "read_digits isdigit (number_text ip fp ex) = (ip, fp, exponent_text ex)"
proof -
  have ip: "\<forall>c \<in> set ip. isdigit c" and fp: "\<forall>c \<in> set fp. isdigit c" using assms by (simp_all add: number_ok_def)
  let ?r = "(if fp = [] then [] else CHR ''.'' # fp) @ exponent_text ex"
  have "?r = [] \<or> \<not> isdigit (hd ?r)" using exponent_text_hd [of ex] by auto
  note i = takeWhile_digits [OF ip this]
  have "exponent_text ex = [] \<or> \<not> isdigit (hd (exponent_text ex))" using exponent_text_hd [of ex] by auto
  note f = takeWhile_digits [OF fp this]
  show ?thesis
    unfolding read_digits_def number_text_def Let_def
    using i f exponent_text_hd [of ex] by (cases "exponent_text ex") (auto split: list.split)
qed

lemma read_exponent_number: "number_ok ip fp ex \<Longrightarrow> read_exponent (CHR ''E'') (exponent_text ex) = exponent_val ex"
proof -
  assume ok: "number_ok ip fp ex"
  have up: "toupper (CHR ''e'') = CHR ''E''" by code_simp
  show ?thesis
  proof (cases ex)
    case (Some p)
    then obtain neg ds where p: "ex = Some (neg, ds)" by (cases p) auto
    then have ds: "takeWhile isdigit ds = ds" "ds \<noteq> []" using ok by (auto simp: number_ok_def takeWhile_eq_all_conv)
    show ?thesis by (simp add: p exponent_text_def exponent_val_def read_exponent_def up Let_def ds)
  qed (simp add: exponent_text_def exponent_val_def read_exponent_def)
qed

lemma scale_num_real:
  "\<exists>p q. scale_num 10 n e = FNum p q \<and> 0 < q \<and> real p / real q = real n * 10 powi e"
  by (auto simp: scale_num_def power_int_def inverse_eq_divide power_one_over field_simps)

lemma read_number:
  assumes "number_ok ip fp ex"
  shows "\<exists>p q. read_decimal (number_text ip fp ex) = Some (FNum p q) \<and> 0 < q \<and>
           real p / real q = real (digits_val (ip @ fp)) * 10 powi (exponent_val ex - int (length fp))"
  using scale_num_real [of "digits_val (ip @ fp)" "exponent_val ex - int (length fp)"] assms
  by (auto simp: read_decimal_def read_digits_number [OF assms] read_exponent_number [OF assms] number_ok_def)

section \<open>Layout\<close>

lemma digits_val_zeros: "digits_val (replicate n (CHR ''0'') @ s) = digits_val s"
proof -
  have "digits_val (replicate n (CHR ''0'')) = 0" by (induction n rule: nat.induct) (simp_all add: digits_val_def digit_val_def byte_def)
  then show ?thesis by (simp add: digits_val_append)
qed

lemma digits_val_append_zeros: "digits_val (s @ replicate n (CHR ''0'')) = digits_val s * 10 ^ n"
  using digits_val_zeros [of n "[]"] by (simp add: digits_val_append)

lemma append_exponent_text:
  assumes "\<bar>e\<bar> < 1000"
  shows "\<exists>ds. append_exponent (buf @ ''e'') e = buf @ exponent_text (Some (e < 0, ds)) \<and> ds \<noteq> [] \<and> (\<forall>c \<in> set ds. isdigit c) \<and>
           digits_val ds = nat \<bar>e\<bar>"
proof -
  define k where k: "k = nat \<bar>e\<bar>"
  have k3: "k < 1000" using assms by (simp add: k)
  have dig: "isdigit (char_of (48 + d))" "digit_val (char_of (48 + d)) = d" if "d < 10" for d
    using that by (simp_all add: isdigit_def digit_val_def)
  have zero: "digit_val (CHR ''0'') = 0" by (simp add: digit_val_def byte_def)
  consider "k < 10" | "10 \<le> k" "k < 100" | "100 \<le> k" by linarith
  then show ?thesis
  proof cases
    case 1
    then show ?thesis using zero dig [of k]
      by (intro exI [of _ "[CHR ''0'', char_of (48 + k)]"])
        (simp add: append_exponent_def exponent_text_def put_digit_def digits_val_def k [symmetric])
  next
    case 2
    then have "k div 10 < 10" "k mod 10 < 10" by (simp_all add: div_less_iff_less_mult)
    then show ?thesis using 2 dig [of "k div 10"] dig [of "k mod 10"]
      by (intro exI [of _ "[char_of (48 + k div 10), char_of (48 + k mod 10)]"])
        (simp add: append_exponent_def exponent_text_def put_digit_def digits_val_def k [symmetric])
  next
    case 3
    let ?a = "k div 100" and ?b = "k mod 100 div 10" and ?c = "k mod 100 mod 10"
    have "?a < 10" "?b < 10" "?c < 10" using k3 by (simp_all add: div_less_iff_less_mult)
    moreover have "k = 10 * (10 * ?a + ?b) + ?c"
    proof -
      define a r b c where abc: "a = ?a" "r = k mod 100" "b = r div 10" "c = r mod 10"
      have "a * 100 + r = k" "b * 10 + c = r" by (simp_all only: abc div_mult_mod_eq)
      then have "k = 10 * (10 * a + b) + c" by simp
      then show ?thesis by (simp only: abc)
    qed
    ultimately show ?thesis using 3 dig [of ?a] dig [of ?b] dig [of ?c]
      by (intro exI [of _ "[char_of (48 + ?a), char_of (48 + ?b), char_of (48 + ?c)]"])
        (simp add: append_exponent_def exponent_text_def put_digit_def digits_val_def k [symmetric])
  qed
qed

lemma format_buffer_text:
  assumes buf: "decimal buf" "buf \<noteq> []" and n: "- 324 < int (length buf) + de" "int (length buf) + de \<le> 310"
  shows "\<exists>ip fp ex. format_buffer buf de (- 4) 15 = number_text ip fp ex \<and> number_ok ip fp ex \<and> (fp \<noteq> [] \<or> ex \<noteq> None) \<and>
           real (digits_val (ip @ fp)) * 10 powi (exponent_val ex - int (length fp)) = real (digits_val buf) * 10 powi de"
proof -
  define k n where kn: "k = int (length buf)" "n = k + de"
  have k: "1 \<le> k" using buf(2) by (cases buf) (simp_all add: kn)
  have dig: "\<forall>c \<in> set buf. isdigit c" and hd: "hd buf \<noteq> CHR ''0''" using buf by (simp_all add: decimal_def)
  consider (int) "k \<le> n" "n \<le> 15" | (mid) "n < k" "0 < n" "n \<le> 15" | (small) "- 4 < n" "n \<le> 0" | (sci) "n \<le> - 4 \<or> 15 < n" by linarith
  then show ?thesis
  proof cases
    case int
    then have fb: "format_buffer buf de (- 4) 15 = number_text (buf @ replicate (nat de) (CHR ''0'')) ''0'' None"
      by (simp add: format_buffer_def Let_def kn number_text_def exponent_text_def)
    have "(10 :: real) powi de = 10 ^ nat de" using int by (simp add: power_int_def kn)
    moreover have "digits_val ((buf @ replicate (nat de) (CHR ''0'')) @ ''0'') = digits_val buf * 10 ^ nat de * 10"
      by (simp only: digits_val_append_zeros digits_val_snoc) (simp add: digit_val_def byte_def)
    moreover have "number_ok (buf @ replicate (nat de) (CHR ''0'')) ''0'' None" using dig hd buf(2) by (auto simp: number_ok_def)
    ultimately show ?thesis
      by (intro exI [of _ "buf @ replicate (nat de) (CHR ''0'')"] exI [of _ "''0''"] exI [of _ None])
        (simp add: fb exponent_val_def power_int_minus)
  next
    case mid
    then have fb: "format_buffer buf de (- 4) 15 = number_text (take (nat n) buf) (drop (nat n) buf) None"
      by (simp add: format_buffer_def Let_def kn number_text_def exponent_text_def)
    have "take (nat n) buf \<noteq> []" "hd (take (nat n) buf) = hd buf" using mid buf(2) by simp_all
    then have "number_ok (take (nat n) buf) (drop (nat n) buf) None" using dig hd
      by (auto simp: number_ok_def dest: in_set_takeD in_set_dropD)
    moreover have "- int (length (drop (nat n) buf)) = de" "drop (nat n) buf \<noteq> []" using mid by (simp_all add: kn)
    ultimately show ?thesis
      by (intro exI [of _ "take (nat n) buf"] exI [of _ "drop (nat n) buf"] exI [of _ None]) (simp add: fb exponent_val_def)
  next
    case small
    let ?fp = "replicate (nat (- n)) (CHR ''0'') @ buf"
    have fb: "format_buffer buf de (- 4) 15 = number_text ''0'' ?fp None"
      using small k buf(2) by (simp add: format_buffer_def Let_def kn number_text_def exponent_text_def)
    have "number_ok ''0'' ?fp None" using dig by (auto simp: number_ok_def)
    moreover have "- int (length ?fp) = de" using small by (simp add: kn)
    moreover have "digits_val (''0'' @ ?fp) = digits_val buf"
      using digits_val_zeros [of "Suc (nat (- n))" buf] by simp
    ultimately show ?thesis using buf(2)
      by (intro exI [of _ "''0''"] exI [of _ ?fp] exI [of _ None]) (simp add: fb exponent_val_def)
  next
    case sci
    have "\<bar>n - 1\<bar> < 1000" using n by (simp add: kn)
    from append_exponent_text [OF this, of "if k = 1 then buf else take 1 buf @ ''.'' @ drop 1 buf"]
    obtain ds where ds: "append_exponent ((if k = 1 then buf else take 1 buf @ ''.'' @ drop 1 buf) @ ''e'') (n - 1) =
        (if k = 1 then buf else take 1 buf @ ''.'' @ drop 1 buf) @ exponent_text (Some (n - 1 < 0, ds))"
      "ds \<noteq> []" "\<forall>c \<in> set ds. isdigit c" "digits_val ds = nat \<bar>n - 1\<bar>" by blast
    let ?ex = "Some (n - 1 < 0, ds)"
    have len: "take 1 buf @ drop 1 buf = buf" "k = 1 \<longleftrightarrow> drop 1 buf = []" "int (length (drop 1 buf)) = k - 1"
      using k by (auto simp: kn)
    have "format_buffer buf de (- 4) 15 =
        append_exponent ((if k = 1 then buf else take 1 buf @ ''.'' @ drop 1 buf) @ ''e'') (n - 1)"
      using sci k unfolding format_buffer_def Let_def kn [symmetric] by auto
    then have fb: "format_buffer buf de (- 4) 15 = number_text (take 1 buf) (drop 1 buf) ?ex"
      unfolding ds(1) number_text_def using len by (cases "k = 1") auto
    have "number_ok (take 1 buf) (drop 1 buf) ?ex" using dig hd ds(2,3) buf(2)
      by (cases buf) (auto simp: number_ok_def dest: in_set_dropD)
    moreover have "exponent_val ?ex - int (length (drop 1 buf)) = de"
      unfolding len(3) by (auto simp: exponent_val_def ds(4) kn)
    ultimately show ?thesis
      by (intro exI [of _ "take 1 buf"] exI [of _ "drop 1 buf"] exI [of _ ?ex]) (simp add: fb len(1) del: take_Suc drop_Suc)
  qed
qed

section \<open>Scanning a number\<close>

fun num_path :: "num_state \<Rightarrow> num_type \<Rightarrow> string \<Rightarrow> (num_state \<times> num_type) option" where
  "num_path q ty [] = Some (q, num_enter q ty)"
| "num_path q ty (c # cs) = (case num_goto q c of None \<Rightarrow> None | Some q' \<Rightarrow> num_path q' (num_enter q ty) cs)"

definition num_stops :: "num_state \<Rightarrow> string \<Rightarrow> bool" where
  "num_stops q rest \<longleftrightarrow> num_error q = None \<and> (rest = [] \<or> num_goto q (hd rest) = None)"

lemma num_path_append: "num_path q ty (s @ t) = Option.bind (num_path q ty s) (\<lambda>(q', ty'). num_path q' ty' t)"
proof (induction s arbitrary: q ty)
  case Nil
  have "num_enter q (num_enter q ty) = num_enter q ty" by (cases q) simp_all
  then have "num_path q (num_enter q ty) t = num_path q ty t" by (cases t) (simp_all split: option.split)
  then show ?case by simp
qed (simp split: option.split)

lemma scan_number_path:
  assumes "num_path q ty s = Some (q', ty')" "num_stops q' rest" "lx_at l (s @ rest)"
  shows "\<exists>l'. scan_number_from q ty l = (number_token ty' (lx_buffer l @ s), l') \<and> lx_at l' rest"
  using assms(1,3)
proof (induction s arbitrary: q ty l)
  case Nil
  then have q: "q' = q" "ty' = num_enter q ty" "lx_at l rest" by auto
  have "Option.bind (lx_current (lx_get l)) (\<lambda>c. map_option (Pair c) (num_goto q c)) = None"
    using q(3) assms(2) lx_at_Nil lx_at_Cons by (cases rest) (auto simp: num_stops_def q(1))
  then show ?case using assms(2) lx_at_unget [OF q(3)]
    by (subst scan_number_from.simps) (simp add: num_stops_def q scan_number_done_def Let_def)
next
  case (Cons c s)
  then obtain q1 where q1: "num_goto q c = Some q1" "num_path q1 (num_enter q ty) s = Some (q', ty')" by (auto split: option.splits)
  have c: "lx_current (lx_get l) = Some c" "lx_at (lx_get l) (s @ rest)" using Cons.prems(2) lx_at_Cons by simp_all
  then have "lx_at (lx_add c (lx_get l)) (s @ rest)" by simp
  from Cons.IH [OF q1(2) this] show ?case using c(1) q1(1) by (subst scan_number_from.simps) simp
qed

lemma digits_path:
  assumes "\<forall>c \<in> set s. isdigit c"
  shows "num_path Any1 ty s = Some (Any1, ty)" "num_path Decimal2 ty s = Some (Decimal2, ty)" "num_path Any2 ty s = Some (Any2, ty)"
  using assms by (induction s) simp_all

lemma digits_path':
  assumes "\<forall>c \<in> set s. isdigit c" "s \<noteq> []"
  shows "num_path Decimal1 ty s = Some (Decimal2, Float)" "num_path Sign ty s = Some (Any2, ty)"
  using assms by (cases s; simp add: digits_path)+

definition num_start :: "char \<Rightarrow> num_state" where
  "num_start c = (if c = CHR ''-'' then Minus else if c = CHR ''0'' then Zero else Any1)"

lemma exponent_path:
  assumes "\<forall>c \<in> set ds. isdigit c" "ds \<noteq> []" "q \<in> {Zero, Any1, Decimal2}"
  shows "num_path q ty (exponent_text (Some (neg, ds))) = Some (Any2, Float)"
  using assms by (auto simp: exponent_text_def is_exponent_def digits_path' num_path_append)

lemma fraction_path:
  assumes "\<forall>c \<in> set fp. isdigit c" "fp \<noteq> []" "q \<in> {Zero, Any1}"
  shows "num_path q ty (CHR ''.'' # fp) = Some (Decimal2, Float)"
  using assms by (auto simp: digits_path')

lemma number_path:
  assumes ok: "number_ok ip fp ex" and fl: "fp \<noteq> [] \<or> ex \<noteq> None" and ip: "ip = c # cs"
  shows "\<exists>q. num_path (num_start c) ty (tl (number_text ip fp ex)) = Some (q, Float) \<and> q \<in> {Decimal2, Any2}"
proof -
  have cs: "\<forall>x \<in> set cs. isdigit x" and c: "isdigit c" "c = CHR ''0'' \<longrightarrow> cs = []" and fp: "\<forall>x \<in> set fp. isdigit x"
    using ok by (auto simp: number_ok_def ip)
  have "c \<noteq> CHR ''-''" using c(1) by auto
  then obtain q0 where q0: "num_path (num_start c) ty cs = Some (q0, ty)" "q0 \<in> {Zero, Any1}"
    using cs c(2) digits_path(1) by (cases "c = CHR ''0''") (auto simp: num_start_def)
  obtain q1 ty1 where q1: "num_path q0 ty (if fp = [] then [] else CHR ''.'' # fp) = Some (q1, ty1)" "q1 \<in> {Zero, Any1, Decimal2}"
    "fp \<noteq> [] \<longrightarrow> q1 = Decimal2 \<and> ty1 = Float"
  proof (cases "fp = []")
    case True
    then show ?thesis using q0(2) that [of q0 ty] by auto
  next
    case False
    then show ?thesis using fraction_path [OF fp False q0(2), of ty] that [of Decimal2 Float] by simp
  qed
  show ?thesis
  proof (cases ex)
    case None
    then show ?thesis using q0(1) q1 fl by (auto simp: number_text_def ip num_path_append exponent_text_def)
  next
    case (Some p)
    then obtain neg ds where p: "ex = Some (neg, ds)" by (cases p) auto
    then have ds: "\<forall>x \<in> set ds. isdigit x" "ds \<noteq> []" using ok by (auto simp: number_ok_def)
    show ?thesis using q0(1) q1(1) exponent_path [OF ds q1(2), of ty1 neg] by (simp add: number_text_def ip num_path_append p)
  qed
qed

section \<open>Printing a double and reading it\<close>

definition sign_text :: "bool \<Rightarrow> string" where
  "sign_text neg = (if neg then ''-'' else [])"

lemma split_sign_number: "isdigit (hd t) \<Longrightarrow> split_sign (sign_text neg @ t) = (neg, t)"
  by (cases t) (auto simp: sign_text_def isdigit_def byte_def)

lemma strtod_number_text:
  assumes "number_ok ip fp ex" "read_decimal (number_text ip fp ex) = Some (FNum p q)"
  shows "strtod_number (sign_text neg @ number_text ip fp ex) = round_f64 neg p q"
proof -
  have "isdigit (hd (number_text ip fp ex))" using assms(1) by (cases ip) (auto simp: number_ok_def number_text_def)
  then show ?thesis by (simp add: strtod_number_def split_sign_number assms(2))
qed

definition f64_abs :: "64 word \<Rightarrow> 64 word" where
  "f64_abs x = (if bit x 63 then x XOR push_bit 63 1 else x)"

lemma f64_abs_result: "unat x = (if bit x 63 then 2 ^ 63 else 0) + unat (f64_abs x)" "unat (f64_abs x) = unat x mod 2 ^ 63"
proof -
  have lt: "unat x < 2 ^ 64" by simp
  have "bit x 63 \<longleftrightarrow> bit (unat x) 63" by (simp add: bit_unsigned_iff)
  then have "bit x 63 \<longleftrightarrow> odd (unat x div 2 ^ 63)" by (simp only: bit_iff_odd)
  moreover have "unat x div 2 ^ 63 < 2" using lt by (simp add: div_less_iff_less_mult)
  then have "unat x div 2 ^ 63 = 0 \<or> unat x div 2 ^ 63 = 1" by linarith
  ultimately have d: "unat x div 2 ^ 63 = (if bit x 63 then 1 else 0)" by (elim disjE) simp_all
  have p: "bit (push_bit 63 1 :: 64 word) n \<longleftrightarrow> n = 63" for n by (simp only: push_bit_of_1 bit_exp_iff) auto
  have "take_bit 63 x = f64_abs x"
  proof (rule bit_word_eqI)
    fix n assume "n < LENGTH(64)"
    then have "n < 63 \<or> n = 63" by auto
    then show "bit (take_bit 63 x) n \<longleftrightarrow> bit (f64_abs x) n"
      by (auto simp only: f64_abs_def bit_take_bit_iff bit_xor_iff p split: if_splits)
  qed
  then have "unat (f64_abs x) = take_bit 63 (unat x)" by (simp only: unsigned_take_bit_eq flip: \<open>take_bit 63 x = f64_abs x\<close>)
  then show m: "unat (f64_abs x) = unat x mod 2 ^ 63" by (simp only: take_bit_eq_mod)
  show "unat x = (if bit x 63 then 2 ^ 63 else 0) + unat (f64_abs x)"
    using div_mult_mod_eq [of "unat x" "2 ^ 63"] unfolding m d by (cases "bit x 63") simp_all
qed

lemma f64_abs_finite: "f64_exp x \<noteq> 2047 \<Longrightarrow> unat (f64_abs x) < 2047 * 2 ^ 52"
proof -
  assume "f64_exp x \<noteq> 2047"
  have "unat x mod 2 ^ 63 < 2 ^ 63" by simp
  then have "f64_exp x < 2048" unfolding f64_exp_def by (simp add: div_less_iff_less_mult)
  then have "f64_exp x < 2047" using \<open>f64_exp x \<noteq> 2047\<close> by simp
  then show ?thesis unfolding f64_exp_def f64_abs_result(2) by (simp add: div_less_iff_less_mult)
qed

text \<open>The layout of at most 17 digits.\<close>

lemma append_exponent_length: "\<bar>e\<bar> < 1000 \<Longrightarrow> length (append_exponent buf e) \<le> length buf + 4"
  by (simp add: append_exponent_def Let_def)

lemma format_buffer_length:
  assumes "buf \<noteq> []" "length buf \<le> 17" "- 324 < int (length buf) + de" "int (length buf) + de \<le> 310"
  shows "length (format_buffer buf de (- 4) 15) \<le> 23"
proof -
  have "length (append_exponent (b @ ''e'') (int (length buf) + de - 1)) \<le> 23" if "length b \<le> length buf + 1" for b
  proof -
    have "\<bar>int (length buf) + de - 1\<bar> < 1000" using assms by linarith
    then have "length (append_exponent (b @ ''e'') (int (length buf) + de - 1)) \<le> length b + 5"
      using append_exponent_length [of "int (length buf) + de - 1" "b @ ''e''"] by simp
    then show ?thesis using that assms(2) by linarith
  qed
  moreover have "length (if int (length buf) = 1 then buf else take 1 buf @ ''.'' @ drop 1 buf) \<le> length buf + 1"
    using assms(1) by (cases buf) simp_all
  ultimately show ?thesis using assms(2) by (auto simp: format_buffer_def Let_def simp del: append_assoc)
qed

lemma to_chars_length:
  assumes "f64_exp x \<noteq> 2047" "to_chars x = Some s"
  shows "length s \<le> 24"
proof (cases "f64_abs x = 0")
  case True
  then show ?thesis using assms(2) by (auto simp: to_chars_def Let_def f64_abs_def [symmetric])
next
  case False
  then have v: "0 < unat (f64_abs x)" by (simp add: unat_gt_0)
  have "unat (f64_abs x) < 2047 * 2 ^ 52" using assms(1) f64_abs_finite by blast
  then obtain buf de where g: "grisu2 (f64_abs x) = Some (buf, de)" "buf \<noteq> []" "- 324 < int (length buf) + de"
      "int (length buf) + de \<le> 310" "length buf \<le> 17"
    using grisu2_result [OF v] by blast
  then show ?thesis using assms(2) False format_buffer_length [OF g(2,5,3,4)]
    by (auto simp: to_chars_def Let_def f64_abs_def [symmetric])
qed

text \<open>Every finite double is printed as a JSON number that is read as that double.\<close>

lemma to_chars_reads_back:
  assumes "f64_exp x \<noteq> 2047"
  shows "\<exists>ip fp ex. to_chars x = Some (sign_text (bit x 63) @ number_text ip fp ex) \<and> number_ok ip fp ex \<and>
           (fp \<noteq> [] \<or> ex \<noteq> None) \<and> strtod_number (sign_text (bit x 63) @ number_text ip fp ex) = x"
proof (cases "f64_abs x = 0")
  case True
  have "to_chars x = Some (sign_text (bit x 63) @ number_text ''0'' ''0'' None)"
    using True by (simp add: to_chars_def Let_def f64_abs_def [symmetric] sign_text_def number_text_def exponent_text_def)
  moreover have ok: "number_ok ''0'' ''0'' None" by (simp add: number_ok_def)
  obtain p q where pq: "read_decimal (number_text ''0'' ''0'' None) = Some (FNum p q)" "0 < q" "real p / real q = 0"
    using read_number [OF ok] by (auto simp: exponent_val_def digits_val_def digit_val_def byte_def)
  have "unat x = (if bit x 63 then 2 ^ 63 else 0)" using f64_abs_result(1) [of x] True by simp
  then have "of_nat (unat x) = (of_nat (if bit x 63 then 2 ^ 63 else 0) :: 64 word)" by (simp only:)
  then have "x = of_nat (if bit x 63 then 2 ^ 63 else 0)" by (simp only: of_nat_unat ucast_id)
  moreover have "round_f64 neg p q = of_nat (if neg then 2 ^ 63 else 0)" for neg
    using pq by (simp add: round_f64_def round_div_def)
  ultimately show ?thesis using strtod_number_text [OF ok pq(1), of "bit x 63"] ok
    by (intro exI [of _ "''0''"] exI [of _ "''0''"] exI [of _ None]) simp
next
  case False
  let ?v = "f64_abs x"
  have v: "0 < unat ?v" using False by (simp add: unat_gt_0)
  have v': "unat ?v < 2047 * 2 ^ 52" using f64_abs_finite [OF assms] .
  obtain buf de where g: "grisu2 ?v = Some (buf, de)" "decimal buf" "buf \<noteq> []"
      "- 324 < int (length buf) + de" "int (length buf) + de \<le> 310"
      "lower_bound (unat ?v) < real (digits_val buf) * 10 powi de" "real (digits_val buf) * 10 powi de < upper_bound (unat ?v)"
      "length buf \<le> 17"
    using grisu2_result [OF v v'] by blast
  obtain ip fp ex where t: "format_buffer buf de (- 4) 15 = number_text ip fp ex" "number_ok ip fp ex" "fp \<noteq> [] \<or> ex \<noteq> None"
      "real (digits_val (ip @ fp)) * 10 powi (exponent_val ex - int (length fp)) = real (digits_val buf) * 10 powi de"
    using format_buffer_text [OF g(2-5)] by blast
  obtain p q where pq: "read_decimal (number_text ip fp ex) = Some (FNum p q)" "0 < q"
      "real p / real q = real (digits_val (ip @ fp)) * 10 powi (exponent_val ex - int (length fp))"
    using read_number [OF t(2)] by blast
  have "near_double (unat ?v) (p * 2 ^ 1074) q"
    using g(6,7) pq(2) by (intro near_doubleI f64_mant_cases(1) v) (simp_all only: pq(3) t(4))
  from round_f64_near [OF v v' pq(2) this, of "bit x 63"]
  have "round_f64 (bit x 63) p q = of_nat (unat x)" by (simp only: f64_abs_result(1) [symmetric])
  then have "strtod_number (sign_text (bit x 63) @ number_text ip fp ex) = x"
    using strtod_number_text [OF t(2) pq(1)] by simp
  moreover have "to_chars x = Some (sign_text (bit x 63) @ number_text ip fp ex)"
    using False g(1) t(1) by (simp add: to_chars_def Let_def f64_abs_def [symmetric] sign_text_def)
  ultimately show ?thesis using t(2,3) by blast
qed

end
