(* ===== verification/Json_Tokens.thy ===== *)
theory Json_Tokens
  imports Json_Strings Number_Roundtrip
begin

text \<open>
  Tokens of JSON: the text of an integer (\<open>dump_integer\<close>), of a double (\<open>dump_float\<close>), of a string and of a
  literal is read back by the lexer as one token with that value.
\<close>

section \<open>Integers\<close>

lemma nat_to_string_small: "n < 10 \<Longrightarrow> nat_to_string n = [digit_char n]"
  by (subst nat_to_string.simps) simp

lemma nat_to_string_step: "10 \<le> n \<Longrightarrow> nat_to_string n = nat_to_string (n div 10) @ [digit_char (n mod 10)]"
  by (subst nat_to_string.simps) simp

lemma nat_to_string_pair:
  "100 \<le> n \<Longrightarrow> nat_to_string n = nat_to_string (n div 100) @ [digit_char (n mod 100 div 10), digit_char (n mod 100 mod 10)]"
proof -
  assume n: "100 \<le> n"
  have "n div 10 div 10 = n div 100" by (simp add: div_mult2_eq [symmetric])
  moreover have "n div 10 mod 10 = n mod 100 div 10" "n mod 10 = n mod 100 mod 10"
    using mod_mult2_eq [of n 10 10] by (simp_all add: mod_mod_cancel)
  moreover have "10 \<le> n div 10" using n by (simp add: less_eq_div_iff_mult_less_eq)
  ultimately show ?thesis using n nat_to_string_step [of n] nat_to_string_step [of "n div 10"] by simp
qed

lemma count_digits_from: "count_digits_from k n + 1 = k + length (nat_to_string n)"
proof (induction k n rule: count_digits_from.induct)
  case (1 k n)
  note steps = nat_to_string_small nat_to_string_step
  show ?case
  proof (cases "n < 10000")
    case True
    have d: "100 \<le> n \<Longrightarrow> n < 1000 \<Longrightarrow> n div 10 div 10 < 10" "1000 \<le> n \<Longrightarrow> n div 10 div 10 div 10 < 10"
      using True by (simp_all add: div_less_iff_less_mult)
    consider "n < 10" | "10 \<le> n" "n < 100" | "100 \<le> n" "n < 1000" | "1000 \<le> n" by linarith
    then show ?thesis using True d
      by cases (simp_all add: count_digits_from.simps [of k n] steps div_less_iff_less_mult)
  next
    case False
    then have "length (nat_to_string n) = length (nat_to_string (n div 10 div 10 div 10 div 10)) + 4"
      by (simp add: nat_to_string_step)
    moreover have "n div 10 div 10 div 10 div 10 = n div 10000" by (simp add: div_mult2_eq [symmetric])
    ultimately show ?thesis using 1 False by (simp add: count_digits_from.simps [of k n])
  qed
qed

lemma count_digits: "count_digits n = length (nat_to_string n)"
  using count_digits_from [of 1 n] by (simp add: count_digits_def)

text \<open>The digits fill the buffer up to \<open>p\<close>; what is before them and after them stays.\<close>

lemma put_pairs_result:
  "p = k + length (nat_to_string n) \<Longrightarrow> p \<le> length buf \<Longrightarrow> put_pairs buf p n = take k buf @ nat_to_string n @ drop p buf"
proof (induction buf p n rule: put_pairs.induct)
  case (1 buf p n)
  have upd: "xs[length us := v] = us @ v # vs" if "xs = us @ w # vs" for xs us vs :: string and v w using that by simp
  show ?case
  proof (cases "10 \<le> n")
    case False
    then have n: "nat_to_string n = [digit_char n]" by (simp add: nat_to_string_small)
    then have "put_pairs buf p n = buf[k := digit_char n]" 
      using 1(2) False by (subst put_pairs.simps) simp
    moreover have "buf[k := digit_char n] = take k buf @ digit_char n # drop (Suc k) buf"
      using 1(2,3) n by (intro upd_conv_take_nth_drop) simp
    ultimately show ?thesis using 1(2) n by simp
  next
    case True
    let ?buf = "\<lambda>a b. buf[p - 1 := a, p - 2 := b]"
    have two: "?buf a b = take (p - 2) buf @ b # a # drop p buf" if "2 \<le> p" "p \<le> length buf" for a b
    proof -
      from that(1) obtain m where m: "p = Suc (Suc m)" by (auto simp: le_iff_add)
      have "drop m buf = buf ! m # drop (Suc m) buf" "drop (Suc m) buf = buf ! Suc m # drop p buf"
        using that(2) m by (simp_all add: Cons_nth_drop_Suc)
      then have eq: "take m buf @ buf ! m # buf ! Suc m # drop p buf = buf" by (metis append_take_drop_id)
      have "(take m buf @ x # y # drop p buf)[Suc m := a, m := b] = take m buf @ b # a # drop p buf" for x y
        using that(2) m by (simp add: list_update_append)
      from this [of "buf ! m" "buf ! Suc m"] show ?thesis unfolding eq using m by simp
    qed
    show ?thesis
    proof (cases "100 \<le> n")
      case True
      let ?d = "n mod 100"
      note n = nat_to_string_pair [OF True]
      have p: "p - 2 = k + length (nat_to_string (n div 100))" "2 \<le> p" using 1(2) n by simp_all
      have "put_pairs buf p n = put_pairs (?buf (digit_char (?d mod 10)) (digit_char (?d div 10))) (p - 2) (n div 100)"
        using True by (simp add: put_pairs.simps [of buf p n] Let_def)
      also have "\<dots> = take k (?buf (digit_char (?d mod 10)) (digit_char (?d div 10))) @ nat_to_string (n div 100) @
          drop (p - 2) (?buf (digit_char (?d mod 10)) (digit_char (?d div 10)))"
        by (rule 1(1) [OF True refl p(1)]) (use 1(3) in simp)
      also have "\<dots> = take k buf @ nat_to_string n @ drop p buf"
        using p 1(3) unfolding two [OF p(2) 1(3)] n by simp
      finally show ?thesis .
    next
      case False
      then have n: "nat_to_string n = [digit_char (n div 10), digit_char (n mod 10)]"
        using True by (simp add: nat_to_string_step nat_to_string_small div_less_iff_less_mult)
      then have "put_pairs buf p n = ?buf (digit_char (n mod 10)) (digit_char (n div 10))"
        using True False by (simp add: put_pairs.simps [of buf p n])
      moreover have "2 \<le> p" "k = p - 2" using 1(2) n by simp_all
      ultimately show ?thesis using two [OF _ 1(3)] n by simp
    qed
  qed
qed

lemma nat_to_string_length: "n < 10 ^ k \<Longrightarrow> 0 < k \<Longrightarrow> length (nat_to_string n) \<le> k"
proof (induction k arbitrary: n)
  case (Suc k)
  show ?case
  proof (cases "n < 10")
    case False
    then have "n div 10 < 10 ^ k" "0 < k" using Suc.prems by (auto simp: div_less_iff_less_mult mult.commute intro: Suc_leI gr0I)
    then show ?thesis using Suc.IH [of "n div 10"] False by (simp add: nat_to_string_step)
  qed (simp add: nat_to_string_small)
qed simp

lemma dump_magnitude_text:
  assumes "n < 2 ^ 64" "length buf = 64"
  shows "dump_magnitude buf neg n = sign_text neg @ nat_to_string n"
proof -
  have "n < 10 ^ 20" using assms(1) by (rule less_trans) simp
  then have len: "length (nat_to_string n) \<le> 20" by (rule nat_to_string_length) simp
  let ?k = "if neg then 1 else 0" and ?buf = "if neg then buf[0 := CHR ''-''] else buf"
  have "put_pairs ?buf (?k + count_digits n) n = take ?k ?buf @ nat_to_string n @ drop (?k + count_digits n) ?buf"
    using len assms(2) by (intro put_pairs_result) (simp_all add: count_digits)
  moreover have "take ?k ?buf = sign_text neg" using assms(2) by (cases buf) (simp_all add: sign_text_def)
  moreover have "length (sign_text neg) = ?k" by (simp add: sign_text_def)
  ultimately show ?thesis by (simp add: dump_magnitude_def Let_def count_digits)
qed

lemma remove_sign_abs: "sint x < 0 \<Longrightarrow> remove_sign x = nat (- sint x) \<and> unat (- x) = nat (- sint x)"
proof -
  assume neg: "sint x < 0"
  have lo: "- (2 ^ 63) \<le> sint x" using sint_greater_eq [of x] by simp
  have u: "unat (of_int i :: 64 word) = nat i" if "0 \<le> i" "i < 2 ^ 64" for i
    using that by (simp add: unsigned_of_int take_bit_int_eq_self)
  have e: "- (x + 1) = of_int (- (sint x + 1))" "- x = of_int (- sint x)" by simp_all
  have "unat (- (x + 1)) = nat (- (sint x + 1))" unfolding e(1) by (rule u) (use neg lo in simp_all)
  moreover have "unat (- x) = nat (- sint x)" unfolding e(2) by (rule u) (use neg lo in simp_all)
  ultimately show ?thesis using neg unfolding remove_sign_def by linarith
qed

lemma dump_unsigned_text: "length buf = 64 \<Longrightarrow> dump_unsigned buf x = nat_to_string (unat x)"
proof -
  assume "length buf = 64"
  then have "dump_magnitude buf False (unat x) = nat_to_string (unat x)" by (simp add: dump_magnitude_text sign_text_def)
  moreover have "nat_to_string 0 = ''0''" by (simp add: nat_to_string_small digit_char_def) code_simp
  ultimately show ?thesis by (simp add: dump_unsigned_def)
qed

text \<open>An integer is written in decimal, whatever the buffer holds.\<close>

lemma dump_signed_text:
  assumes "length buf = 64"
  shows "dump_signed buf x = (if sint x < 0 then ''-'' @ nat_to_string (nat (- sint x)) else nat_to_string (nat (sint x)))"
proof -
  have lo: "- (2 ^ 63) \<le> sint x" using sint_greater_eq [of x] by simp
  show ?thesis
  proof (cases "sint x < 0")
    case True
    moreover have "nat (- sint x) < 2 ^ 64" using lo by (simp add: nat_less_iff)
    ultimately show ?thesis
      using dump_magnitude_text [of "nat (- sint x)" buf True] remove_sign_abs [of x] assms
      by (auto simp: dump_signed_def sign_text_def)
  next
    case False
    then have "unat x = nat (sint x)" using sint_less [of x] by (simp add: uint_sint take_bit_int_eq_self flip: nat_uint_eq)
      then show ?thesis using False dump_unsigned_text [OF assms, of x]
      by (cases "x = 0") (simp_all add: dump_signed_def dump_unsigned_def)
  qed
qed

section \<open>Tokens of a printed value\<close>

lemma lx_skip:
  assumes "lx_at l (c # xs)" "c \<noteq> CHR 0xEF" "\<not> is_space (Some c)"
  shows "\<exists>l'. scan l = scan_token l' \<and> lx_current l' = Some c \<and> lx_at l' xs"
proof -
  let ?l1 = "if lx_total l = 0 then lx_unget_char (lx_get l) else l"
  have at: "lx_at ?l1 (c # xs)" using assms(1) lx_at_unget [OF assms(1)] by simp
  have "(if lx_total l = 0 then skip_bom l else (True, l)) = (True, ?l1)"
    using lx_at_Cons(1) [OF assms(1)] assms(2) by (simp add: skip_bom_def Let_def)
  moreover have "skip_whitespace ?l1 = lx_get ?l1"
    using lx_at_Cons(1) [OF at] assms(3) by (subst skip_whitespace.simps) (simp only: Let_def if_False)
  ultimately have "scan l = scan_token (lx_get ?l1)" by (simp add: scan_def)
  then show ?thesis using lx_at_Cons [OF at] by blast
qed

lemma lx_end:
  assumes "lx_at l []"
  shows "\<exists>l'. scan l = (TEnd, l')"
proof -
  let ?l1 = "if lx_total l = 0 then lx_unget_char (lx_get l) else l"
  have at: "lx_at ?l1 []" using assms lx_at_unget [OF assms] by simp
  have "(if lx_total l = 0 then skip_bom l else (True, l)) = (True, ?l1)"
    using lx_at_Nil(1) [OF assms] by (simp add: skip_bom_def Let_def)
  moreover have "skip_whitespace ?l1 = lx_get ?l1"
    using lx_at_Nil(1) [OF at] by (subst skip_whitespace.simps) (simp add: Let_def is_space_def)
  ultimately have "scan l = scan_token (lx_get ?l1)" by (simp add: scan_def)
  then show ?thesis using lx_at_Nil(1) [OF at] by (simp add: scan_token_def)
qed

lemma scan_token_simps:
  "lx_current l = Some (CHR ''['') \<Longrightarrow> scan_token l = (TBeginArray, l)"
  "lx_current l = Some (CHR '']'') \<Longrightarrow> scan_token l = (TEndArray, l)"
  "lx_current l = Some (CHR ''{'') \<Longrightarrow> scan_token l = (TBeginObject, l)"
  "lx_current l = Some (CHR ''}'') \<Longrightarrow> scan_token l = (TEndObject, l)"
  "lx_current l = Some (CHR '':'') \<Longrightarrow> scan_token l = (TNameSep, l)"
  "lx_current l = Some (CHR '','') \<Longrightarrow> scan_token l = (TValueSep, l)"
  "lx_current l = Some (CHR ''t'') \<Longrightarrow> scan_token l = scan_literal ''rue'' TTrue l"
  "lx_current l = Some (CHR ''f'') \<Longrightarrow> scan_token l = scan_literal ''alse'' TFalse l"
  "lx_current l = Some (CHR ''n'') \<Longrightarrow> scan_token l = scan_literal ''ull'' TNull l"
  "lx_current l = Some quote \<Longrightarrow> scan_token l = scan_string l"
  by (simp_all add: scan_token_def quote_def del: scan_literal.simps)

lemma scan_token_number:
  assumes "lx_current l = Some c" "c = CHR ''-'' \<or> isdigit c"
  shows "scan_token l = scan_number c l"
proof -
  have "\<not> isdigit quote" "\<not> isdigit (CHR ''['')" "\<not> isdigit (CHR ''{'')" "\<not> isdigit (CHR '':'')" "\<not> isdigit (CHR ''t'')"
    "\<not> isdigit (CHR ''f'')" "\<not> isdigit (CHR ''n'')"
    by (simp_all add: isdigit_def byte_def quote_def)
  then have "c \<notin> {quote, CHR ''['', CHR '']'', CHR ''{'', CHR ''}'', CHR '':'', CHR '','', CHR ''t'', CHR ''f'', CHR ''n''}"
    using assms(2) not_digits by (auto simp: quote_def)
  then show ?thesis using assms by (simp add: scan_token_def del: scan_literal.simps)
qed

definition punctuation :: "char \<Rightarrow> token option" where
  "punctuation c =
     (if c = CHR ''['' then Some TBeginArray else if c = CHR '']'' then Some TEndArray
      else if c = CHR ''{'' then Some TBeginObject else if c = CHR ''}'' then Some TEndObject
      else if c = CHR '':'' then Some TNameSep else if c = CHR '','' then Some TValueSep else None)"

lemma scan_punctuation:
  assumes "punctuation c = Some t" "lx_at l (c # xs)"
  shows "\<exists>l'. scan l = (t, l') \<and> lx_at l' xs"
proof -
  have "c \<noteq> CHR 0xEF" "\<not> is_space (Some c)" using assms(1) by (auto simp: punctuation_def is_space_def split: if_splits)
  from lx_skip [OF assms(2) this] obtain l' where l': "scan l = scan_token l'" "lx_current l' = Some c" "lx_at l' xs" by blast
  have "scan_token l' = (t, l')" using assms(1) l'(2) by (auto simp: punctuation_def scan_token_simps split: if_splits)
  then show ?thesis using l'(1,3) by simp
qed

lemma scan_quoted:
  assumes "dump_escaped s = Inr out" "lx_at l (quote # out @ quote # rest)"
  shows "\<exists>l'. scan l = (TString s, l') \<and> lx_at l' rest"
proof -
  obtain l' where l': "scan l = scan_token l'" "lx_current l' = Some quote" "lx_at l' (out @ quote # rest)"
    using lx_skip [OF assms(2)] by (auto simp: quote_def is_space_def)
  have "scan_token l' = scan_string l'" using l'(2) by (rule scan_token_simps)
  then show ?thesis using dump_escaped_scan [OF assms(1) l'(3)] l'(1) by simp
qed

lemma scan_literal_text: "lx_at l (cs @ xs) \<Longrightarrow> \<exists>l'. scan_literal cs t l = (t, l') \<and> lx_at l' xs"
proof (induction cs arbitrary: l)
  case (Cons c cs)
  then have "lx_current (lx_get l) = Some c" "lx_at (lx_get l) (cs @ xs)" using lx_at_Cons by simp_all
  then show ?case using Cons.IH by (simp add: Let_def)
qed simp

lemma scan_word:
  assumes "(w, t) \<in> {(''null'', TNull), (''true'', TTrue), (''false'', TFalse)}" "lx_at l (w @ xs)"
  shows "\<exists>l'. scan l = (t, l') \<and> lx_at l' xs"
proof -
  obtain c cs where w: "w = c # cs" using assms(1) by auto
  have "c \<noteq> CHR 0xEF" "\<not> is_space (Some c)" using assms(1) w by (auto simp: is_space_def)
  from lx_skip [of l c "cs @ xs", OF _ this] assms(2) w
  obtain l' where l': "scan l = scan_token l'" "lx_current l' = Some c" "lx_at l' (cs @ xs)" by auto
  have "scan_token l' = scan_literal cs t l'" using assms(1) w l'(2) by (auto simp: scan_token_simps simp del: scan_literal.simps)
  then show ?thesis using scan_literal_text [OF l'(3)] l'(1) by simp
qed

text \<open>What may follow a value in a printed text.\<close>

definition follows :: "string \<Rightarrow> bool" where
  "follows rest \<longleftrightarrow> rest = [] \<or> hd rest \<in> {CHR '','', CHR '']'', CHR ''}''}"

lemma follows_stops: "follows rest \<Longrightarrow> q \<in> {Zero, Any1, Decimal2, Any2} \<Longrightarrow> num_stops q rest"
  by (cases rest) (auto simp: follows_def num_stops_def is_exponent_def)

lemma scan_number_text:
  assumes "s = c # cs" "c = CHR ''-'' \<or> isdigit c" "num_path (num_start c) Unsigned cs = Some (q, ty)" "num_stops q rest"
    and "lx_at l (s @ rest)"
  shows "\<exists>l'. scan l = (number_token ty s, l') \<and> lx_at l' rest"
proof -
  have nd: "\<not> isdigit (CHR 0xEF)" "\<not> isdigit (CHR 0x20)" "\<not> isdigit (CHR 0x09)" "\<not> isdigit (CHR 0x0A)" "\<not> isdigit (CHR 0x0D)"
    by (simp_all add: isdigit_def byte_def)
  have "c \<noteq> CHR 0xEF" "\<not> is_space (Some c)" using assms(2) nd by (auto simp: is_space_def)
  from lx_skip [of l c "cs @ rest", OF _ this] assms(1,5)
  obtain l' where l': "scan l = scan_token l'" "lx_current l' = Some c" "lx_at l' (cs @ rest)" by auto
  have "scan_token l' = scan_number c l'"
    by (rule scan_token_number [OF l'(2) assms(2)])
  also have "scan_number c l' = scan_number_from (num_start c) Unsigned (lx_add c (lx_reset l'))"
    by (simp add: scan_number_def num_start_def)
  finally show ?thesis
    using scan_number_path [OF assms(3,4), of "lx_add c (lx_reset l')"] l'(1,3) assms(1) by simp
qed

lemma nat_to_string_hd:
  obtains c cs where "nat_to_string n = c # cs" "isdigit c" "\<forall>x \<in> set cs. isdigit x" "c = CHR ''0'' \<longrightarrow> cs = []"
proof -
  obtain c cs where s: "nat_to_string n = c # cs" using nat_to_string_nonempty by (cases "nat_to_string n") blast+
  have "isdigit c" "\<forall>x \<in> set cs. isdigit x" using nat_to_string_digits [of n] unfolding s by simp_all
  moreover have "c = CHR ''0'' \<longrightarrow> cs = []" using s
  proof (induction n arbitrary: c cs rule: nat_to_string.induct)
    case (1 n)
    show ?case
    proof (cases "n < 10")
      case True
      then show ?thesis using 1(2) by (simp add: nat_to_string_small)
    next
      case False
      obtain d ds where d: "nat_to_string (n div 10) = d # ds" using nat_to_string_nonempty by (cases "nat_to_string (n div 10)") blast+
      have "d \<noteq> CHR ''0''"
      proof
        assume z: "d = CHR ''0''"
        then have "ds = []" using 1(1) [OF False d] by simp
        then have "digits_val (nat_to_string (n div 10)) = 0" unfolding d z by (simp add: digit_val_def byte_def)
        then show False using False by (simp add: div_eq_0_iff)
      qed
      moreover have "c = d" using 1(2) d False by (simp add: nat_to_string_step)
      ultimately show ?thesis by simp
    qed
  qed
  ultimately show thesis using s that by blast
qed

lemma digits_start: "isdigit c \<Longrightarrow> \<forall>x \<in> set cs. isdigit x \<Longrightarrow> (c = CHR ''0'' \<longrightarrow> cs = []) \<Longrightarrow>
    \<exists>q. num_path (num_start c) ty cs = Some (q, ty) \<and> q \<in> {Zero, Any1}"
  using digits_path(1) [of cs ty] by (cases "c = CHR ''0''") (auto simp: num_start_def)

lemma scan_unsigned:
  assumes "follows rest" "lx_at l (nat_to_string (unat n) @ rest)"
  shows "\<exists>l'. scan l = (TUnsigned n, l') \<and> lx_at l' rest"
proof -
  obtain c cs where s: "nat_to_string (unat n) = c # cs" "isdigit c" "\<forall>x \<in> set cs. isdigit x" "c = CHR ''0'' \<longrightarrow> cs = []"
    using nat_to_string_hd by blast
  obtain q where q: "num_path (num_start c) Unsigned cs = Some (q, Unsigned)" "q \<in> {Zero, Any1}" using digits_start [OF s(2-4)] by blast
  have "number_token Unsigned (nat_to_string (unat n)) = TUnsigned n" by (simp add: number_token_def Let_def)
  then show ?thesis using scan_number_text [OF s(1) disjI2 [OF s(2)] q(1) follows_stops assms(2)] assms(1) q(2) by auto
qed

lemma scan_signed:
  assumes "follows rest" "sint i < 0" "lx_at l (CHR ''-'' # nat_to_string (nat (- sint i)) @ rest)"
  shows "\<exists>l'. scan l = (TInteger i, l') \<and> lx_at l' rest"
proof -
  let ?n = "nat (- sint i)"
  obtain c cs where s: "nat_to_string ?n = c # cs" "isdigit c" "\<forall>x \<in> set cs. isdigit x" "c = CHR ''0'' \<longrightarrow> cs = []"
    using nat_to_string_hd by blast
  obtain q where q: "num_path (num_start c) Integer cs = Some (q, Integer)" "q \<in> {Zero, Any1}" using digits_start [OF s(2-4)] by blast
  have "c \<noteq> CHR ''-''" using s(2) by auto
  then have "num_goto Minus c = Some (num_start c)" using s(2) by (simp add: num_start_def)
  then have path: "num_path (num_start (CHR ''-'')) Unsigned (nat_to_string ?n) = Some (q, Integer)"
    using q(1) s(1) by (simp add: num_start_def)
  have "- (2 ^ 63) \<le> sint i" using sint_greater_eq [of i] by simp
  then have "?n \<le> 2 ^ 63" by simp
  moreover have "- of_nat ?n = i" using remove_sign_abs [OF assms(2)] by (metis add.inverse_inverse of_nat_unat ucast_id)
  ultimately have "number_token Integer (CHR ''-'' # nat_to_string ?n) = TInteger i" by (simp add: number_token_def)
  then show ?thesis
    using scan_number_text [OF refl disjI1 [OF refl] path follows_stops, of rest l] assms(1,3) q(2) by auto
qed

lemma scan_float:
  assumes "follows rest" "dump_float x = Inr out" "f64_is_finite x" "lx_at l (out @ rest)"
  shows "\<exists>l'. scan l = (TFloat x, l') \<and> lx_at l' rest"
proof -
  have "f64_exp x \<noteq> 2047" using assms(3) by (simp add: f64_is_finite_def)
  from to_chars_reads_back [OF this] obtain ip fp ex where
    t: "to_chars x = Some (sign_text (bit x 63) @ number_text ip fp ex)" "number_ok ip fp ex" "fp \<noteq> [] \<or> ex \<noteq> None"
      "strtod_number (sign_text (bit x 63) @ number_text ip fp ex) = x" by blast
  have out: "out = sign_text (bit x 63) @ number_text ip fp ex" using assms(2,3) t(1) by (simp add: dump_float_def)
  obtain c cs where ip: "ip = c # cs" using t(2) by (cases ip) (auto simp: number_ok_def)
  have c: "isdigit c" using t(2) ip by (simp add: number_ok_def)
  have nt: "number_text ip fp ex = c # tl (number_text ip fp ex)" by (simp add: number_text_def ip)
  have tok: "number_token Float out = TFloat x" using t(4) out by (simp add: number_token_def)
  show ?thesis
  proof (cases "bit x 63")
    case False
    then have o: "out = c # tl (number_text ip fp ex)" using out nt by (simp add: sign_text_def)
    obtain q where q: "num_path (num_start c) Unsigned (tl (number_text ip fp ex)) = Some (q, Float)" "q \<in> {Decimal2, Any2}"
      using number_path [OF t(2,3) ip] by blast
    show ?thesis using scan_number_text [OF o disjI2 [OF c] q(1) follows_stops assms(4)] assms(1) q(2) tok by auto
  next
    case True
    then have o: "out = CHR ''-'' # c # tl (number_text ip fp ex)" using out nt by (simp add: sign_text_def)
    obtain q where q: "num_path (num_start c) Integer (tl (number_text ip fp ex)) = Some (q, Float)" "q \<in> {Decimal2, Any2}"
      using number_path [OF t(2,3) ip] by blast
    have "c \<noteq> CHR ''-''" using c by auto
    then have "num_goto Minus c = Some (num_start c)" using c by (simp add: num_start_def)
    then have "num_path (num_start (CHR ''-'')) Unsigned (c # tl (number_text ip fp ex)) = Some (q, Float)"
      using q(1) by (simp add: num_start_def)
    then show ?thesis using scan_number_text [OF o disjI1 [OF refl] _ follows_stops assms(4)] assms(1) q(2) tok by auto
  qed
qed

end
