(* ===== verification/Json_Parser.thy ===== *)
theory Json_Parser
  imports Json_Lexer
begin

text \<open>
  The parser of \<open>json.hpp\<close> (class \<open>detail::parser\<close> with \<open>json_sax_dom_parser\<close>): the loop of \<open>sax_parse_internal\<close>
  with its explicit stack.  A frame is an entry of \<open>states\<close> and of \<open>ref_stack\<close>: the container that is being
  filled, for an object with the key of the next element.  The source puts a container into its
  parent when it starts and fills it through a pointer; here it is put there when it ends, which gives
  the same value.
\<close>

section \<open>Errors\<close>

definition exception_message :: "token \<Rightarrow> token \<Rightarrow> string \<Rightarrow> lexer \<Rightarrow> string" where
  "exception_message last_token expected context l =
     ''syntax error while parsing '' @ context @ '' - '' @
     (if last_token = TError then lx_error l @ ''; last read: '' @ [CHR 0x27] @ get_token_string l @ [CHR 0x27]
      else ''unexpected '' @ token_type_name last_token) @
     (if expected \<noteq> TUninitialized then ''; expected '' @ token_type_name expected else [])"

definition parse_error :: "token \<Rightarrow> token \<Rightarrow> string \<Rightarrow> lexer \<Rightarrow> exn" where
  "parse_error last_token expected context l =
     JsonException (''[json.exception.parse_error.101] parse error at line '' @ nat_to_string (lx_lines l + 1) @
       '', column '' @ nat_to_string (lx_column l) @ '': '' @ exception_message last_token expected context l)"

definition number_overflow :: "lexer \<Rightarrow> exn" where
  "number_overflow l =
     JsonException (''[json.exception.out_of_range.406] number overflow parsing '' @ [CHR 0x27] @ get_token_string l @ [CHR 0x27])"

section \<open>The loop\<close>

datatype frame = InArray "json list" | InObject "(string \<times> json) list" string

text \<open>Why the loop ends: each iteration reads a token or hands a value over; at the end of the input there is no further one.\<close>

definition token_weight :: "token \<Rightarrow> nat" where
  "token_weight t = (if t = TEnd \<or> t = TError then 0 else 1)"

lemma scan_weight: "(t, l1) = scan l \<Longrightarrow> 2 * lx_left l1 + token_weight t < 2 * lx_left l + 1"
  using scan_left [of l t l1] by (auto simp: token_weight_def)

lemma scan_step: "(t, l1) = scan l \<Longrightarrow> t \<noteq> TEnd \<Longrightarrow> t \<noteq> TError \<Longrightarrow> lx_left l1 < lx_left l"
  using scan_left [of l t l1] by auto

text \<open>\<open>parse_value\<close> is an iteration that looks at \<open>last_token\<close>, \<open>value_done\<close> the evaluation of the state after a value.\<close>

function parse_value :: "token \<Rightarrow> lexer \<Rightarrow> frame list \<Rightarrow> (json \<times> lexer) res"
    and value_done :: "json \<Rightarrow> lexer \<Rightarrow> frame list \<Rightarrow> (json \<times> lexer) res" where
  "parse_value t l st =
     (case t of
        TBeginObject \<Rightarrow>
          (case scan l of (t1, l1) \<Rightarrow>
             if t1 = TEndObject then value_done (JObject []) l1 st
             else
               (case t1 of
                  TString k \<Rightarrow>
                    (case scan l1 of (t2, l2) \<Rightarrow>
                       if t2 \<noteq> TNameSep then Inl (parse_error t2 TNameSep ''object separator'' l2)
                       else (case scan l2 of (t3, l3) \<Rightarrow> parse_value t3 l3 (InObject [] k # st)))
                | _ \<Rightarrow> Inl (parse_error t1 (TString []) ''object key'' l1)))
      | TBeginArray \<Rightarrow>
          (case scan l of (t1, l1) \<Rightarrow>
             if t1 = TEndArray then value_done (JArray []) l1 st
             else parse_value t1 l1 (InArray [] # st))
      | TFloat x \<Rightarrow> if \<not> f64_is_finite x then Inl (number_overflow l) else value_done (JFloat x) l st
      | TFalse \<Rightarrow> value_done (JBool False) l st
      | TNull \<Rightarrow> value_done JNull l st
      | TTrue \<Rightarrow> value_done (JBool True) l st
      | TInteger i \<Rightarrow> value_done (JInt i) l st
      | TString s \<Rightarrow> value_done (JString s) l st
      | TUnsigned n \<Rightarrow> value_done (JUInt n) l st
      | TError \<Rightarrow> Inl (parse_error t TUninitialized ''value'' l)
      | _ \<Rightarrow> Inl (parse_error t TLiteralOrValue ''value'' l))"
| "value_done v l [] = Inr (v, l)"
| "value_done v l (InArray xs # st) =
     (case scan l of (t1, l1) \<Rightarrow>
        if t1 = TValueSep then (case scan l1 of (t2, l2) \<Rightarrow> parse_value t2 l2 (InArray (xs @ [v]) # st))
        else if t1 = TEndArray then value_done (JArray (xs @ [v])) l1 st
        else Inl (parse_error t1 TEndArray ''array'' l1))"
| "value_done v l (InObject m k # st) =
     (case scan l of (t1, l1) \<Rightarrow>
        if t1 = TValueSep then
          (case scan l1 of (t2, l2) \<Rightarrow>
             (case t2 of
                TString k' \<Rightarrow>
                  (case scan l2 of (t3, l3) \<Rightarrow>
                     if t3 \<noteq> TNameSep then Inl (parse_error t3 TNameSep ''object separator'' l3)
                     else (case scan l3 of (t4, l4) \<Rightarrow> parse_value t4 l4 (InObject (obj_put k v m) k' # st)))
              | _ \<Rightarrow> Inl (parse_error t2 (TString []) ''object key'' l2)))
        else if t1 = TEndObject then value_done (JObject (obj_put k v m)) l1 st
        else Inl (parse_error t1 TEndObject ''object'' l1))"
  by pat_completeness auto
termination
  by (relation "measure (\<lambda>x. case x of Inl (t, l, st) \<Rightarrow> 2 * lx_left l + token_weight t | Inr (v, l, st) \<Rightarrow> 2 * lx_left l)")
    (auto simp: token_weight_def dest!: scan_step scan_weight)

declare parse_value.simps [simp del] value_done.simps [simp del]

text \<open>\<open>basic_json::parse\<close>: the first token is read by the constructor; the whole input must be read.\<close>

definition json_parse :: "string \<Rightarrow> json res" where
  "json_parse s =
     (case scan (lx_new s) of (t, l) \<Rightarrow>
        bindR (parse_value t l []) (\<lambda>(v, l1).
          case scan l1 of (t1, l2) \<Rightarrow>
            if t1 \<noteq> TEnd then Inl (parse_error t1 TEnd ''value'' l2) else Inr v))"

end
