(* ===== verification/Json_Roundtrip.thy ===== *)
theory Json_Roundtrip
  imports Json_Tokens Json_Parser
begin

text \<open>
  Values of JSON: what \<open>dump\<close> wrote, \<open>parse\<close> reads back.
\<close>

section \<open>Values\<close>

text \<open>What a value is read back as: a non-negative \<open>number_integer\<close> is printed like a \<open>number_unsigned\<close>, and a
  \<open>number_float\<close> that is not finite as \<open>null\<close>.\<close>

fun reread :: "json \<Rightarrow> json" where
  "reread (JInt i) = (if sint i < 0 then JInt i else JUInt i)"
| "reread (JFloat x) = (if f64_is_finite x then JFloat x else JNull)"
| "reread (JArray xs) = JArray (map reread xs)"
| "reread (JObject m) = JObject (map (\<lambda>(k, v). (k, reread v)) m)"
| "reread j = j"

text \<open>\<open>std::map\<close> keeps the keys of an object in order.\<close>

fun objects_sorted :: "json \<Rightarrow> bool" where
  "objects_sorted (JArray xs) \<longleftrightarrow> (\<forall>x \<in> set xs. objects_sorted x)"
| "objects_sorted (JObject m) \<longleftrightarrow> sorted_wrt (<) (keys m) \<and> (\<forall>v \<in> snd ` set m. objects_sorted v)"
| "objects_sorted j \<longleftrightarrow> True"

lemma obj_put_last: "\<forall>k' \<in> set (keys m). k' < k \<Longrightarrow> obj_put k v m = m @ [(k, v)]"
proof (induction m)
  case (Cons p m)
  then show ?case by (cases p) (auto dest: less_imp_not_eq less_not_sym)
qed simp

lemma dump_scalar:
  assumes "dump j = Inr out" "follows rest" "lx_at l (out @ rest)" "\<nexists>xs. j = JArray xs" "\<nexists>m. j = JObject m"
  shows "\<exists>t l1. scan l = (t, l1) \<and> t \<noteq> TEndArray \<and> lx_at l1 rest \<and> (\<forall>st. parse_value t l1 st = value_done (reread j) l1 st)"
proof (cases j)
  case JNull
  then show ?thesis using assms(1,3) scan_word [of "''null''" TNull l rest] by (auto simp: parse_value.simps)
next
  case (JBool b)
  then show ?thesis using assms(1,3) scan_word [of "''true''" TTrue l rest] scan_word [of "''false''" TFalse l rest]
    by (cases b) (auto simp: parse_value.simps)
next
  case (JInt i)
  have buf: "length number_buffer = 64" by (simp add: number_buffer_def)
  show ?thesis
  proof (cases "sint i < 0")
    case True
    then show ?thesis using JInt assms(1-3) scan_signed [OF assms(2) True, of l]
      by (auto simp: dump_signed_text [OF buf] parse_value.simps)
  next
    case False
    then have "nat (sint i) = unat i" using sint_less [of i] by (simp add: uint_sint take_bit_int_eq_self flip: nat_uint_eq)
    then show ?thesis using False JInt assms(1-3) scan_unsigned [OF assms(2), of l i]
      by (auto simp: dump_signed_text [OF buf] parse_value.simps)
  qed
next
  case (JUInt n)
  then show ?thesis using assms(1,3) scan_unsigned [OF assms(2), of l n]
    by (auto simp: dump_unsigned_text number_buffer_def parse_value.simps)
next
  case (JFloat x)
  show ?thesis
  proof (cases "f64_is_finite x")
    case True
    then show ?thesis using JFloat assms(1,3) scan_float [OF assms(2) _ True, of out l] by (auto simp: parse_value.simps)
  next
    case False
    then show ?thesis using JFloat assms(1,3) scan_word [of "''null''" TNull l rest] by (auto simp: dump_float_def parse_value.simps)
  qed
next
  case (JString s)
  then obtain t where t: "dump_escaped s = Inr t" "out = quote # t @ [quote]"
    using assms(1) by (auto simp: bindR_def split: sum.splits)
  then show ?thesis using JString assms(3) scan_quoted [OF t(1), of l rest] by (auto simp: parse_value.simps)
qed (use assms in auto)

lemma bindR_Inr: "bindR x f = Inr y \<longleftrightarrow> (\<exists>z. x = Inr z \<and> f z = Inr y)"
  by (cases x) (simp_all add: bindR_def)

lemma dump_parse:
  "\<And>out rest l. dump j = Inr out \<Longrightarrow> objects_sorted j \<Longrightarrow> follows rest \<Longrightarrow> lx_at l (out @ rest) \<Longrightarrow>
     \<exists>t l1. scan l = (t, l1) \<and> t \<noteq> TEndArray \<and> (\<forall>st. \<exists>l2. parse_value t l1 st = value_done (reread j) l2 st \<and> lx_at l2 rest)"
  "\<And>out rest l. dump_elements xs = Inr out \<Longrightarrow> \<forall>x \<in> set xs. objects_sorted x \<Longrightarrow> xs \<noteq> [] \<Longrightarrow> lx_at l (out @ CHR '']'' # rest) \<Longrightarrow>
     \<exists>t l1. scan l = (t, l1) \<and> t \<noteq> TEndArray \<and>
       (\<forall>acc st. \<exists>l2. parse_value t l1 (InArray acc # st) = value_done (JArray (acc @ map reread xs)) l2 st \<and> lx_at l2 rest)"
  "\<And>out rest l. dump_members m = Inr out \<Longrightarrow> \<forall>v \<in> snd ` set m. objects_sorted v \<Longrightarrow> m \<noteq> [] \<Longrightarrow> lx_at l (out @ CHR ''}'' # rest) \<Longrightarrow>
     \<exists>k l1 l2 t l3. scan l = (TString k, l1) \<and> scan l1 = (TNameSep, l2) \<and> scan l2 = (t, l3) \<and>
       (\<forall>acc st. sorted_wrt (<) (keys acc @ keys m) \<longrightarrow>
          (\<exists>l4. parse_value t l3 (InObject acc k # st) = value_done (JObject (acc @ map (\<lambda>(k, v). (k, reread v)) m)) l4 st \<and> lx_at l4 rest))"
proof (induction j and xs and m rule: dump_dump_elements_dump_members.induct)
  case (7 xs)
  then obtain t where t: "dump_elements xs = Inr t" "out = CHR ''['' # t @ '']''" by (auto simp: bindR_Inr)
  then obtain l1 where l1: "scan l = (TBeginArray, l1)" "lx_at l1 (t @ CHR '']'' # rest)"
    using scan_punctuation [of "CHR ''[''" TBeginArray l "t @ CHR '']'' # rest"] 7(5) by (auto simp: punctuation_def)
  show ?case
  proof (cases "xs = []")
    case True
    then have "lx_at l1 (CHR '']'' # rest)" using l1(2) t(1) by simp
    then obtain l2 where "scan l1 = (TEndArray, l2)" "lx_at l2 rest"
      using scan_punctuation [of "CHR '']''" TEndArray] by (auto simp: punctuation_def)
    then show ?thesis using l1(1) True by (auto simp: parse_value.simps)
  next
    case False
    from 7(1) [OF t(1) _ False l1(2)] 7(3) obtain t1 l2 where
      e: "scan l1 = (t1, l2)" "t1 \<noteq> TEndArray"
        "\<forall>acc st. \<exists>l3. parse_value t1 l2 (InArray acc # st) = value_done (JArray (acc @ map reread xs)) l3 st \<and> lx_at l3 rest" by auto
    have "parse_value TBeginArray l1 st = parse_value t1 l2 (InArray [] # st)" for st using e(1,2) by (subst parse_value.simps) simp
    then show ?thesis using l1(1) e(3) [rule_format, of "[]"] by auto
  qed
next
  case (8 m)
  then obtain t where t: "dump_members m = Inr t" "out = CHR ''{'' # t @ ''}''" by (auto simp: bindR_Inr)
  then obtain l1 where l1: "scan l = (TBeginObject, l1)" "lx_at l1 (t @ CHR ''}'' # rest)"
    using scan_punctuation [of "CHR ''{''" TBeginObject l "t @ CHR ''}'' # rest"] 8(5) by (auto simp: punctuation_def)
  show ?case
  proof (cases "m = []")
    case True
    then have "lx_at l1 (CHR ''}'' # rest)" using l1(2) t(1) by simp
    then obtain l2 where "scan l1 = (TEndObject, l2)" "lx_at l2 rest"
      using scan_punctuation [of "CHR ''}''" TEndObject] by (auto simp: punctuation_def)
    then show ?thesis using l1(1) True by (auto simp: parse_value.simps)
  next
    case False
    from 8(1) [OF t(1) _ False l1(2)] 8(3) obtain k l2 l3 t1 l4 where
      e: "scan l1 = (TString k, l2)" "scan l2 = (TNameSep, l3)" "scan l3 = (t1, l4)"
        "\<forall>acc st. sorted_wrt (<) (keys acc @ keys m) \<longrightarrow>
          (\<exists>l5. parse_value t1 l4 (InObject acc k # st) = value_done (JObject (acc @ map (\<lambda>(k, v). (k, reread v)) m)) l5 st \<and> lx_at l5 rest)"
      by auto
    have "parse_value TBeginObject l1 st = parse_value t1 l4 (InObject [] k # st)" for st using e(1-3) by (subst parse_value.simps) simp
    then show ?thesis using l1(1) e(4) [rule_format, of "[]"] 8(3) by auto
  qed
next
  case (10 x xs)
  obtain tx where tx: "dump x = Inr tx" using 10(3) by (auto simp: bindR_Inr)
  show ?case
  proof (cases "xs = []")
    case True
    then have out: "out = tx" using 10(3) tx by (simp add: bindR_def)
    have "follows (CHR '']'' # rest)" by (simp add: follows_def)
    moreover have "objects_sorted x" "lx_at l (tx @ CHR '']'' # rest)" using 10(4,6) out by simp_all
    ultimately obtain t l1 where
      e: "scan l = (t, l1)" "t \<noteq> TEndArray" "\<forall>st. \<exists>l2. parse_value t l1 st = value_done (reread x) l2 st \<and> lx_at l2 (CHR '']'' # rest)"
      using 10(1) [OF tx] by blast
    have "\<exists>l2. parse_value t l1 (InArray acc # st) = value_done (JArray (acc @ [reread x])) l2 st \<and> lx_at l2 rest" for acc st
    proof -
      obtain l2 where l2: "parse_value t l1 (InArray acc # st) = value_done (reread x) l2 (InArray acc # st)" "lx_at l2 (CHR '']'' # rest)"
        using e(3) by blast
      then obtain l3 where "scan l2 = (TEndArray, l3)" "lx_at l3 rest"
        using scan_punctuation [of "CHR '']''" TEndArray] by (auto simp: punctuation_def)
      then show ?thesis using l2(1) by (auto simp: value_done.simps)
    qed
    then show ?thesis using e(1,2) True by auto
  next
    case False
    then obtain ts where ts: "dump_elements xs = Inr ts" "out = tx @ CHR '','' # ts" using 10(3) tx by (auto simp: bindR_Inr)
    have "follows (CHR '','' # ts @ CHR '']'' # rest)" by (simp add: follows_def)
    moreover have "objects_sorted x" "lx_at l (tx @ CHR '','' # ts @ CHR '']'' # rest)" using 10(4,6) ts(2) by simp_all
    ultimately obtain t l1 where
      e: "scan l = (t, l1)" "t \<noteq> TEndArray"
        "\<forall>st. \<exists>l2. parse_value t l1 st = value_done (reread x) l2 st \<and> lx_at l2 (CHR '','' # ts @ CHR '']'' # rest)"
      using 10(1) [OF tx] by blast
    have "\<exists>l2. parse_value t l1 (InArray acc # st) = value_done (JArray (acc @ map reread (x # xs))) l2 st \<and> lx_at l2 rest" for acc st
    proof -
      obtain l2 where l2: "parse_value t l1 (InArray acc # st) = value_done (reread x) l2 (InArray acc # st)"
          "lx_at l2 (CHR '','' # ts @ CHR '']'' # rest)"
        using e(3) by blast
      then obtain l3 where l3: "scan l2 = (TValueSep, l3)" "lx_at l3 (ts @ CHR '']'' # rest)"
        using scan_punctuation [of "CHR '',''" TValueSep] by (auto simp: punctuation_def)
      have "\<forall>x \<in> set xs. objects_sorted x" using 10(4) by simp
      from 10(2) [OF tx False ts(1) this False l3(2)] obtain t1 l4 where
        t1: "scan l3 = (t1, l4)" and all: "\<forall>acc st. \<exists>l5. parse_value t1 l4 (InArray acc # st) =
            value_done (JArray (acc @ map reread xs)) l5 st \<and> lx_at l5 rest" by blast
      from all [rule_format, of "acc @ [reread x]" st] show ?thesis using l2(1) l3(1) t1 by (simp add: value_done.simps)
    qed
    then show ?thesis using e(1,2) by blast
  qed
next
  case (12 k x m)
  obtain tk tx where tkx: "dump_escaped k = Inr tk" "dump x = Inr tx" using 12(3) by (auto simp: bindR_Inr)
  define more where "more = (if m = [] then CHR ''}'' # rest else CHR '','' # (case dump_members m of Inr ts \<Rightarrow> ts) @ CHR ''}'' # rest)"
  have at: "lx_at l (quote # tk @ quote # CHR '':'' # tx @ more)"
    using 12(3,6) tkx by (auto simp: bindR_Inr more_def Let_def split: if_splits)
  obtain l1 where l1: "scan l = (TString k, l1)" "lx_at l1 (CHR '':'' # tx @ more)" using scan_quoted [OF tkx(1) at] by blast
  then obtain l2 where l2: "scan l1 = (TNameSep, l2)" "lx_at l2 (tx @ more)"
    using scan_punctuation [of "CHR '':''" TNameSep] by (auto simp: punctuation_def)
  have "follows more" by (simp add: follows_def more_def)
  from 12(1) [OF tkx(1) tkx(2) _ this l2(2)] 12(4) obtain t l3 where
    e: "scan l2 = (t, l3)" "\<forall>st. \<exists>l4. parse_value t l3 st = value_done (reread x) l4 st \<and> lx_at l4 more" by auto
  have "\<exists>l4. parse_value t l3 (InObject acc k # st) = value_done (JObject (acc @ map (\<lambda>(k, v). (k, reread v)) ((k, x) # m))) l4 st \<and> lx_at l4 rest"
    if sorted: "sorted_wrt (<) (keys acc @ keys ((k, x) # m))" for acc st
  proof -
    obtain l4 where l4: "parse_value t l3 (InObject acc k # st) = value_done (reread x) l4 (InObject acc k # st)" "lx_at l4 more" using e(2) by blast
    have put: "obj_put k (reread x) acc = acc @ [(k, reread x)]" using sorted by (intro obj_put_last) (auto simp: sorted_wrt_append)
    show ?thesis
    proof (cases "m = []")
      case True
      then obtain l5 where "scan l4 = (TEndObject, l5)" "lx_at l5 rest"
        using scan_punctuation [of "CHR ''}''" TEndObject] l4(2) by (auto simp: punctuation_def more_def)
      then show ?thesis using l4(1) True put by (auto simp: value_done.simps)
    next
      case False
      then obtain ts where ts: "dump_members m = Inr ts" using 12(3) tkx by (auto simp: bindR_Inr Let_def)
      then obtain l5 where l5: "scan l4 = (TValueSep, l5)" "lx_at l5 (ts @ CHR ''}'' # rest)"
        using scan_punctuation [of "CHR '',''" TValueSep] l4(2) False by (auto simp: punctuation_def more_def)
      have "\<forall>v \<in> snd ` set m. objects_sorted v" using 12(4) by simp
      from 12(2) [OF tkx refl False ts this False l5(2)] obtain k' l6 l7 t1 l8 where
        m: "scan l5 = (TString k', l6)" "scan l6 = (TNameSep, l7)" "scan l7 = (t1, l8)"
          "\<forall>acc st. sorted_wrt (<) (keys acc @ keys m) \<longrightarrow>
            (\<exists>l9. parse_value t1 l8 (InObject acc k' # st) = value_done (JObject (acc @ map (\<lambda>(k, v). (k, reread v)) m)) l9 st \<and> lx_at l9 rest)"
        by blast
      have "sorted_wrt (<) (keys (acc @ [(k, reread x)]) @ keys m)" using sorted by simp
      with m(4) obtain l9 where "parse_value t1 l8 (InObject (acc @ [(k, reread x)]) k' # st) =
          value_done (JObject ((acc @ [(k, reread x)]) @ map (\<lambda>(k, v). (k, reread v)) m)) l9 st" "lx_at l9 rest" by blast
      then show ?thesis using l4(1) l5(1) m(1-3) put by (auto simp: value_done.simps)
    qed
  qed
  then show ?case using l1(1) l2(1) e(1) by blast
qed (use dump_scalar in \<open>fastforce+\<close>)

lemma lx_new_at: "lx_at (lx_new s) s"
  by (simp add: lx_at_def lx_new_def lx_view_def)

text \<open>Every value whose objects are sorted, as all objects of the library are, is read back after it was printed.\<close>

lemma dump_reread:
  assumes "dump j = Inr s" and "objects_sorted j"
  shows "json_parse s = Inr (reread j)"
proof -
  have "lx_at (lx_new s) (s @ [])" using lx_new_at by simp
  from dump_parse(1) [OF assms(1,2) _ this] obtain t l1 where
    t: "scan (lx_new s) = (t, l1)" "\<forall>st. \<exists>l2. parse_value t l1 st = value_done (reread j) l2 st \<and> lx_at l2 []"
    by (auto simp: follows_def)
  then obtain l2 where l2: "parse_value t l1 [] = Inr (reread j, l2)" "lx_at l2 []"
    using t(2) [rule_format, of "[]"] by (auto simp: value_done.simps)
  then show ?thesis using t(1) lx_end [OF l2(2)] by (auto simp: json_parse_def bindR_def)
qed

end
