(* ===== verification/Json_Printable.thy ===== *)
theory Json_Printable
  imports Json_Roundtrip
begin

text \<open>
  The other direction: what the two functions throw, which values can be printed, and that every value that
  \<open>parse\<close> returns is one of them.
\<close>

section \<open>Failures\<close>

lemma parse_fails:
  "fails is_JsonException (parse_value t l st)" "fails is_JsonException (value_done v l st)"
proof (induction t l st and v l st rule: parse_value_value_done.induct)
  case (1 t l st)
  then show ?case
    by (subst parse_value.simps) (auto simp: fails_def parse_error_def number_overflow_def split: token.split prod.split if_splits)
next
  case (3 v l xs st)
  then show ?case by (subst value_done.simps) (auto simp: fails_def parse_error_def split: prod.split)
next
  case (4 v l m k st)
  then show ?case by (subst value_done.simps) (auto simp: fails_def parse_error_def split: prod.split token.split)
qed (simp add: fails_def value_done.simps)

lemma json_parse_fails: "fails is_JsonException (json_parse s)"
  using parse_fails(1) [of _ _ "[]"]
  by (auto simp: json_parse_def fails_def bindR_def parse_error_def split: prod.split sum.split)

lemma dump_bytes_fails: "fails is_JsonException (dump_bytes i q cs)"
  by (induction i q cs rule: dump_bytes.induct) (auto simp: fails_def bindR_def type_error_def Let_def split: sum.split)

lemma dump_escaped_fails: "fails is_JsonException (dump_escaped s)"
  using dump_bytes_fails [of 0 "(0, 0)" s] by (auto simp: dump_escaped_def fails_def bindR_def type_error_def split: sum.split)

lemma dump_float_ok: "\<exists>s. dump_float x = Inr s"
  using to_chars_reads_back [of x] by (auto simp: dump_float_def f64_is_finite_def)

lemma dump_fails:
  "fails is_JsonException (dump j)" "fails is_JsonException (dump_elements xs)" "fails is_JsonException (dump_members m)"
proof (induction j and xs and m rule: dump_dump_elements_dump_members.induct)
  case (5 x)
  then show ?case using dump_float_ok [of x] by (auto simp: fails_def)
next
  case (6 s)
  then show ?case using dump_escaped_fails [of s] by (auto simp: fails_def bindR_def split: sum.split)
next
  case (12 k x m)
  then show ?case using dump_escaped_fails [of k] by (auto simp: fails_def bindR_def Let_def split: sum.split)
qed (auto simp: fails_def bindR_def split: sum.split)

section \<open>A parsed value can be printed\<close>

text \<open>Whether bytes are accepted depends on the state alone.\<close>

definition utf8_step :: "nat \<Rightarrow> nat \<Rightarrow> nat" where
  "utf8_step q b = fst (utf8_decode (q, 0) b)"

fun utf8_run :: "nat \<Rightarrow> string \<Rightarrow> nat option" where
  "utf8_run q [] = Some q"
| "utf8_run q (c # cs) = (if utf8_step q (byte c) = 1 then None else utf8_run (utf8_step q (byte c)) cs)"

definition utf8_valid :: "string \<Rightarrow> bool" where
  "utf8_valid s \<longleftrightarrow> utf8_run 0 s = Some 0"

lemma decode_step: "fst (utf8_decode (q, cp) b) = utf8_step q b"
  by (simp add: utf8_step_def utf8_decode_def Let_def)

lemma utf8_run_append: "utf8_run q (s @ t) = Option.bind (utf8_run q s) (\<lambda>q'. utf8_run q' t)"
  by (induction s arbitrary: q) simp_all

lemma dump_bytes_run: "(\<exists>out. dump_bytes i (q, cp) s = Inr (out, st)) \<longleftrightarrow> utf8_run q s = Some st"
proof (induction s arbitrary: i q cp)
  case (Cons c s)
  obtain q' cp' where d: "utf8_decode (q, cp) (byte c) = (q', cp')" by force
  then have q': "utf8_step q (byte c) = q'" by (metis decode_step fst_conv)
  have "(\<exists>out. dump_bytes i (q, cp) (c # s) = Inr (out, st)) \<longleftrightarrow> q' \<noteq> 1 \<and> (\<exists>out. dump_bytes (i + 1) (q', cp') s = Inr (out, st))"
    by (auto simp: d Let_def type_error_def bindR_def split: sum.splits)
  then show ?case using Cons.IH by (simp add: q')
qed auto

lemma dump_escaped_iff: "(\<exists>out. dump_escaped s = Inr out) \<longleftrightarrow> utf8_valid s"
  unfolding utf8_valid_def dump_bytes_run [of 0 0 0 s 0, symmetric]
  by (auto simp: dump_escaped_def bindR_def type_error_def split: sum.splits if_splits)

lemma utf8_step_in_range:
  assumes "2 \<le> q" "q < 9" "state_ranges q = (lo, hi) # rs" "lo \<le> b" "b \<le> hi" "b < 256"
  shows "utf8_step q b \<noteq> 1"
proof -
  have s: "utf8_step q b = utf8_rows ! q ! ty" if "utf8d ! b = ty" "ty < 16" for ty
    using utf8_state [of q ty] that assms(2) by (simp add: utf8_step_def utf8_decode_def Let_def)
  have q: "q = 2 \<or> q = 3 \<or> q = 4 \<or> q = 5 \<or> q = 6 \<or> q = 7 \<or> q = 8" using assms(1,2) by linarith
  then have b: "0x80 \<le> b" "b < 0xC0" using assms(3-5) by (auto simp: state_ranges_def)
  then consider "b < 0x90" | "0x90 \<le> b" "b < 0xA0" | "0xA0 \<le> b" by linarith
  then show ?thesis
  proof cases
    case 1
    then show ?thesis using s [OF utf8_type(2) [OF b(1) 1]] q assms(3-5) by (auto simp: utf8_rows_def state_ranges_def)
  next
    case 2
    then show ?thesis using s [OF utf8_type(3) [OF 2]] q assms(3-5) by (auto simp: utf8_rows_def state_ranges_def)
  next
    case 3
    then show ?thesis using s [OF utf8_type(4) [OF 3 b(2)]] q assms(3-5) by (auto simp: utf8_rows_def state_ranges_def)
  qed
qed

lemma utf8_run_raw:
  "2 \<le> q \<Longrightarrow> q < 9 \<Longrightarrow> codep_ok q cp \<Longrightarrow> fits (state_ranges q) bs \<Longrightarrow> utf8_run q bs = Some 0"
proof (induction bs arbitrary: q cp)
  case Nil
  then have "state_ranges q = []" by (simp add: fits_def)
  then show ?case using Nil.prems(1,2)
    by (cases "q = 2 \<or> q = 3 \<or> q = 4 \<or> q = 5 \<or> q = 6 \<or> q = 7 \<or> q = 8") (auto simp: state_ranges_def)
next
  case (Cons c bs)
  obtain lo hi rs where r: "state_ranges q = (lo, hi) # rs" "lo \<le> byte c" "byte c \<le> hi" "fits rs bs"
    using Cons.prems(4) by (cases "state_ranges q") (auto simp: fits_def)
  have ne: "utf8_step q (byte c) \<noteq> 1" using utf8_step_in_range [OF Cons.prems(1,2) r(1-3) byte_less] .
  then obtain q' cp' where u: "utf8_decode (q, cp) (byte c) = (q', cp')" "state_ranges q' = rs" "q' = 0 \<or> 2 \<le> q' \<and> q' < 9" "codep_ok q' cp'"
    using utf8_next [OF Cons.prems(1-3) byte_less, of c] r(1) by (auto simp: decode_step)
  then have q': "utf8_step q (byte c) = q'" by (metis decode_step fst_conv)
  show ?case
  proof (cases "q' = 0")
    case True
    then have "bs = []" using r(4) u(2) by (simp add: state_ranges_def)
    then show ?thesis using True q' by simp
  next
    case False
    then show ?thesis using Cons.IH [of q' cp'] u r(4) q' ne by simp
  qed
qed

lemma utf8_valid_char: "0x80 \<le> byte c \<Longrightarrow> utf8_ranges (byte c) = Some rs \<Longrightarrow> fits rs bs \<Longrightarrow> utf8_valid (c # bs)"
proof -
  assume a: "0x80 \<le> byte c" "utf8_ranges (byte c) = Some rs" "fits rs bs"
  then obtain q cp' where q: "utf8_decode (0, 0) (byte c) = (q, cp')" "2 \<le> q" "q < 9" "state_ranges q = rs" "codep_ok q cp'"
    using utf8_first [OF byte_less, of c 0] by (auto split: if_splits)
  then have "utf8_step 0 (byte c) = q" by (metis decode_step fst_conv)
  then show ?thesis using utf8_run_raw [OF q(2,3,5)] q a(3) by (simp add: utf8_valid_def)
qed

lemma utf8_valid_ascii: "byte c < 0x80 \<Longrightarrow> utf8_valid [c]"
  using utf8_first [OF byte_less, of c 0] by (simp add: utf8_valid_def utf8_step_def)

lemma utf8_valid_Nil [simp]: "utf8_valid []"
  by (simp add: utf8_valid_def)

lemma utf8_valid_append: "utf8_valid s \<Longrightarrow> utf8_valid t \<Longrightarrow> utf8_valid (s @ t)"
  by (simp add: utf8_valid_def utf8_run_append)

lemma utf8_encode_valid:
  assumes "cp < 0xD800 \<or> 0xE000 \<le> cp" "cp \<le> 0x10FFFF"
  shows "utf8_valid (utf8_encode cp)"
proof -
  define a b c where abc: "a = cp div 2 ^ 12" "b = cp div 2 ^ 6 mod 2 ^ 6" "c = cp mod 2 ^ 6"
  have bc: "b < 64" "c < 64" by (simp_all add: abc)
  have "cp = cp div 2 ^ 6 * 2 ^ 6 + c" "cp div 2 ^ 6 = cp div 2 ^ 6 div 2 ^ 6 * 2 ^ 6 + b" by (simp_all only: abc div_mult_mod_eq)
  moreover have "cp div 2 ^ 6 div 2 ^ 6 = a" by (simp add: abc div_mult2_eq [symmetric])
  ultimately have cp: "cp = a * 4096 + b * 64 + c" by simp
  consider "cp < 0x80" | "0x80 \<le> cp" "cp \<le> 0x7FF" | "0x7FF < cp" "cp \<le> 0xFFFF" | "0xFFFF < cp" by linarith
  then show ?thesis
  proof cases
    case 1
    then show ?thesis by (simp add: utf8_encode_def utf8_valid_ascii)
  next
    case 2
    then have d: "2 \<le> cp div 64" "cp div 64 < 32" by (simp_all add: less_eq_div_iff_mult_less_eq div_less_iff_less_mult)
    have e: "utf8_encode cp = [char_of (0xC0 + cp div 64), char_of (0x80 + c)]" using 2 by (simp add: utf8_encode_def abc)
    show ?thesis unfolding e by (rule utf8_valid_char [where rs = "[(0x80, 0xBF)]"]) (use d bc(2) in \<open>simp_all add: utf8_ranges_def\<close>)
  next
    case 3
    then have a: "a < 16" "a = 0 \<Longrightarrow> 32 \<le> b" "a = 13 \<Longrightarrow> b \<le> 31" using cp bc assms(1) by linarith+
    have e: "utf8_encode cp = [char_of (0xE0 + a), char_of (0x80 + b), char_of (0x80 + c)]"
      using 3 by (simp add: utf8_encode_def abc)
    show ?thesis unfolding e
      by (rule utf8_valid_char [where rs = "[if a = 0 then (0xA0, 0xBF) else if a = 13 then (0x80, 0x9F) else (0x80, 0xBF), (0x80, 0xBF)]"])
        (use a bc in \<open>simp_all add: utf8_ranges_def\<close>)
  next
    case 4
    define h m where hm: "h = a div 64" "m = a mod 64"
    have "a = h * 64 + m" by (simp only: hm div_mult_mod_eq)
    then have cp': "cp = h * 262144 + m * 4096 + b * 64 + c" "m < 64" using cp hm(2) by (linarith, simp)
    then have h: "h < 5" "h = 0 \<Longrightarrow> 16 \<le> m" "h = 4 \<Longrightarrow> m \<le> 15" using 4 bc assms(2) by linarith+
    have "h = cp div 2 ^ 18" by (simp add: hm abc div_mult2_eq [symmetric])
    then have e: "utf8_encode cp = [char_of (0xF0 + h), char_of (0x80 + m), char_of (0x80 + b), char_of (0x80 + c)]"
      using 4 by (simp add: utf8_encode_def abc hm)
    show ?thesis unfolding e
      by (rule utf8_valid_char [where rs = "[if h = 0 then (0x90, 0xBF) else if h = 4 then (0x80, 0x8F) else (0x80, 0xBF), (0x80, 0xBF), (0x80, 0xBF)]"])
        (use h bc cp'(2) in \<open>simp_all add: utf8_ranges_def\<close>)
  qed
qed

section \<open>Tokens\<close>

lemma get_codepoint_buffer: "get_codepoint_from fs n l = (r, l') \<Longrightarrow> lx_buffer l' = lx_buffer l"
proof (induction fs n l rule: get_codepoint_from.induct)
  case (2 f fs n l)
  then show ?case by (cases "hex_value (lx_current (lx_get l))") (auto simp: Let_def)
qed simp

lemma hex_value_less: "hex_value oc = Some v \<Longrightarrow> v < 16"
  by (auto simp: hex_value_def split: option.splits if_splits)

lemma get_codepoint_from_le: "get_codepoint_from fs n l = (Some m, l') \<Longrightarrow> m \<le> n + sum_list (map (\<lambda>f. 15 * 2 ^ f) fs)"
proof (induction fs n l rule: get_codepoint_from.induct)
  case (2 f fs n l)
  obtain v where v: "hex_value (lx_current (lx_get l)) = Some v" using "2.prems" by (auto simp: Let_def split: option.splits)
  then have "v * 2 ^ f \<le> 15 * 2 ^ f" using hex_value_less by (intro mult_le_mono1) fastforce
  moreover have "m \<le> n + v * 2 ^ f + sum_list (map (\<lambda>f. 15 * 2 ^ f) fs)"
    using "2.IH" [OF refl v] "2.prems" v by (simp add: Let_def)
  ultimately show ?case by (simp only: list.map sum_list.Cons)
qed simp

lemma get_codepoint_less: "get_codepoint l = (Some n, l') \<Longrightarrow> n < 0x10000"
  unfolding get_codepoint_def by (drule get_codepoint_from_le) simp

lemma scan_unicode_buffer:
  assumes "scan_unicode l = (True, l')"
  shows "\<exists>t. utf8_valid t \<and> lx_buffer l' = lx_buffer l @ t"
proof -
  obtain o1 l1 where g1: "get_codepoint l = (o1, l1)" by force
  have b1: "lx_buffer l1 = lx_buffer l" using g1 get_codepoint_buffer unfolding get_codepoint_def by blast
  obtain cp1 where o1: "o1 = Some cp1" using assms g1 by (cases o1) (simp_all add: scan_unicode_def)
  have lt1: "cp1 < 0x10000" using get_codepoint_less g1 o1 by blast
  show ?thesis
  proof (cases "0xD800 \<le> cp1 \<and> cp1 \<le> 0xDBFF")
    case True
    let ?l3 = "lx_get (lx_get l1)"
    obtain o2 l4 where g2: "get_codepoint ?l3 = (o2, l4)" by force
    have "lx_buffer l4 = lx_buffer ?l3" using g2 get_codepoint_buffer unfolding get_codepoint_def by blast
    then have b4: "lx_buffer l4 = lx_buffer l" using b1 by simp
    obtain cp2 where cp2: "o2 = Some cp2" "0xDC00 \<le> cp2" "cp2 \<le> 0xDFFF"
      and l': "l' = lx_add_all (utf8_encode (cp1 * 2 ^ 10 + cp2 - 0x35FDC00)) l4"
      using assms g1 o1 g2 True by (auto simp: scan_unicode_def Let_def split: if_splits option.splits)
    have "utf8_valid (utf8_encode (cp1 * 2 ^ 10 + cp2 - 0x35FDC00))"
      by (rule utf8_encode_valid) (use True cp2 in auto)
    then show ?thesis using l' b4 by simp
  next
    case False
    then have "l' = lx_add_all (utf8_encode cp1) l1" "\<not> (0xDC00 \<le> cp1 \<and> cp1 \<le> 0xDFFF)"
      using assms g1 o1 by (auto simp: scan_unicode_def split: if_splits)
    moreover have "utf8_valid (utf8_encode cp1)" by (rule utf8_encode_valid) (use False calculation lt1 in auto)
    ultimately show ?thesis using b1 by simp
  qed
qed

lemma scan_escape_buffer:
  assumes "scan_escape l = (True, l')"
  shows "\<exists>t. utf8_valid t \<and> lx_buffer l' = lx_buffer l @ t"
proof -
  have ascii: "utf8_valid [c]" if "c \<in> {quote, backslash, CHR ''/'', CHR 0x08, CHR 0x0C, CHR 0x0A, CHR 0x0D, CHR 0x09}" for c
    using that by (intro utf8_valid_ascii) (auto simp: byte_def quote_def backslash_def)
  obtain c where c: "lx_current (lx_get l) = Some c" using assms by (auto simp: scan_escape_def Let_def split: option.splits)
  show ?thesis
  proof (cases "c = CHR ''u''")
    case True
    then have "scan_unicode (lx_get l) = (True, l')" using assms c by (simp add: scan_escape_def Let_def quote_def backslash_def)
    then show ?thesis using scan_unicode_buffer by fastforce
  next
    case False
    then obtain x where "x \<in> {quote, backslash, CHR ''/'', CHR 0x08, CHR 0x0C, CHR 0x0A, CHR 0x0D, CHR 0x09}" "l' = lx_add x (lx_get l)"
      using assms c by (auto simp: scan_escape_def Let_def split: if_splits)
    then show ?thesis using ascii by auto
  qed
qed

lemma bytes_in_ranges_buffer: "bytes_in_ranges rs l = (True, l') \<Longrightarrow> \<exists>bs. fits rs bs \<and> lx_buffer l' = lx_buffer l @ bs"
proof (induction rs arbitrary: l)
  case (Cons p rs)
  obtain lo hi where p: "p = (lo, hi)" by force
  obtain c where c: "lx_current (lx_get l) = Some c" "lo \<le> byte c" "byte c \<le> hi" "bytes_in_ranges rs (lx_add c (lx_get l)) = (True, l')"
    using Cons.prems by (auto simp: p Let_def split: option.splits if_splits)
  from Cons.IH [OF c(4)] obtain bs where "fits rs bs" "lx_buffer l' = (lx_buffer l @ [c]) @ bs" by auto
  then show ?case using c by (intro exI [of _ "c # bs"]) (simp add: p)
qed simp

fun token_ok :: "token \<Rightarrow> bool" where
  "token_ok (TString s) \<longleftrightarrow> utf8_valid s"
| "token_ok t \<longleftrightarrow> True"

lemma scan_string_ok:
  "scan_string_from l = (t, l') \<Longrightarrow> utf8_valid (lx_buffer l) \<Longrightarrow> token_ok t"
proof (induction l arbitrary: t l' rule: scan_string_from.induct)
  case (1 l)
  let ?l1 = "lx_get l"
  note unfold = 1(3) [unfolded scan_string_from.simps [of l]]
  show ?case
  proof (cases "lx_current ?l1")
    case None
    then show ?thesis using unfold by (auto simp: lx_fail_def)
  next
    case (Some c)
    consider "c = quote" | (esc) "c = backslash" "c \<noteq> quote" | "c \<noteq> quote" "c \<noteq> backslash" "byte c < 0x20"
      | (raw) "c \<noteq> quote" "c \<noteq> backslash" "0x20 \<le> byte c" by linarith
    then show ?thesis
    proof cases
      case 1
      then show ?thesis using unfold Some \<open>utf8_valid (lx_buffer l)\<close> by auto
    next
      case esc
      obtain ok l2 where e: "scan_escape ?l1 = (ok, l2)" by force
      show ?thesis
      proof (cases ok)
        case True
        then have "utf8_valid (lx_buffer l2)" using e 1(4) scan_escape_buffer [of ?l1 l2] by (auto intro: utf8_valid_append)
        then show ?thesis using 1(1) [OF refl Some esc(2,1) e [symmetric] True] unfold Some esc e True by (auto simp: Let_def)
      next
        case False
        then show ?thesis using unfold Some esc e by (auto simp: Let_def)
      qed
    next
      case 3
      then show ?thesis using unfold Some by (auto simp: Let_def lx_fail_def)
    next
      case raw
      show ?thesis
      proof (cases "utf8_ranges (byte c)")
        case None
        then show ?thesis using unfold Some raw by (auto simp: Let_def lx_fail_def)
      next
        case (Some rs)
        obtain ok l2 where n: "next_byte_in_range c rs ?l1 = (ok, l2)" by force
        show ?thesis
        proof (cases ok)
          case True
          then obtain bs where bs: "fits rs bs" "lx_buffer l2 = (lx_buffer l @ [c]) @ bs"
            using n bytes_in_ranges_buffer [of rs "lx_add c ?l1" l2] by (auto simp: next_byte_in_range_def)
          have "utf8_valid (c # bs)"
          proof (cases "byte c < 0x80")
            case True
            then have "rs = []" using Some raw by (auto simp: utf8_ranges_def split: if_splits)
            then show ?thesis using bs(1) True by (simp add: utf8_valid_ascii)
          qed (use utf8_valid_char Some bs(1) in auto)
          then have "utf8_valid (lx_buffer l2)" using utf8_valid_append [OF 1(4)] bs(2) by simp
          then show ?thesis
            using 1(2) [OF refl \<open>lx_current ?l1 = Some c\<close> raw(1,2) _ Some n [symmetric] True] unfold \<open>lx_current ?l1 = Some c\<close> Some raw n True
            by (auto simp: Let_def)
        next
          case False
          then show ?thesis using unfold \<open>lx_current ?l1 = Some c\<close> raw Some n by (auto simp: Let_def)
        qed
      qed
    qed
  qed
qed

lemma scan_literal_ok: "token_ok t \<Longrightarrow> scan_literal cs t l = (t', l') \<Longrightarrow> token_ok t'"
  by (induction cs arbitrary: l) (auto simp: Let_def lx_fail_def split: if_splits)

lemma number_token_ok: "token_ok (number_token ty s)"
  by (auto simp: number_token_def Let_def split: num_type.split)

lemma scan_number_ok: "scan_number_from q ty l = (t, l') \<Longrightarrow> token_ok t"
proof (induction q ty l arbitrary: t l' rule: scan_number_from.induct)
  case (1 q ty l)
  show ?case
  proof (cases "Option.bind (lx_current (lx_get l)) (\<lambda>c. map_option (Pair c) (num_goto q c))")
    case None
    then show ?thesis using 1(2)
      by (auto simp: scan_number_from.simps [of q ty l] lx_fail_def scan_number_done_def Let_def number_token_ok split: option.splits)
  next
    case (Some p)
    then show ?thesis using 1(1) [OF refl refl Some, of "fst p" "snd p"] 1(2) by (cases p) (auto simp: scan_number_from.simps [of q ty l])
  qed
qed

lemma scan_ok: "scan l = (t, l') \<Longrightarrow> token_ok t"
proof -
  have "scan_token l = (t, l') \<Longrightarrow> token_ok t" for l
    using scan_string_ok [of "lx_reset l" t l'] scan_number_ok [of _ _ "lx_add _ (lx_reset l)" t l']
      scan_literal_ok [of TTrue "''rue''" l t l'] scan_literal_ok [of TFalse "''alse''" l t l'] scan_literal_ok [of TNull "''ull''" l t l']
    by (auto simp: scan_token_def lx_fail_def scan_string_def scan_number_def Let_def simp del: scan_literal.simps
        split: option.splits if_splits)
  then show "scan l = (t, l') \<Longrightarrow> ?thesis" by (auto simp: scan_def lx_fail_def split: prod.splits bool.splits)
qed

lemma scan_ok_string: "scan l = (TString s, l') \<Longrightarrow> utf8_valid s"
  using scan_ok [of l "TString s"] by simp

section \<open>Values\<close>

fun printable :: "json \<Rightarrow> bool" where
  "printable (JString s) \<longleftrightarrow> utf8_valid s"
| "printable (JArray xs) \<longleftrightarrow> (\<forall>x \<in> set xs. printable x)"
| "printable (JObject m) \<longleftrightarrow> (\<forall>k \<in> fst ` set m. utf8_valid k) \<and> (\<forall>v \<in> snd ` set m. printable v)"
| "printable j \<longleftrightarrow> True"

lemma dump_printable:
  "(\<exists>out. dump j = Inr out) \<longleftrightarrow> printable j"
  "(\<exists>out. dump_elements xs = Inr out) \<longleftrightarrow> (\<forall>x \<in> set xs. printable x)"
  "(\<exists>out. dump_members m = Inr out) \<longleftrightarrow> (\<forall>k \<in> fst ` set m. utf8_valid k) \<and> (\<forall>v \<in> snd ` set m. printable v)"
proof (induction j and xs and m rule: dump_dump_elements_dump_members.induct)
  case (5 x)
  then show ?case using dump_float_ok by simp
next
  case (6 s)
  then show ?case using dump_escaped_iff [of s] by (auto simp: bindR_Inr)
next
  case (10 x xs)
  then show ?case by (cases "dump x"; cases "xs = []") (auto simp: bindR_Inr bindR_def split: sum.splits)
next
  case (12 k x m)
  then show ?case using dump_escaped_iff [of k]
    by (cases "dump_escaped k"; cases "dump x"; cases "m = []") (auto simp: bindR_Inr bindR_def Let_def split: sum.splits)
qed (auto simp: bindR_Inr)

fun frame_ok :: "frame \<Rightarrow> bool" where
  "frame_ok (InArray xs) \<longleftrightarrow> printable (JArray xs) \<and> objects_sorted (JArray xs)"
| "frame_ok (InObject m k) \<longleftrightarrow> printable (JObject m) \<and> objects_sorted (JObject m) \<and> utf8_valid k"

lemma obj_put_members: "set (obj_put k v m) \<subseteq> insert (k, v) (set m)"
  by (induction k v m rule: obj_put.induct) auto

lemma obj_put_ok:
  assumes "frame_ok (InObject m k)" "printable v" "objects_sorted v"
  shows "printable (JObject (obj_put k v m))" "objects_sorted (JObject (obj_put k v m))"
proof -
  show "printable (JObject (obj_put k v m))" using assms obj_put_members [of k v m] by (auto dest: subsetD)
  have "sorted_wrt (<) (keys (obj_put k v m))"
    using assms(1) obj_put_sorted [of m k v] by (simp add: strict_sorted_iff)
  then show "objects_sorted (JObject (obj_put k v m))" using assms obj_put_members [of k v m] by (auto dest: subsetD)
qed

lemma parse_ok:
  "parse_value t l st = Inr (j, l') \<Longrightarrow> token_ok t \<Longrightarrow> list_all frame_ok st \<Longrightarrow> printable j \<and> objects_sorted j"
  "value_done v l st = Inr (j, l') \<Longrightarrow> printable v \<Longrightarrow> objects_sorted v \<Longrightarrow> list_all frame_ok st \<Longrightarrow> printable j \<and> objects_sorted j"
proof (induction t l st and v l st rule: parse_value_value_done.induct)
  case (1 t l st)
  show ?case
  proof (cases t)
    case (TString s)
    then show ?thesis using 1 by (auto simp: parse_value.simps)
  next
    case TBeginArray
    then show ?thesis using 1 scan_ok [of l] by (auto simp: parse_value.simps [of TBeginArray l st] split: prod.splits if_splits)
  next
    case TBeginObject
    then show ?thesis using 1 scan_ok [of l] scan_ok
      by (auto dest: scan_ok_string simp: parse_value.simps [of TBeginObject l st] split: prod.splits if_splits token.splits)
  qed (use 1 in \<open>auto simp: parse_value.simps split: if_splits\<close>)
next
  case (3 v l xs st)
  then show ?case using scan_ok by (auto simp: value_done.simps split: prod.splits if_splits)
next
  case (4 v l m k st)
  then show ?case using scan_ok obj_put_ok [of m k v]
    by (auto dest: scan_ok_string simp: value_done.simps split: prod.splits if_splits token.splits)
qed (auto simp: value_done.simps)

text \<open>A parsed value can be printed, and the text is parsed to the same value again, up to the form of its numbers.\<close>

lemma json_parse_ok:
  assumes "json_parse s = Inr j"
  shows "printable j \<and> objects_sorted j"
proof -
  obtain t l where t: "scan (lx_new s) = (t, l)" by force
  obtain l1 where "parse_value t l [] = Inr (j, l1)"
    using assms t by (cases "parse_value t l []") (auto simp: json_parse_def bindR_Inr parse_error_def split: prod.splits if_splits)
  from parse_ok(1) [OF this scan_ok [OF t]] show ?thesis by simp
qed

end
