(* ===== verification/Json_Text.thy ===== *)
theory Json_Text
  imports Json_Printable Llm_Info
begin

text \<open>
  JSON text as the program uses it: the interface \<open>json_text\<close> provided by the lexer, parser and serialiser of
  \<open>json.hpp\<close>, and what a value or an \<open>LlmInfo\<close> keeps when it is written and read back.
\<close>

section \<open>UTF-8\<close>

text \<open>The Unicode scalar values, and the strings that are UTF-8: the encodings of sequences of them.\<close>

definition scalar :: "nat \<Rightarrow> bool" where
  "scalar cp \<longleftrightarrow> (cp < 0xD800 \<or> 0xE000 \<le> cp) \<and> cp \<le> 0x10FFFF"

definition utf8_text :: "string \<Rightarrow> bool" where
  "utf8_text s \<longleftrightarrow> (\<exists>cps. (\<forall>cp \<in> set cps. scalar cp) \<and> s = concat (map utf8_encode cps))"

lemma utf8_text_valid: "utf8_text s \<Longrightarrow> utf8_valid s"
proof -
  have "utf8_valid (concat (map utf8_encode cps))" if "\<forall>cp \<in> set cps. scalar cp" for cps
    using that by (induction cps) (auto simp: scalar_def intro: utf8_valid_append utf8_encode_valid)
  then show "utf8_text s \<Longrightarrow> ?thesis" by (auto simp: utf8_text_def)
qed

lemma utf8_text_Cons: "scalar cp \<Longrightarrow> utf8_text s \<Longrightarrow> utf8_text (utf8_encode cp @ s)"
  unfolding utf8_text_def by (metis list.simps(9) concat.simps(2) set_ConsD)

lemma fits_Cons: "fits ((lo, hi) # rs) bs \<longleftrightarrow> (\<exists>b bs'. bs = b # bs' \<and> lo \<le> byte b \<and> byte b \<le> hi \<and> fits rs bs')"
  by (cases bs) (auto simp: fits_def)

lemma fits_Nil: "fits [] bs \<longleftrightarrow> bs = []"
  by (auto simp: fits_def)

lemma char_of_byte_eq: "byte c = n \<Longrightarrow> char_of n = c"
  by (metis byte_char_of byte_inject byte_less)

lemma split64: "y < 64 \<Longrightarrow> (x * 64 + y) div 64 = x \<and> (x * 64 + y) mod 64 = (y :: nat)"
  by auto

lemma encode_two: "0xC2 \<le> byte c \<Longrightarrow> byte c \<le> 0xDF \<Longrightarrow> 0x80 \<le> byte d \<Longrightarrow> byte d \<le> 0xBF \<Longrightarrow> \<exists>cp. scalar cp \<and> utf8_encode cp = [c, d]"
proof -
  assume "0xC2 \<le> byte c" "byte c \<le> 0xDF" "0x80 \<le> byte d" "byte d \<le> 0xBF"
  then obtain x y where xy: "byte c = 0xC0 + x" "byte d = 0x80 + y" "2 \<le> x" "x < 32" "y < 64"
    using le_Suc_ex [of "0xC0" "byte c"] le_Suc_ex [of "0x80" "byte d"] by auto
  let ?cp = "x * 64 + y"
  have "?cp div 64 = x" "?cp mod 64 = y" "128 \<le> ?cp" "?cp < 2048" using xy by auto
  then show ?thesis using xy by (intro exI [of _ ?cp]) (simp add: utf8_encode_def scalar_def char_of_byte_eq)
qed

lemma encode_three:
  assumes "0xE0 \<le> byte c" "byte c \<le> 0xEF" "0x80 \<le> byte d" "byte d \<le> 0xBF" "0x80 \<le> byte e" "byte e \<le> 0xBF"
    and "byte c = 0xE0 \<Longrightarrow> 0xA0 \<le> byte d" "byte c = 0xED \<Longrightarrow> byte d \<le> 0x9F"
  shows "\<exists>cp. scalar cp \<and> utf8_encode cp = [c, d, e]"
proof -
  obtain x y z where xyz: "byte c = 0xE0 + x" "byte d = 0x80 + y" "byte e = 0x80 + z" "x < 16" "y < 64" "z < 64"
    using assms(1-6) le_Suc_ex [of "0xE0" "byte c"] le_Suc_ex [of "0x80" "byte d"] le_Suc_ex [of "0x80" "byte e"] by auto
  have r: "x = 0 \<Longrightarrow> 32 \<le> y" "x = 13 \<Longrightarrow> y < 32" using assms(7,8) xyz by auto
  let ?cp = "(x * 64 + y) * 64 + z"
  have "?cp div 64 = x * 64 + y" "?cp mod 64 = z" "(x * 64 + y) mod 64 = y" "(x * 64 + y) div 64 = x" using xyz split64 by blast+
  moreover have "?cp div 4096 = ?cp div 64 div 64" by (simp only: div_mult2_eq [symmetric]) simp
  moreover have "2048 \<le> ?cp" using r(1) by (cases "x = 0") auto
  moreover have "?cp < 65536" using xyz by auto
  moreover have "?cp < 0xD800 \<or> 0xE000 \<le> ?cp"
  proof -
    consider "x \<le> 12" | "x = 13" | "14 \<le> x" by linarith
    then show ?thesis by cases (use r(2) xyz in auto)
  qed
  ultimately show ?thesis using xyz by (intro exI [of _ ?cp]) (simp add: utf8_encode_def scalar_def char_of_byte_eq)
qed

lemma encode_four:
  assumes "0xF0 \<le> byte c" "byte c \<le> 0xF4" "0x80 \<le> byte d" "byte d \<le> 0xBF" "0x80 \<le> byte e" "byte e \<le> 0xBF" "0x80 \<le> byte f" "byte f \<le> 0xBF"
    and "byte c = 0xF0 \<Longrightarrow> 0x90 \<le> byte d" "byte c = 0xF4 \<Longrightarrow> byte d \<le> 0x8F"
  shows "\<exists>cp. scalar cp \<and> utf8_encode cp = [c, d, e, f]"
proof -
  obtain x y z u where xyz: "byte c = 0xF0 + x" "byte d = 0x80 + y" "byte e = 0x80 + z" "byte f = 0x80 + u" "x < 5" "y < 64" "z < 64" "u < 64"
    using assms(1-8) le_Suc_ex [of "0xF0" "byte c"] le_Suc_ex [of "0x80" "byte d"] le_Suc_ex [of "0x80" "byte e"] le_Suc_ex [of "0x80" "byte f"]
    by auto
  have r: "x = 0 \<Longrightarrow> 16 \<le> y" "x = 4 \<Longrightarrow> y < 16" using assms(9,10) xyz by auto
  let ?xy = "x * 64 + y" let ?xyz = "?xy * 64 + z" let ?cp = "?xyz * 64 + u"
  have "?cp div 64 = ?xyz" "?cp mod 64 = u" "?xyz mod 64 = z" "?xyz div 64 = ?xy" "?xy mod 64 = y" "?xy div 64 = x" using xyz split64 by blast+
  moreover have "?cp div 4096 = ?cp div 64 div 64" "?cp div 262144 = ?cp div 64 div 64 div 64"
    by (simp_all only: div_mult2_eq [symmetric]) simp_all
  moreover have "65536 \<le> ?cp" using r(1) by (cases "x = 0") auto
  moreover have "?cp \<le> 0x10FFFF" using r(2) xyz by (cases "x = 4") auto
  ultimately show ?thesis using xyz by (intro exI [of _ ?cp]) (simp add: utf8_encode_def scalar_def char_of_byte_eq)
qed

lemma raw_char_encoded:
  assumes "0x80 \<le> byte c" "utf8_ranges (byte c) = Some rs" "fits rs bs"
  shows "\<exists>cp. scalar cp \<and> utf8_encode cp = c # bs"
proof -
  consider "0xC2 \<le> byte c" "byte c \<le> 0xDF" | "0xE0 \<le> byte c" "byte c \<le> 0xEF" | "0xF0 \<le> byte c" "byte c \<le> 0xF4"
    using assms(1,2) by (auto simp: utf8_ranges_def split: if_splits)
  then show ?thesis
  proof cases
    case 1
    then obtain d where "bs = [d]" "0x80 \<le> byte d" "byte d \<le> 0xBF"
      using assms(2,3) by (auto simp: utf8_ranges_def fits_Cons fits_Nil)
    then show ?thesis using encode_two [OF 1] by blast
  next
    case 2
    obtain d e where "bs = [d, e]" "0x80 \<le> byte d" "byte d \<le> 0xBF" "0x80 \<le> byte e" "byte e \<le> 0xBF"
      "byte c = 0xE0 \<Longrightarrow> 0xA0 \<le> byte d" "byte c = 0xED \<Longrightarrow> byte d \<le> 0x9F"
      using 2 assms(2,3) by (auto simp: utf8_ranges_def fits_Cons fits_Nil split: if_splits)
    then show ?thesis using encode_three [OF 2] by blast
  next
    case 3
    obtain d e f where "bs = [d, e, f]" "0x80 \<le> byte d" "byte d \<le> 0xBF" "0x80 \<le> byte e" "byte e \<le> 0xBF" "0x80 \<le> byte f" "byte f \<le> 0xBF"
      "byte c = 0xF0 \<Longrightarrow> 0x90 \<le> byte d" "byte c = 0xF4 \<Longrightarrow> byte d \<le> 0x8F"
      using 3 assms(2,3) by (auto simp: utf8_ranges_def fits_Cons fits_Nil split: if_splits)
    then show ?thesis using encode_four [OF 3] by blast
  qed
qed

lemma utf8_valid_ascii_text: "\<forall>c \<in> set s. byte c < 0x80 \<Longrightarrow> utf8_valid s"
proof (induction s)
  case (Cons c s)
  then show ?case using utf8_valid_append [of "[c]" s] by (simp add: utf8_valid_ascii)
qed simp

lemma dump_bytes_text: "dump_bytes i (0, cp) s = Inr (out, 0) \<Longrightarrow> utf8_text s"
proof (induction "length s" arbitrary: i cp s out rule: less_induct)
  case less
  show ?case
  proof (cases s)
    case Nil
    then show ?thesis unfolding utf8_text_def by (intro exI [of _ "[]"]) simp
  next
    case (Cons c cs)
    from dump_cases [OF less.prems [unfolded Cons]] show ?thesis
    proof (elim disjE exE conjE)
      fix out' i' cp'
      assume a: "byte c < 0x80" "dump_bytes i' (0, cp') cs = Inr (out', 0)"
      then have "scalar (byte c)" "utf8_encode (byte c) = [c]" by (simp_all add: scalar_def utf8_encode_def char_of_byte_eq)
      moreover have "utf8_text cs" using less.hyps [OF _ a(2)] Cons by simp
      ultimately show ?thesis using utf8_text_Cons [of "byte c" cs] Cons by simp
    next
      fix rs bs s' out' i' cp'
      assume a: "0x80 \<le> byte c" "utf8_ranges (byte c) = Some rs" "fits rs bs" "cs = bs @ s'" "dump_bytes i' (0, cp') s' = Inr (out', 0)"
      obtain cp where "scalar cp" "utf8_encode cp = c # bs" using raw_char_encoded [OF a(1-3)] by blast
      moreover have "utf8_text s'" using less.hyps [OF _ a(5)] Cons a(4) by simp
      ultimately show ?thesis using utf8_text_Cons [of cp s'] Cons a(4) by simp
    qed
  qed
qed

lemma utf8_valid_iff: "utf8_valid s \<longleftrightarrow> utf8_text s"
  using dump_bytes_run [of 0 0 0 s 0] dump_bytes_text utf8_text_valid by (auto simp: utf8_valid_def)

section \<open>The text form of the library\<close>

definition nlohmann_json :: json_text where
  "nlohmann_json = \<lparr>jparse = json_parse, jdump = dump\<rparr>"

lemma nlohmann_json_ok: "json_text_ok nlohmann_json"
  using json_parse_fails dump_fails(1) by (simp add: json_text_ok_def nlohmann_json_def)

text \<open>The values that are read back as they are: valid strings, sorted objects, and no number with two representations or
  without a text.\<close>

definition textual :: "json \<Rightarrow> bool" where
  "textual j \<longleftrightarrow> printable j \<and> objects_sorted j \<and> reread j = j"

lemma dump_textual: "textual j \<Longrightarrow> \<exists>t. dump j = Inr t \<and> json_parse t = Inr j"
  using dump_printable(1) [of j] dump_reread [of j] by (auto simp: textual_def)

lemma reread_idem: "reread (reread j) = reread j"
  by (induction j rule: reread.induct) (auto simp: case_prod_unfold)

lemma dump_same:
  "dump (reread j) = dump j" "dump_elements (map reread xs) = dump_elements xs"
  "dump_members (map (\<lambda>(k, v). (k, reread v)) m) = dump_members m"
proof (induction j and xs and m rule: dump_dump_elements_dump_members.induct)
  case (3 i)
  have buf: "length number_buffer = 64" by (simp add: number_buffer_def)
  have "\<not> sint i < 0 \<Longrightarrow> unat i = nat (sint i)"
    using sint_less [of i] by (simp add: uint_sint take_bit_int_eq_self flip: nat_uint_eq)
  then show ?case by (auto simp: dump_signed_text [OF buf] dump_unsigned_text [OF buf])
next
  case (5 x)
  then show ?case by (simp add: dump_float_def)
next
  case (10 x xs)
  then show ?case by (cases "dump x") (simp_all add: bindR_def)
next
  case (12 k x m)
  then show ?case by (cases "dump_escaped k"; cases "dump x"; cases "m = []") (simp_all add: bindR_def)
qed (simp_all add: bindR_def)

lemma reread_keeps:
  "printable j \<Longrightarrow> printable (reread j)" "objects_sorted j \<Longrightarrow> objects_sorted (reread j)"
  by (induction j rule: reread.induct) (auto simp: case_prod_unfold image_image comp_def)

lemma parse_textual: "json_parse s = Inr j \<Longrightarrow> textual (reread j)"
  using json_parse_ok [of s j] by (simp add: textual_def reread_idem reread_keeps)

section \<open>\<open>LlmInfo\<close>\<close>

definition llm_info_textual :: "llm_info \<Rightarrow> bool" where
  "llm_info_textual i \<longleftrightarrow> utf8_text (li_key i) \<and> textual (li_params i)"

lemma llm_info_text:
  assumes "llm_info_textual i"
  shows "\<exists>s. llm_info_to_string nlohmann_json i = Inr s \<and> llm_info_of nlohmann_json s = Inr i"
proof -
  let ?j = "JObject [(''key'', JString (li_key i)), (''params'', li_params i)]"
  have lt: "(''key'' :: string) < ''params''" by code_simp
  moreover have "utf8_valid ''key''" "utf8_valid ''params''" by (rule utf8_valid_ascii_text, simp add: byte_def)+
  ultimately have "textual ?j" using assms by (simp add: llm_info_textual_def textual_def utf8_valid_iff [symmetric])
  then obtain t where t: "dump ?j = Inr t" "json_parse t = Inr ?j" using dump_textual by blast
  then have hd: "hd t = CHR ''{''" "t \<noteq> []" by (auto simp: bindR_Inr simp del: dump_members.simps)
  have s: "llm_info_to_string nlohmann_json i = Inr t"
    using t(1) by (simp add: llm_info_to_string_def llm_info_json_eq nlohmann_json_def catchR_def del: dump.simps)
  have "llm_info_of nlohmann_json t = Inr i"
    by (rule llm_info_roundtrip [OF s _ hd]) (use t(2) in \<open>simp add: llm_info_json_eq nlohmann_json_def\<close>)
  then show ?thesis using s by blast
qed

section \<open>Properties\<close>

text \<open>C25. JSON text is stable: what \<open>parse\<close> accepts can be printed, the printed text is parsed to the same value (a \<open>-0\<close> loses its
  sign), and printing that value gives the same text again.\<close>

theorem json_text_stable:
  assumes "json_parse s = Inr j"
  shows "\<exists>t. dump j = Inr t \<and> json_parse t = Inr (reread j) \<and> dump (reread j) = Inr t"
  using json_parse_ok [OF assms] dump_printable(1) [of j] dump_reread [of j] dump_same(1) [of j] by auto

theorem json_text_stable_witness:
  "json_parse ''{}'' = Inr (JObject []) \<and> (\<exists>t. dump (JObject []) = Inr t \<and> json_parse t = Inr (JObject []) \<and> dump (JObject []) = Inr t)"
proof -
  have p: "json_parse ''{}'' = Inr (JObject [])" using dump_reread [of "JObject []" "''{}''"] by simp
  then show ?thesis using json_text_stable [OF p] by simp
qed

text \<open>C23. Round trip of values: a value whose strings are UTF-8 and whose objects are sorted is printed, and parsed again to the same value,
  up to a non-negative \<open>number_integer\<close>, which comes back as a \<open>number_unsigned\<close>, and a double that is not finite, which comes
  back as null.\<close>

theorem json_roundtrip:
  assumes "printable j" and "objects_sorted j"
  shows "\<exists>t. dump j = Inr t \<and> json_parse t = Inr (reread j)"
  using dump_printable(1) [of j] dump_reread [of j] assms by blast

theorem json_roundtrip_witness:
  "\<exists>t. dump (JObject [(''a'', JArray [JFloat 0x3FB999999999999A, JInt (- 7), JNull])]) = Inr t \<and>
     json_parse t = Inr (JObject [(''a'', JArray [JFloat 0x3FB999999999999A, JInt (- 7), JNull])])"
proof -
  let ?j = "JObject [(''a'', JArray [JFloat 0x3FB999999999999A, JInt (- 7), JNull])]"
  have "utf8_valid ''a''" by (rule utf8_valid_ascii_text) (simp add: byte_def)
  then have "printable ?j" "objects_sorted ?j" by simp_all
  moreover have "f64_is_finite 0x3FB999999999999A" by (simp add: f64_is_finite_def f64_exp_def)
  then have "reread ?j = ?j" by simp
  ultimately show ?thesis using json_roundtrip [of ?j] by simp
qed

text \<open>C24. Printing a finite double ends (the loops of Grisu2 have no bound of their own) with at most 24 characters, which fit into \<open>number_buffer\<close>
  (64), and the text is parsed to the same double, bit for bit.\<close>

theorem float_text:
  assumes "f64_exp x \<noteq> 2047"
  shows "\<exists>s. to_chars x = Some s \<and> length s \<le> 24 \<and> dump (JFloat x) = Inr s \<and> json_parse s = Inr (JFloat x)"
proof -
  obtain s where s: "to_chars x = Some s" using to_chars_reads_back [OF assms] by blast
  then have "dump (JFloat x) = Inr s" using assms by (simp add: dump_float_def f64_is_finite_def)
  then show ?thesis using s to_chars_length [OF assms s] dump_reread [of "JFloat x" s] assms by (simp add: f64_is_finite_def)
qed

theorem float_text_witness:
  "\<exists>s. to_chars 0x3FB999999999999A = Some s \<and> length s \<le> 24 \<and> dump (JFloat 0x3FB999999999999A) = Inr s \<and>
     json_parse s = Inr (JFloat 0x3FB999999999999A)"
proof (rule float_text)
  show "f64_exp 0x3FB999999999999A \<noteq> 2047" by (simp add: f64_exp_def)
qed

text \<open>C28. The integer printer of the library (digits counted by fours, written backwards two at a time into a buffer of any content) prints
  the decimal numeral of every 64-bit integer, the least one included.\<close>

theorem integer_text:
  assumes "length buf = 64"
  shows "dump_signed buf x = (if sint x < 0 then ''-'' else []) @ nat_to_string (nat \<bar>sint x\<bar>) \<and>
    dump_unsigned buf x = nat_to_string (unat x)"
  using dump_signed_text [OF assms, of x] dump_unsigned_text [OF assms, of x] by auto

theorem integer_text_witness:
  "dump_signed number_buffer (0x8000000000000000 :: 64 word) = ''-'' @ nat_to_string 9223372036854775808"
proof -
  have "sint (0x8000000000000000 :: 64 word) = - 9223372036854775808" by simp
  then show ?thesis using integer_text [of number_buffer "0x8000000000000000"] by (simp add: number_buffer_def)
qed

text \<open>C27. A string is printed iff it is UTF-8, the encoding of a sequence of Unicode scalar values (no surrogate, no overlong form, nothing
  above U+10FFFF); for any other string \<open>dump\<close> throws a \<open>json::exception\<close>.\<close>

theorem string_printed_iff_utf8:
  "if utf8_text s then \<exists>t. dump (JString s) = Inr t else \<exists>msg. dump (JString s) = Inl (JsonException msg)"
proof -
  have "fails is_JsonException (dump (JString s))" by (rule dump_fails)
  then have "(\<exists>t. dump (JString s) = Inr t) \<or> (\<exists>msg. dump (JString s) = Inl (JsonException msg))"
    by (cases "dump (JString s)") (auto simp: fails_def elim!: is_JsonException.elims)
  moreover have "(\<exists>t. dump (JString s) = Inr t) \<longleftrightarrow> utf8_text s" using dump_printable(1) [of "JString s"] by (simp add: utf8_valid_iff)
  ultimately show ?thesis by auto
qed

text \<open>C26. \<open>parse\<close> ends on every input, with a value that is well-formed (every string UTF-8, the keys of every object sorted and distinct) or
  with a \<open>json::exception\<close>; it never runs into undefined behaviour.\<close>

theorem parse_total:
  "case json_parse s of Inr j \<Rightarrow> printable j \<and> objects_sorted j | Inl e \<Rightarrow> is_JsonException e"
  using json_parse_fails [of s] json_parse_ok [of s] by (auto simp: fails_def split: sum.split)

text \<open>An \<open>LlmInfo\<close> survives its text form, in which the RDB file and the AOF keep it, when its key is UTF-8 and its parameters came
  from JSON text.\<close>

lemma llm_info_survives:
  assumes "utf8_text (li_key i)" and "json_parse s = Inr j" and "li_params i = reread j"
  shows "\<exists>t. llm_info_to_string nlohmann_json i = Inr t \<and> llm_info_of nlohmann_json t = Inr i"
  by (rule llm_info_text) (use assms parse_textual in \<open>simp add: llm_info_textual_def\<close>)

end
