(* ===== verification/Aof.thy ===== *)
theory Aof
  imports Command_Errors Json_Text
begin

text \<open>
  What the commands of a rewritten AOF do when the server replays them: an LLM is restored, an application
  and the items of a vector store are not, because their commands do not have the form the parsers take.
\<close>

lemma exec_add_withembedding:
  "exec_command X [''LLM.ADD'', key, ''--WITHEMBEDDING'', i, data, emb] st = (Inr RWrongArity, st)"
  by (simp add: exec_command_eq [OF find_command_simps(6)] add_command_def add_parse_withembedding)

lemma replay_ignored:
  assumes "\<And>argv st. argv \<in> set cmds \<Longrightarrow> exec_command X argv st = (Inr RWrongArity, st)"
  shows "replay X cmds st = (Inr (replicate (length cmds) RWrongArity), st)"
  using assms by (induction cmds) simp_all

text \<open>C18. AOF of an LLM: the command that is written for the model is accepted on a key that is free, and gives a model of the same type and
  configuration with the same implementation as at its creation.  The configuration is any value that its JSON text keeps,
  which every value parsed from a text is (up to \<open>-0\<close>).\<close>

theorem aof_restores_llm:
  assumes "llm_create (ex_json X) type conf = Inr lm" and "lm_type lm' = type" and "lm_conf lm' = conf"
    and "ex_json X = nlohmann_json" and "textual conf"
    and "rd_keys st key = None"
  shows "\<exists>cmds st'. aof_rewrite_llm (ex_json X) key lm' [] = (Inr (), cmds) \<and> replay X cmds st = (Inr [RLong 1], st') \<and>
    rd_keys st' = (rd_keys st)(key \<mapsto> RLlm (rd_next st)) \<and> rd_llms st' (rd_next st) = Some lm"
proof -
  obtain c where c: "jdump (ex_json X) conf = Inr c" "jparse (ex_json X) c = Inr conf"
    using dump_textual [OF assms(5)] assms(4) by (auto simp: nlohmann_json_def)
  let ?cmd = "[''LLM.CREATE-LLM'', key, ''--TYPE'', type, ''--PARAMS'', c]"
  have "aof_rewrite_llm (ex_json X) key lm' [] = (Inr (), [?cmd])"
    using assms(2,3) c(1) by (simp add: aof_rewrite_llm_def log_error_def aof_emit_def)
  moreover have "\<exists>st'. exec_command X ?cmd st = (Inr (RLong 1), st') \<and>
      rd_keys st' = (rd_keys st)(key \<mapsto> RLlm (rd_next st)) \<and> rd_llms st' (rd_next st) = Some lm"
    using assms(1,6) create_parse_type_params(1) [OF c(2)]
    by (simp add: exec_command_eq [OF find_command_simps(4)] create_llm_command_def create_object_def askS_def create_key_def key_exists_def
        create_llm_def replicate_cmd_def register_object_def set_value_def)
  ultimately show ?thesis by auto
qed

text \<open>C19. AOF of a vector store: the rewritten file creates the store and answers wrong arity to each of its items, so that the replay leaves an
  empty store, without the identifier counter and with a default LLM.\<close>

theorem aof_loses_items:
  fixes s :: "'g hnsw_ix vector_store" and X :: "('g, 'w) ext"
  assumes "store_live s" and "jdump (ex_json X) (vs_conf s) = Inr c" and "jparse (ex_json X) c = Inr (vs_conf s)"
    and "rd_keys st key = None"
  shows "\<exists>cmds st' s'. aof_rewrite_vector_store (store_ops X) (ex_json X) key s [] = (Inr (), cmds) \<and>
    replay X cmds st = (Inr (RLong 1 # replicate (length (vs_data s)) RWrongArity), st') \<and>
    key_store st' key (rd_next st) s' \<and> vs_data s' = [] \<and> vs_id_idx s' = 0 \<and> vs_conf s' = vs_conf s \<and> vs_llm s' = llm_info_default"
proof -
  let ?new = "[''LLM.CREATE-VECTOR-STORE'', key, ''--TYPE'', vs_type s, ''--PARAMS'', c]"
  let ?adds = "map (\<lambda>(i, data). [''LLM.ADD'', key, ''--WITHEMBEDDING'', u64_to_string i, data,
      dump_embedding (the (hx_vecs (vs_index s) i))]) (vs_data s)"
  have inv: "vs_inv hx_fresh hx_okay hx_vecs s" and ok: "store_ok s" using assms(1) by (simp_all add: store_live_def)
  have get: "vs_get (store_ops X) i s = Inr (Some (the (hx_vecs (vs_index s) i)))" if "(i, data) \<in> set (vs_data s)" for i data
  proof -
    have "distinct (keys (vs_data s))" using inv by (simp add: vs_inv_def)
    then have "map_of (vs_data s) i = Some data" using that by simp
    then show ?thesis using inv hx.get_refines [OF inv, of "ex_graph X" i]
      by (cases rule: vs_inv_cases [OF inv, of i]) (simp_all add: vs_items_def)
  qed
  have w: "aof_rewrite_vector_store (store_ops X) (ex_json X) key s [] = (Inr (), ?new # ?adds)"
    using assms(2) rewrite_items_eq [of "vs_data s" "store_ops X" s "\<lambda>i. the (hx_vecs (vs_index s) i)" key, OF get]
    by (simp add: aof_rewrite_vector_store_def log_error_def aof_emit_def)
  obtain opts where opts: "hnsw_parse_options (vs_conf s) = Inr opts" and ty: "vs_type s = ''hnsw''"
    using ok by (simp add: store_ok_def hx_conf_ok_def)
  obtain s0 :: "'g hnsw_ix vector_store" where s0: "vector_store_create ''hnsw'' (vs_conf s) llm_info_default = Inr s0"
    by (rule hnsw_create_live [OF opts])
  note f = vector_store_create_ok [OF s0]
  have "\<exists>st'. exec_command X ?new st = (Inr (RLong 1), st') \<and> key_store st' key (rd_next st) s0"
    using assms(4) create_parse_type_params(2) [OF assms(3)] s0
    by (simp add: exec_command_eq [OF find_command_simps(5)] create_vector_store_command_def create_object_def askS_def create_key_def
        key_exists_def create_vector_store_def replicate_cmd_def register_object_def set_value_def ty key_store_def)
  then obtain st1 where st1: "exec_command X ?new st = (Inr (RLong 1), st1)" "key_store st1 key (rd_next st) s0" by blast
  have "replay X ?adds st1 = (Inr (replicate (length ?adds) RWrongArity), st1)"
    by (rule replay_ignored) (auto simp: exec_add_withembedding)
  then have "replay X (?new # ?adds) st = (Inr (RLong 1 # replicate (length (vs_data s)) RWrongArity), st1)" using st1(1) by simp
  with w st1(2) f show ?thesis by blast
qed

theorem aof_restores_llm_witness:
  "\<exists>X :: (nat, unit) ext. \<exists>cmds st'. aof_rewrite_llm (ex_json X) ''n'' \<lparr>lm_type = ''llamacpp'', lm_conf = JObject [(''sub_type'', JString ''x'')],
       lm_impl = LlamaCpp ''x''\<rparr> [] = (Inr (), cmds) \<and> replay X cmds sample_redis = (Inr [RLong 1], st')"
proof -
  let ?conf = "JObject [(''sub_type'', JString ''x'')]"
  let ?lm = "\<lparr>lm_type = ''llamacpp'', lm_conf = ?conf, lm_impl = LlamaCpp ''x''\<rparr>"
  let ?X = "sample_ext\<lparr>ex_json := nlohmann_json\<rparr>"
  have "utf8_valid ''sub_type''" "utf8_valid ''x''" by (rule utf8_valid_ascii_text, simp add: byte_def)+
  then have "textual ?conf" by (simp add: textual_def)
  moreover have "llm_create (ex_json ?X) ''llamacpp'' ?conf = Inr ?lm" by (simp add: llm_create_def llama_create_def)
  moreover have "rd_keys sample_redis ''n'' = None" by (simp add: sample_redis_def)
  ultimately show ?thesis using aof_restores_llm [of ?X "''llamacpp''" ?conf ?lm ?lm sample_redis "''n''"] by (intro exI [of _ ?X]) auto
qed

theorem aof_loses_items_witness:
  "\<exists>s cmds st'. store_items s 7 = Some (''text'', [0x3F800000]) \<and>
    aof_rewrite_vector_store (store_ops sample_ext) (ex_json sample_ext) ''n'' s [] = (Inr (), cmds) \<and>
    replay sample_ext cmds sample_redis = (Inr [RLong 1, RWrongArity], st')"
proof -
  obtain s where add: "vs_add (hnsw_ops sample_graph) 7 ''text'' [0x3F800000] sample_store = (Inr 7, s)" and live: "store_live s"
    and items: "store_items s = (store_items sample_store)(7 \<mapsto> (''text'', [0x3F800000]))"
    by (rule vs_add_ok [OF sample_store_live _ sample_capacity(1), of sample_graph "[0x3F800000]" 7 "''text''"])
      (simp add: sample_capacity(2))
  have "vs_conf s = JObject []" using vs_add_frame [OF add] by (simp add: sample_store_def vs_create_def)
  moreover have "length (vs_data s) = 1" using add by (auto simp: sample_eval)
  moreover have "rd_keys sample_redis ''n'' = None" by (simp add: sample_redis_def)
  moreover have "jdump (ex_json sample_ext) (JObject []) = Inr ''{}''" "jparse (ex_json sample_ext) ''{}'' = Inr (JObject [])"
    by (simp_all add: sample_json_def)
  ultimately obtain cmds st' where "aof_rewrite_vector_store (store_ops sample_ext) (ex_json sample_ext) ''n'' s [] = (Inr (), cmds)"
    "replay sample_ext cmds sample_redis = (Inr [RLong 1, RWrongArity], st')"
    using aof_loses_items [OF live, of sample_ext "''{}''" sample_redis "''n''"] by auto
  then show ?thesis using items by (intro exI [of _ s]) auto
qed

end
