(* ===== verification/Http_Pool.thy ===== *)
theory Http_Pool
  imports Http_Client
begin

text \<open>
  \<open>HttpClientPool\<close> under concurrent use: threads that hold a client, threads that wait for one, and the
  pool, in any interleaving of the critical sections.
\<close>

record 'w pool_state =
  ps_pool :: http_pool
  ps_out :: "http_client list"
  ps_waiting :: nat
  ps_world :: 'w

text \<open>
  \<open>fetch\<close> gets a client, fails or begins to wait; a waiting thread wakes when the pool is not empty, or
  gives up after its timeout; a client in use is used and released.
\<close>

inductive pool_step :: "'w outside \<Rightarrow> 'w pool_state \<Rightarrow> 'w pool_state \<Rightarrow> bool" for W where
  fetch: "pool_fetch W (ps_pool s, ps_world s) = (Inr (Some cli), (p, w)) \<Longrightarrow>
    pool_step W s (s\<lparr>ps_pool := p, ps_world := w, ps_out := cli # ps_out s\<rparr>)"
| fetch_fails: "pool_fetch W (ps_pool s, ps_world s) = (Inl e, (p, w)) \<Longrightarrow>
    pool_step W s (s\<lparr>ps_pool := p, ps_world := w\<rparr>)"
| fetch_waits: "pool_fetch W (ps_pool s, ps_world s) = (Inr None, (p, w)) \<Longrightarrow>
    pool_step W s (s\<lparr>ps_pool := p, ps_world := w, ps_waiting := ps_waiting s + 1\<rparr>)"
| wake: "0 < ps_waiting s \<Longrightarrow> hp_pool (ps_pool s) \<noteq> [] \<Longrightarrow>
    pool_take W (ps_pool s, ps_world s) = (Inr cli, (p, w)) \<Longrightarrow>
    pool_step W s (s\<lparr>ps_pool := p, ps_world := w, ps_out := cli # ps_out s, ps_waiting := ps_waiting s - 1\<rparr>)"
| wake_fails: "0 < ps_waiting s \<Longrightarrow> hp_pool (ps_pool s) \<noteq> [] \<Longrightarrow>
    pool_take W (ps_pool s, ps_world s) = (Inl e, (p, w)) \<Longrightarrow>
    pool_step W s (s\<lparr>ps_pool := p, ps_world := w, ps_waiting := ps_waiting s - 1\<rparr>)"
| timeout: "0 < ps_waiting s \<Longrightarrow> 0 < po_wait_timeout (hp_pool_opts (ps_pool s)) \<Longrightarrow>
    pool_step W s (s\<lparr>ps_waiting := ps_waiting s - 1\<rparr>)"
| use: "ps_out s = xs @ cli # ys \<Longrightarrow> http_post W path headers body ct (cli, ps_world s) = (r, (cli', w)) \<Longrightarrow>
    pool_step W s (s\<lparr>ps_out := xs @ cli' # ys, ps_world := w\<rparr>)"
| release: "ps_out s = xs @ cli # ys \<Longrightarrow>
    pool_step W s (s\<lparr>ps_out := xs @ ys, ps_pool := pool_release cli (ps_pool s)\<rparr>)"

inductive_cases pool_stepE: "pool_step W s s'"

definition pool_start :: "http_pool \<Rightarrow> 'w \<Rightarrow> 'w pool_state" where
  "pool_start p w = \<lparr>ps_pool = p, ps_out = [], ps_waiting = 0, ps_world = w\<rparr>"

text \<open>Every client is in the pool or held; somebody waits only when the pool has made all its clients.\<close>

definition pool_state_inv :: "'w pool_state \<Rightarrow> bool" where
  "pool_state_inv s \<longleftrightarrow>
     pool_inv (ps_pool s) (length (ps_out s)) \<and>
     (0 < ps_waiting s \<longrightarrow> hp_used (ps_pool s) = po_size (hp_pool_opts (ps_pool s)))"

lemma pool_take_frame:
  "pool_take W (p, w) = (r, (p', w')) \<Longrightarrow> hp_used p' = hp_used p \<and> hp_pool_opts p' = hp_pool_opts p"
  by (erule pool_take_cases) (simp_all add: pool_release_def)

lemma pool_fetch_frame:
  assumes "pool_fetch W (p, w) = (r, (p', w'))"
  shows "hp_pool_opts p' = hp_pool_opts p \<and> (hp_used p = po_size (hp_pool_opts p) \<longrightarrow> hp_used p' = hp_used p)"
  using assms by (cases rule: pool_fetch_cases) (auto dest: pool_take_frame)

lemma pool_step_inv:
  assumes "pool_step W s s'" and inv: "pool_state_inv s"
  shows "pool_state_inv s'"
  using assms(1)
proof cases
  case (fetch cli p w)
  then show ?thesis using inv pool_fetch_inv [OF _ fetch(2)] pool_fetch_frame [OF fetch(2)]
    by (auto simp: pool_state_inv_def)
next
  case (fetch_fails e p w)
  then show ?thesis using inv pool_fetch_inv [OF _ fetch_fails(2)] pool_fetch_frame [OF fetch_fails(2)]
    by (auto simp: pool_state_inv_def)
next
  case (fetch_waits p w)
  then show ?thesis using inv pool_fetch_inv [OF _ fetch_waits(2)]
    by (auto simp: pool_state_inv_def word_unat_eq_iff)
next
  case (wake cli p w)
  then show ?thesis using inv pool_take_inv [OF _ wake(3,4)] pool_take_frame [OF wake(4)]
    by (auto simp: pool_state_inv_def)
next
  case (wake_fails e p w)
  then show ?thesis using inv pool_take_inv [OF _ wake_fails(3,4)] pool_take_frame [OF wake_fails(4)]
    by (auto simp: pool_state_inv_def)
next
  case timeout
  then show ?thesis using inv by (simp add: pool_state_inv_def)
next
  case (use xs cli ys path headers body ct r cli' w)
  then show ?thesis using inv by (simp add: pool_state_inv_def)
next
  case (release xs cli ys)
  then show ?thesis using inv pool_release_inv [of "ps_pool s" "length xs + length ys" cli]
    by (simp add: pool_state_inv_def) (simp add: pool_release_def)
qed

lemma pool_start_inv: "http_pool_new opts popts = Inr p \<Longrightarrow> pool_state_inv (pool_start p w)"
  by (simp add: pool_state_inv_def pool_start_def http_pool_new_inv)

lemma pool_reach_inv: "(pool_step W)\<^sup>*\<^sup>* s s' \<Longrightarrow> pool_state_inv s \<Longrightarrow> pool_state_inv s'"
  by (induction rule: rtranclp_induct) (auto dest: pool_step_inv)

text \<open>Nobody is stranded: when no client is held, a waiting thread finds one in the pool.\<close>

lemma pool_state_wakes:
  "pool_state_inv s \<Longrightarrow> 0 < ps_waiting s \<Longrightarrow> ps_out s = [] \<Longrightarrow> hp_pool (ps_pool s) \<noteq> []"
  by (auto simp: pool_state_inv_def pool_inv_def unat_gt_0 [symmetric])

lemma pool_step_opts: "pool_step W s s' \<Longrightarrow> hp_pool_opts (ps_pool s') = hp_pool_opts (ps_pool s)"
  by (erule pool_stepE) (auto dest: pool_fetch_frame pool_take_frame simp: pool_release_def)

lemma pool_reach_opts: "(pool_step W)\<^sup>*\<^sup>* s s' \<Longrightarrow> hp_pool_opts (ps_pool s') = hp_pool_opts (ps_pool s)"
  by (induction rule: rtranclp_induct) (auto dest: pool_step_opts)

section \<open>Properties\<close>

text \<open>C22. However threads fetch, use, release and wait, every connection is either in the pool or held by one
  thread, there are never more than \<open>size\<close> of them, a thread waits only when all of them exist, and when
  no thread holds a connection a waiting thread finds one in the pool.\<close>

theorem connections_bounded:
  assumes "http_pool_new opts popts = Inr p" and "(pool_step W)\<^sup>*\<^sup>* (pool_start p w) s"
  shows "unat (hp_used (ps_pool s)) = length (hp_pool (ps_pool s)) + length (ps_out s) \<and>
    length (hp_pool (ps_pool s)) + length (ps_out s) \<le> unat (po_size popts) \<and>
    (0 < ps_waiting s \<longrightarrow> hp_used (ps_pool s) = po_size popts) \<and>
    (0 < ps_waiting s \<and> ps_out s = [] \<longrightarrow> hp_pool (ps_pool s) \<noteq> [])"
proof -
  have "pool_state_inv s" by (rule pool_reach_inv [OF assms(2) pool_start_inv [OF assms(1)]])
  moreover have "hp_pool_opts (ps_pool s) = popts"
    using pool_reach_opts [OF assms(2)] assms(1) by (auto simp: pool_start_def http_pool_new_def split: if_splits)
  ultimately show ?thesis using pool_state_wakes [of s] by (auto simp: pool_state_inv_def pool_inv_def)
qed

theorem connections_bounded_witness:
  "\<exists>p s. http_pool_new http_opts_default \<lparr>po_size = 1, po_wait_timeout = 0, po_connection_lifetime = 0\<rparr> = Inr p \<and>
     (pool_step (sample_outside []))\<^sup>*\<^sup>* (pool_start p ()) s \<and> length (ps_out s) = 1 \<and> 0 < ps_waiting s \<and>
     hp_used (ps_pool s) = 1"
proof -
  let ?W = "sample_outside []" and ?po = "\<lparr>po_size = 1, po_wait_timeout = 0, po_connection_lifetime = 0\<rparr>"
  let ?cli = "\<lparr>hc_opts = http_opts_default, hc_create_time = 0, hc_handle = True\<rparr>"
  obtain p where p: "http_pool_new http_opts_default ?po = Inr p"
    "p = \<lparr>hp_opts = http_opts_default, hp_pool_opts = ?po, hp_pool = [], hp_used = 0\<rparr>"
    by (simp add: http_pool_new_def)
  let ?s1 = "(pool_start p ())\<lparr>ps_pool := p\<lparr>hp_used := 1\<rparr>, ps_world := (), ps_out := [?cli]\<rparr>"
  let ?s2 = "?s1\<lparr>ps_pool := ps_pool ?s1, ps_world := (), ps_waiting := ps_waiting ?s1 + 1\<rparr>"
  have "pool_fetch ?W (p, ()) = (Inr (Some ?cli), (p\<lparr>hp_used := 1\<rparr>, ()))"
    by (simp add: p(2) pool_fetch_def http_client_new_def make_client_def sample_outside_def bindS_def)
  then have "pool_step ?W (pool_start p ()) ?s1"
    using pool_step.fetch [of ?W "pool_start p ()" ?cli "p\<lparr>hp_used := 1\<rparr>" "()"] by (simp add: pool_start_def)
  moreover have "pool_fetch ?W (ps_pool ?s1, ()) = (Inr None, (ps_pool ?s1, ()))"
    by (simp add: p(2) pool_fetch_def)
  then have "pool_step ?W ?s1 ?s2"
    using pool_step.fetch_waits [of ?W ?s1 "ps_pool ?s1" "()"] by simp
  ultimately have r: "(pool_step ?W)\<^sup>*\<^sup>* (pool_start p ()) ?s2"
    by (meson rtranclp.rtrancl_into_rtrancl rtranclp.rtrancl_refl)
  have "hp_used (ps_pool ?s2) = 1" using connections_bounded [OF p(1) r] by simp
  with p(1) r show ?thesis by (intro exI [of _ p] exI [of _ ?s2]) (simp add: pool_start_def)
qed

end
