(* ===== verification/Hnsw_Graph.thy ===== *)
theory Hnsw_Graph
  imports Hnsw_Search
begin

text \<open>
  The proximity graph of \<open>hnswalg.h\<close>: link lists on every layer, the greedy descent, the choice of neighbours
  (\<open>getNeighborsByHeuristic2\<close>), the connection of a new element and the repair after an update.  It is an instance
  of \<open>graph_ops\<close>, the operations \<open>hnswlib_ops\<close>.

  What the code takes from outside is the record \<open>graph_env\<close>: the distance, the random level of an element (\<open>double\<close>
  arithmetic on \<open>std::default_random_engine\<close>), the order in which an \<open>std::unordered_set\<close> is iterated, and whether memory suffices.
  An error while the graph is changed is kept as the state of the graph.
\<close>

section \<open>State\<close>

record 'r graph_env =
  ge_dist :: metric
  ge_seed :: 'r
  ge_level :: "nat \<Rightarrow> 'r \<Rightarrow> int \<times> 'r"
  ge_order :: "nat list \<Rightarrow> nat list"
  ge_mem :: "nat \<Rightarrow> u64 \<Rightarrow> u64 \<Rightarrow> bool"

text \<open>\<open>M_\<close> (which is \<open>maxM_\<close>), \<open>maxM0_\<close>, \<open>ef_construction_\<close>, \<open>element_levels_\<close>, the link lists by element and layer,
  \<open>enterpoint_node_\<close>, \<open>maxlevel_\<close> (\<open>-1\<close> when there is no element) and the state of the generator.\<close>

record 'r graph =
  gr_M :: nat
  gr_maxM0 :: nat
  gr_efc :: nat
  gr_levels :: "nat list"
  gr_links :: "nat list list list"
  gr_enter :: nat
  gr_maxlevel :: int
  gr_random :: 'r

text \<open>The constructor; the product \<open>M_ * 2\<close> may wrap.\<close>

definition graph_new :: "'r graph_env \<Rightarrow> u64 \<Rightarrow> u64 \<Rightarrow> 'r graph" where
  "graph_new E m efc =
     \<lparr>gr_M = unat m, gr_maxM0 = unat (m * 2), gr_efc = unat (max efc m), gr_levels = [], gr_links = [],
      gr_enter = 0, gr_maxlevel = - 1, gr_random = ge_seed E\<rparr>"

text \<open>\<open>get_linklist_at_level\<close>: a list that does not exist is read out of bounds.\<close>

definition read_links :: "'r graph \<Rightarrow> nat \<Rightarrow> nat \<Rightarrow> nat list res" where
  "read_links g level i =
     (if i < length (gr_links g) \<and> level < length (gr_links g ! i) then Inr (gr_links g ! i ! level) else Inl Undefined)"

text \<open>The identifiers are written and \<open>setListCount\<close> stores their number, as an \<open>unsigned short\<close>.\<close>

definition counted :: "nat list \<Rightarrow> nat list" where
  "counted ns = take (length ns mod 2 ^ 16) ns"

definition set_links :: "'r graph \<Rightarrow> nat \<Rightarrow> nat \<Rightarrow> nat list \<Rightarrow> 'r graph" where
  "set_links g level i ns = g\<lparr>gr_links := (gr_links g)[i := (gr_links g ! i)[level := counted ns]]\<rparr>"

text \<open>\<open>Mcurmax\<close>.\<close>

definition max_links :: "'r graph \<Rightarrow> nat \<Rightarrow> nat" where
  "max_links g level = (if level = 0 then gr_maxM0 g else gr_M g)"

section \<open>Greedy descent\<close>

text \<open>One pass over a link list: the current object, its distance, and \<open>changed\<close>.  (The test for \<open>cand error\<close> follows from the
  bound on the identifiers.)\<close>

fun scan_links :: "metric \<Rightarrow> hnsw_elem list \<Rightarrow> vector \<Rightarrow> nat \<times> f32 \<times> bool \<Rightarrow> nat list \<Rightarrow> (nat \<times> f32 \<times> bool) res" where
  "scan_links D els q s [] = Inr s"
| "scan_links D els q (cur, d, changed) (c # cs) =
     (if length els \<le> c then Inl Undefined
      else let d' = D q (el_data (els ! c)) in
        scan_links D els q (if f32_less d' d then (c, d', True) else (cur, d, changed)) cs)"

lemma scan_links_changed:
  assumes "scan_links D els q (cur, d, ch) cs = Inr (cur', d', ch')"
  shows "ch' = ch \<and> cur' = cur \<and> d' = d \<or> ch' \<and> f32_less d' d \<and> cur' \<in> set cs \<and> cur' < length els \<and> d' = D q (el_data (els ! cur'))"
  using assms
proof (induction cs arbitrary: cur d ch)
  case (Cons c cs)
  let ?d = "D q (el_data (els ! c))"
  have c: "c < length els" using Cons.prems by (simp split: if_splits)
  show ?case
  proof (cases "f32_less ?d d")
    case True
    then have "scan_links D els q (c, ?d, True) cs = Inr (cur', d', ch')" using Cons.prems c by simp
    then show ?thesis using Cons.IH [of c ?d True] True c by (auto dest: f32_less_trans)
  next
    case False
    then have "scan_links D els q (cur, d, ch) cs = Inr (cur', d', ch')" using Cons.prems c by simp
    then show ?thesis using Cons.IH [of cur d ch] by auto
  qed
qed simp

text \<open>The loop \<open>while (changed)\<close> of one layer: every round but the last one leaves fewer elements that are closer.\<close>

definition closer :: "metric \<Rightarrow> hnsw_elem list \<Rightarrow> vector \<Rightarrow> f32 \<Rightarrow> nat" where
  "closer D els q d = card {i. i < length els \<and> f32_less (D q (el_data (els ! i))) d}"

lemma closer_less: "f32_less (D q (el_data (els ! c))) d \<Longrightarrow> c < length els \<Longrightarrow> closer D els q (D q (el_data (els ! c))) < closer D els q d"
  unfolding closer_def
proof (rule psubset_card_mono)
  let ?D = "\<lambda>i. D q (el_data (els ! i))"
  assume c: "f32_less (?D c) d" "c < length els"
  then have "c \<in> {i. i < length els \<and> f32_less (?D i) d}" "c \<notin> {i. i < length els \<and> f32_less (?D i) (?D c)}" by simp_all
  moreover have "{i. i < length els \<and> f32_less (?D i) (?D c)} \<subseteq> {i. i < length els \<and> f32_less (?D i) d}"
    using f32_less_trans [OF _ c(1)] by blast
  ultimately show "{i. i < length els \<and> f32_less (?D i) (?D c)} \<subset> {i. i < length els \<and> f32_less (?D i) d}" by blast
qed simp

function greedy_level :: "metric \<Rightarrow> reader \<Rightarrow> hnsw_elem list \<Rightarrow> vector \<Rightarrow> nat \<times> f32 \<Rightarrow> (nat \<times> f32) res" where
  "greedy_level D L els q (cur, d) =
     bindR (L cur) (\<lambda>ns.
     bindR (scan_links D els q (cur, d, False) ns) (\<lambda>(cur', d', changed).
       if changed then greedy_level D L els q (cur', d') else Inr (cur', d')))"
  by pat_completeness auto
termination
  by (relation "measure (\<lambda>(D, L, els, q, cur, d). closer D els q d)") (auto dest!: scan_links_changed intro: closer_less)

declare greedy_level.simps [simp del]

text \<open>The layers \<open>stop + n\<close>, ..., \<open>stop + 1\<close>, and the descent from the entry point.\<close>

fun descend :: "metric \<Rightarrow> 'r graph \<Rightarrow> hnsw_elem list \<Rightarrow> vector \<Rightarrow> nat \<Rightarrow> nat \<Rightarrow> nat \<times> f32 \<Rightarrow> (nat \<times> f32) res" where
  "descend D g els q stop 0 s = Inr s"
| "descend D g els q stop (Suc n) s =
     bindR (greedy_level D (read_links g (stop + Suc n)) els q s) (descend D g els q stop n)"

definition find_entry :: "metric \<Rightarrow> 'r graph \<Rightarrow> hnsw_elem list \<Rightarrow> vector \<Rightarrow> nat \<Rightarrow> nat res" where
  "find_entry D g els q stop =
     (let ep = gr_enter g in
      if length els \<le> ep then Inl Undefined
      else bindR (descend D g els q stop (nat (gr_maxlevel g) - stop) (ep, D q (el_data (els ! ep)))) (\<lambda>(cur, d). Inr cur))"

section \<open>Neighbours\<close>

text \<open>The loop of \<open>getNeighborsByHeuristic2\<close>: a candidate is taken unless it is closer to one already taken than to the
  object.  \<open>queue_closest\<close> holds negated distances and compares pairs.\<close>

function heuristic_loop :: "metric \<Rightarrow> hnsw_elem list \<Rightarrow> nat \<Rightarrow> (f32 \<times> nat) list \<Rightarrow> (f32 \<times> nat) list \<Rightarrow> (f32 \<times> nat) list" where
  "heuristic_loop D els M return_list queue =
     (if queue = [] \<or> M \<le> length return_list then return_list
      else
        let cur = pq_top dist_label_less queue;
            good = list_all (\<lambda>second. \<not> f32_less (D (el_data (els ! snd second)) (el_data (els ! snd cur))) (f32_minus (fst cur))) return_list
        in heuristic_loop D els M (if good then return_list @ [cur] else return_list) (pq_pop dist_label_less queue))"
  by pat_completeness auto
termination by (relation "measure (\<lambda>(D, els, M, ret, queue). length queue)") simp_all

declare heuristic_loop.simps [simp del]

definition negated :: "f32 \<times> nat \<Rightarrow> f32 \<times> nat" where
  "negated p = (f32_minus (fst p), snd p)"

definition neighbors_by_heuristic :: "metric \<Rightarrow> hnsw_elem list \<Rightarrow> (f32 \<times> nat) list \<Rightarrow> nat \<Rightarrow> (f32 \<times> nat) list" where
  "neighbors_by_heuristic D els tops M =
     (if length tops < M then tops
      else map negated (heuristic_loop D els M [] (map negated (pq_drain by_first tops))))"

text \<open>The body of the loop over \<open>selectedNeighbors\<close>: the neighbour gets a link to \<open>cur\<close>, in a full list by the heuristic.\<close>

definition connect_one :: "metric \<Rightarrow> hnsw_elem list \<Rightarrow> nat \<Rightarrow> nat \<Rightarrow> bool \<Rightarrow> 'r graph \<Rightarrow> nat \<Rightarrow> 'r graph res" where
  "connect_one D els cur level is_update g nb =
     bindR (read_links g level nb) (\<lambda>other.
       if max_links g level < length other then Inl (StdException ''Bad value of sz_link_list_other'')
       else if nb = cur then Inl (StdException ''Trying to connect an element to itself'')
       else if gr_levels g ! nb < level then Inl (StdException ''Trying to make a link on a non-existent level'')
       else if is_update \<and> cur \<in> set other then Inr g
       else if length other < max_links g level then Inr (set_links g level nb (other @ [cur]))
       else
         let dist = (\<lambda>j. (D (el_data (els ! j)) (el_data (els ! nb)), j));
             kept = neighbors_by_heuristic D els (map dist (cur # other)) (max_links g level)
         in Inr (set_links g level nb (map snd (pq_drain by_first kept))))"

fun connect_all :: "metric \<Rightarrow> hnsw_elem list \<Rightarrow> nat \<Rightarrow> nat \<Rightarrow> bool \<Rightarrow> 'r graph \<Rightarrow> nat list \<Rightarrow> 'r graph res" where
  "connect_all D els cur level is_update g [] = Inr g"
| "connect_all D els cur level is_update g (nb # nbs) =
     bindR (connect_one D els cur level is_update g nb) (\<lambda>g1. connect_all D els cur level is_update g1 nbs)"

text \<open>\<open>mutuallyConnectNewElement\<close>, with the entry point for the next layer; \<open>back()\<close> of an empty vector is undefined.  The check for memory
  corruption is about the part of the memory behind the link list, which is zero when the list is blank.\<close>

definition mutually_connect ::
    "metric \<Rightarrow> hnsw_elem list \<Rightarrow> 'r graph \<Rightarrow> nat \<Rightarrow> (f32 \<times> nat) list \<Rightarrow> nat \<Rightarrow> bool \<Rightarrow> (nat \<times> 'r graph) res" where
  "mutually_connect D els g cur tops level is_update =
     (let best = neighbors_by_heuristic D els tops (gr_M g); selected = map snd (pq_drain by_first best) in
      if gr_M g < length best then Inl (StdException ''Should be not be more than M_ candidates returned by the heuristic'')
      else if selected = [] then Inl Undefined
      else bindR (read_links g level cur) (\<lambda>ll_cur.
        if ll_cur \<noteq> [] \<and> \<not> is_update then Inl (StdException ''The newly inserted element should have blank link list'')
        else if list_ex (\<lambda>nb. gr_levels g ! nb < level) selected then
          Inl (StdException ''Trying to make a link on a non-existent level'')
        else bindR (connect_all D els cur level is_update (set_links g level cur selected) selected) (\<lambda>g1.
          Inr (last selected, g1))))"

section \<open>Insertion\<close>

text \<open>A deleted entry point joins the candidates.\<close>

definition with_entry :: "metric \<Rightarrow> hnsw_elem list \<Rightarrow> 'r graph \<Rightarrow> vector \<Rightarrow> nat \<Rightarrow> (f32 \<times> nat) list \<Rightarrow> (f32 \<times> nat) list" where
  "with_entry D els g q ep tops =
     (if el_deleted (els ! ep) then
        let top1 = tops @ [(D q (el_data (els ! ep)), ep)]
        in (if gr_efc g < length top1 then pq_pop by_first top1 else top1)
      else tops)"

text \<open>The layers \<open>level\<close>, ..., \<open>0\<close> of \<open>addPoint\<close>; \<open>ep\<close> is \<open>enterpoint_copy\<close>.\<close>

fun connect_layers :: "metric \<Rightarrow> hnsw_elem list \<Rightarrow> nat \<Rightarrow> nat \<Rightarrow> nat \<Rightarrow> nat \<Rightarrow> 'r graph \<Rightarrow> 'r graph res" where
  "connect_layers D els cur ep level obj g =
     (let q = el_data (els ! cur) in
      bindR (search_layer D (read_links g level) els q (gr_efc g) True obj) (\<lambda>tops.
      bindR (mutually_connect D els g cur (with_entry D els g q ep tops) level False) (\<lambda>(obj1, g1).
        case level of 0 \<Rightarrow> Inr g1 | Suc l \<Rightarrow> connect_layers D els cur ep l obj1 g1)))"

declare connect_layers.simps [simp del]

text \<open>\<open>addPoint(data_point, label, -1)\<close> from the choice of the level on; the element \<open>cur\<close> is the last one of the element memory.  A
  negative level makes the size of an allocation negative.\<close>

definition insert_element :: "'r graph_env \<Rightarrow> hnsw_elem list \<Rightarrow> nat \<Rightarrow> 'r graph \<Rightarrow> 'r graph res" where
  "insert_element E els cur g =
     (let D = ge_dist E; (curlevel, r) = ge_level E (gr_M g) (gr_random g) in
      if curlevel < 0 then Inl Undefined
      else
        let g1 = g\<lparr>gr_levels := gr_levels g @ [nat curlevel], gr_links := gr_links g @ [replicate (nat curlevel + 1) []],
                    gr_random := r\<rparr> in
        if gr_maxlevel g = - 1 then Inr (g1\<lparr>gr_enter := cur, gr_maxlevel := curlevel\<rparr>)
        else
          bindR (find_entry D g1 els (el_data (els ! cur)) (nat curlevel)) (\<lambda>obj.
          bindR (connect_layers D els cur (gr_enter g) (nat (min curlevel (gr_maxlevel g))) obj g1) (\<lambda>g2.
            Inr (if gr_maxlevel g < curlevel then g2\<lparr>gr_enter := cur, gr_maxlevel := curlevel\<rparr> else g2))))"

section \<open>Update\<close>

text \<open>The candidates of \<open>neigh\<close> among \<open>sCand\<close>: the closest \<open>elementsToKeep\<close>.\<close>

fun keep_closest :: "metric \<Rightarrow> hnsw_elem list \<Rightarrow> nat \<Rightarrow> nat \<Rightarrow> (f32 \<times> nat) list \<Rightarrow> nat list \<Rightarrow> (f32 \<times> nat) list res" where
  "keep_closest D els neigh keep q [] = Inr q"
| "keep_closest D els neigh keep q (c # cs) =
     (if c = neigh then keep_closest D els neigh keep q cs
      else
        let d = D (el_data (els ! neigh)) (el_data (els ! c)) in
        if length q < keep then keep_closest D els neigh keep (q @ [(d, c)]) cs
        else if q = [] then Inl Undefined
        else if f32_less d (fst (pq_top by_first q)) then keep_closest D els neigh keep (pq_pop by_first q @ [(d, c)]) cs
        else keep_closest D els neigh keep q cs)"

definition reconnect :: "metric \<Rightarrow> hnsw_elem list \<Rightarrow> nat \<Rightarrow> nat list \<Rightarrow> 'r graph \<Rightarrow> nat \<Rightarrow> 'r graph res" where
  "reconnect D els layer sCand g neigh =
     (let size = (if neigh \<in> set sCand then length sCand - 1 else length sCand) in
      bindR (keep_closest D els neigh (min (gr_efc g) size) [] sCand) (\<lambda>candidates.
      bindR (read_links g layer neigh) (\<lambda>_.
        Inr (set_links g layer neigh (map snd (pq_drain by_first (neighbors_by_heuristic D els candidates (max_links g layer))))))))"

fun reconnect_all :: "metric \<Rightarrow> hnsw_elem list \<Rightarrow> nat \<Rightarrow> nat list \<Rightarrow> 'r graph \<Rightarrow> nat list \<Rightarrow> 'r graph res" where
  "reconnect_all D els layer sCand g [] = Inr g"
| "reconnect_all D els layer sCand g (n # ns) =
     bindR (reconnect D els layer sCand g n) (\<lambda>g1. reconnect_all D els layer sCand g1 ns)"

text \<open>One layer of \<open>updatePoint\<close>.  The probability of an update is 1, so every neighbour is taken.\<close>

definition update_layer :: "'r graph_env \<Rightarrow> hnsw_elem list \<Rightarrow> nat \<Rightarrow> 'r graph \<Rightarrow> nat \<Rightarrow> 'r graph res" where
  "update_layer E els i g layer =
     bindR (read_links g layer i) (\<lambda>one_hop.
       if one_hop = [] then Inr g
       else bindR (mapR (\<lambda>e. bindR (read_links g layer e) (\<lambda>two_hop. Inr (e # two_hop))) one_hop) (\<lambda>hops.
         reconnect_all (ge_dist E) els layer (ge_order E (i # concat hops)) g (ge_order E one_hop)))"

fun update_layers :: "'r graph_env \<Rightarrow> hnsw_elem list \<Rightarrow> nat \<Rightarrow> 'r graph \<Rightarrow> nat list \<Rightarrow> 'r graph res" where
  "update_layers E els i g [] = Inr g"
| "update_layers E els i g (layer # layers) =
     bindR (update_layer E els i g layer) (\<lambda>g1. update_layers E els i g1 layers)"

text \<open>The layers \<open>level\<close>, ..., \<open>0\<close> of \<open>repairConnectionsForUpdate\<close>.\<close>

fun repair_layers :: "metric \<Rightarrow> hnsw_elem list \<Rightarrow> nat \<Rightarrow> nat \<Rightarrow> nat \<Rightarrow> nat \<Rightarrow> 'r graph \<Rightarrow> 'r graph res" where
  "repair_layers D els i ep level obj g =
     (let q = el_data (els ! i) in
      bindR (search_layer D (read_links g level) els q (gr_efc g) True obj) (\<lambda>tops.
        let filtered = filter (\<lambda>p. snd p \<noteq> i) (pq_drain by_first tops) in
        bindR (if filtered = [] then Inr (obj, g)
               else mutually_connect D els g i (with_entry D els g q ep filtered) level True) (\<lambda>(obj1, g1).
          case level of 0 \<Rightarrow> Inr g1 | Suc l \<Rightarrow> repair_layers D els i ep l obj1 g1)))"

declare repair_layers.simps [simp del]

definition repair_connections :: "metric \<Rightarrow> hnsw_elem list \<Rightarrow> nat \<Rightarrow> 'r graph \<Rightarrow> 'r graph res" where
  "repair_connections D els i g =
     bindR (find_entry D g els (el_data (els ! i)) (gr_levels g ! i)) (\<lambda>obj.
       if gr_maxlevel g < int (gr_levels g ! i) then
         Inl (StdException ''Level of item to be updated cannot be bigger than max level'')
       else repair_layers D els i (gr_enter g) (gr_levels g ! i) obj g)"

text \<open>\<open>updatePoint\<close>, after the vector has been overwritten.\<close>

definition update_element :: "'r graph_env \<Rightarrow> hnsw_elem list \<Rightarrow> nat \<Rightarrow> 'r graph \<Rightarrow> 'r graph res" where
  "update_element E els i g =
     (if gr_enter g = i \<and> length els = 1 then Inr g
      else bindR (update_layers E els i g [0..<gr_levels g ! i + 1]) (repair_connections (ge_dist E) els i))"

section \<open>The operations\<close>

definition hnswlib_ops :: "'r graph_env \<Rightarrow> 'r graph res graph_ops" where
  "hnswlib_ops E =
     \<lparr>g_empty = (\<lambda>m efc. Inr (graph_new E m efc)),
      g_insert = (\<lambda>g els i. bindR g (insert_element E els i)),
      g_update = (\<lambda>g els i. bindR g (update_element E els i)),
      g_descend = (\<lambda>g els q. bindR g (\<lambda>g. find_entry (ge_dist E) g els q 0)),
      g_links = (\<lambda>g i. bindR g (\<lambda>g. read_links g 0 i)),
      g_dist = ge_dist E, mem_ok = ge_mem E\<rparr>"

end
