(* ===== verification/Hnsw_Links.thy ===== *)
theory Hnsw_Links
  imports Hnsw_Graph
begin

text \<open>
  Well-formed graphs (\<open>graph_ok\<close>): every element has one list for each of its layers; a list has no duplicates, does not name its own
  element, stays on its layer and within the capacity; the entry point has the highest level.  The descent, the search of a layer and the connection of an
  element (\<open>mutuallyConnectNewElement\<close>) on such graphs: no list is read that does not exist, and no exception of the code is thrown.
\<close>

section \<open>Well-formed graphs\<close>

definition on_layer :: "'r graph \<Rightarrow> nat \<Rightarrow> nat set" where
  "on_layer g level = {i. i < length (gr_levels g) \<and> level \<le> gr_levels g ! i}"

definition list_ok :: "'r graph \<Rightarrow> nat \<Rightarrow> nat \<Rightarrow> nat list \<Rightarrow> bool" where
  "list_ok g level i ns \<longleftrightarrow> distinct ns \<and> i \<notin> set ns \<and> length ns \<le> max_links g level \<and> set ns \<subseteq> on_layer g level"

definition links_ok :: "'r graph \<Rightarrow> bool" where
  "links_ok g \<longleftrightarrow> length (gr_links g) = length (gr_levels g) \<and>
     (\<forall>i < length (gr_levels g). length (gr_links g ! i) = Suc (gr_levels g ! i)) \<and>
     (\<forall>level. \<forall>i \<in> on_layer g level. list_ok g level i (gr_links g ! i ! level)) \<and>
     0 < gr_M g \<and> gr_M g \<le> gr_maxM0 g \<and> gr_M g \<le> gr_efc g"

definition entry_ok :: "'r graph \<Rightarrow> bool" where
  "entry_ok g \<longleftrightarrow>
     (if gr_levels g = [] then gr_maxlevel g = - 1
      else gr_enter g < length (gr_levels g) \<and> gr_maxlevel g = int (gr_levels g ! gr_enter g) \<and>
           (\<forall>i < length (gr_levels g). gr_levels g ! i \<le> gr_levels g ! gr_enter g))"

definition graph_ok :: "'r graph \<Rightarrow> bool" where
  "graph_ok g \<longleftrightarrow> links_ok g \<and> entry_ok g"

text \<open>Only the link lists differ; and the lists of a layer are the same.\<close>

definition same_shape :: "'r graph \<Rightarrow> 'r graph \<Rightarrow> bool" where
  "same_shape g g' \<longleftrightarrow> g' = g\<lparr>gr_links := gr_links g'\<rparr>"

definition same_layer :: "nat \<Rightarrow> 'r graph \<Rightarrow> 'r graph \<Rightarrow> bool" where
  "same_layer level g g' \<longleftrightarrow> (\<forall>i \<in> on_layer g level. gr_links g' ! i ! level = gr_links g ! i ! level)"

lemma same_shape_refl [simp]: "same_shape g g"
  by (simp add: same_shape_def)

lemma same_shape_sel:
  assumes "same_shape g g'"
  shows "gr_levels g' = gr_levels g" "gr_M g' = gr_M g" "gr_maxM0 g' = gr_maxM0 g" "gr_efc g' = gr_efc g" "gr_enter g' = gr_enter g"
    "gr_maxlevel g' = gr_maxlevel g" "gr_random g' = gr_random g" "on_layer g' = on_layer g" "max_links g' = max_links g" "entry_ok g' = entry_ok g"
proof -
  obtain ls where g': "g' = g\<lparr>gr_links := ls\<rparr>" using assms by (auto simp: same_shape_def)
  show "gr_levels g' = gr_levels g" "gr_M g' = gr_M g" "gr_maxM0 g' = gr_maxM0 g" "gr_efc g' = gr_efc g" "gr_enter g' = gr_enter g"
    "gr_maxlevel g' = gr_maxlevel g" "gr_random g' = gr_random g" "on_layer g' = on_layer g" "max_links g' = max_links g" "entry_ok g' = entry_ok g"
    by (simp_all add: g' on_layer_def max_links_def entry_ok_def fun_eq_iff)
qed

lemma same_shape_trans [trans]: "same_shape g g' \<Longrightarrow> same_shape g' g'' \<Longrightarrow> same_shape g g''"
proof -
  assume "same_shape g g'" "same_shape g' g''"
  moreover from this(1) obtain ls where "g' = g\<lparr>gr_links := ls\<rparr>" unfolding same_shape_def by blast
  ultimately show ?thesis by (simp add: same_shape_def)
qed

lemma same_layer_refl [simp]: "same_layer level g g"
  by (simp add: same_layer_def)

lemma same_layer_trans: "same_layer level g g' \<Longrightarrow> same_layer level g' g'' \<Longrightarrow> same_shape g g' \<Longrightarrow> same_layer level g g''"
  using same_shape_sel(8) [of g g'] by (simp add: same_layer_def)

lemma list_ok_shape: "same_shape g g' \<Longrightarrow> list_ok g' = list_ok g"
  using same_shape_sel(8,9) [of g g'] by (simp add: list_ok_def fun_eq_iff)

lemma on_layerD: "i \<in> on_layer g level \<Longrightarrow> i < length (gr_levels g) \<and> level \<le> gr_levels g ! i"
  by (simp add: on_layer_def)

lemma on_layer_mono: "l \<le> l' \<Longrightarrow> on_layer g l' \<subseteq> on_layer g l"
  by (auto simp: on_layer_def)

lemma read_links_ok:
  assumes "links_ok g" "i \<in> on_layer g level"
  shows "read_links g level i = Inr (gr_links g ! i ! level) \<and> list_ok g level i (gr_links g ! i ! level)"
  using assms by (auto simp: links_ok_def read_links_def on_layer_def)

lemma set_links_ok:
  assumes ok: "links_ok g" and i: "i \<in> on_layer g level" and ns: "list_ok g level i ns"
  shows "links_ok (set_links g level i ns)" "same_shape g (set_links g level i ns)"
    "gr_links (set_links g level i ns) ! i ! level = counted ns"
    "\<And>j l. j \<in> on_layer g l \<Longrightarrow> j \<noteq> i \<or> l \<noteq> level \<Longrightarrow> gr_links (set_links g level i ns) ! j ! l = gr_links g ! j ! l"
proof -
  let ?g = "set_links g level i ns"
  show sh: "same_shape g ?g" by (simp add: same_shape_def set_links_def)
  have il: "i < length (gr_links g)" "level < length (gr_links g ! i)" using ok on_layerD [OF i] by (auto simp: links_ok_def)
  show new: "gr_links ?g ! i ! level = counted ns" using il by (simp add: set_links_def)
  show old: "gr_links ?g ! j ! l = gr_links g ! j ! l" if "j \<in> on_layer g l" "j \<noteq> i \<or> l \<noteq> level" for j l
    using that il by (cases "j = i") (auto simp: set_links_def)
  have ns': "list_ok g level i (counted ns)"
    using ns set_take_subset [of "length ns mod 2 ^ 16" ns] by (auto simp: list_ok_def counted_def)
  have "list_ok ?g l j (gr_links ?g ! j ! l)" if "j \<in> on_layer ?g l" for j l
  proof -
    have j: "j \<in> on_layer g l" using that same_shape_sel(8) [OF sh] by simp
    show ?thesis using read_links_ok [OF ok j] old [OF j] new ns' list_ok_shape [OF sh] by (cases "j = i \<and> l = level") auto
  qed
  moreover have "length (gr_links ?g) = length (gr_links g)" "length (gr_links ?g ! j) = length (gr_links g ! j)" for j
    using il by (simp_all add: set_links_def nth_list_update)
  ultimately show "links_ok ?g" using ok same_shape_sel [OF sh] by (simp add: links_ok_def)
qed

section \<open>Greedy descent\<close>

lemma scan_links_ok: "set cs \<subseteq> {..<length els} \<Longrightarrow> \<exists>s'. scan_links D els q s cs = Inr s'"
  by (induction D els q s cs rule: scan_links.induct) (auto simp: Let_def)

text \<open>A set of elements whose links stay in it.\<close>

definition closed_reader :: "nat set \<Rightarrow> reader \<Rightarrow> bool" where
  "closed_reader A L \<longleftrightarrow> (\<forall>i \<in> A. \<exists>ns. L i = Inr ns \<and> set ns \<subseteq> A)"

lemma layer_closed: "links_ok g \<Longrightarrow> closed_reader (on_layer g level) (read_links g level)"
  using read_links_ok by (fastforce simp: closed_reader_def list_ok_def)

lemma greedy_level_ok:
  assumes "closed_reader A L" "A \<subseteq> {..<length els}"
  shows "cur \<in> A \<Longrightarrow> \<exists>cur' d'. greedy_level D L els q (cur, d) = Inr (cur', d') \<and> cur' \<in> A"
  using assms
proof (induction D L els q "(cur, d)" arbitrary: cur d rule: greedy_level.induct)
  case (1 D L els q cur d)
  obtain ns where ns: "L cur = Inr ns" "set ns \<subseteq> A" using 1(2,3) by (auto simp: closed_reader_def)
  then obtain cur' d' ch where s: "scan_links D els q (cur, d, False) ns = Inr (cur', d', ch)"
    using scan_links_ok [OF order_trans [OF ns(2) 1(4)], of D q "(cur, d, False)"] by auto
  have cur': "cur' \<in> A" using scan_links_changed [OF s] 1(2) ns(2) by auto
  show ?case
  proof (cases ch)
    case True
    have "\<exists>cur'' d''. greedy_level D L els q (cur', d') = Inr (cur'', d'') \<and> cur'' \<in> A"
      using 1(1) [OF ns(1) s refl refl True cur' 1(3,4)] .
    then show ?thesis using ns s True by (subst greedy_level.simps) simp
  next
    case False
    then show ?thesis using ns s cur' by (subst greedy_level.simps) simp
  qed
qed

text \<open>The same for every layer: the descent stays in the sets, which shrink upwards.\<close>

definition closed_layers :: "(nat \<Rightarrow> nat set) \<Rightarrow> 'r graph \<Rightarrow> bool" where
  "closed_layers A g \<longleftrightarrow> (\<forall>l. closed_reader (A l) (read_links g l) \<and> A (Suc l) \<subseteq> A l)"

lemma layers_closed: "links_ok g \<Longrightarrow> closed_layers (on_layer g) g"
  using on_layer_mono [of _ "Suc _" g] by (simp add: closed_layers_def layer_closed)

lemma descend_ok:
  assumes cl: "closed_layers A g" and A: "A 0 \<subseteq> {..<length els}"
  shows "cur \<in> A (stop + n) \<Longrightarrow> \<exists>cur' d'. descend D g els q stop n (cur, d) = Inr (cur', d') \<and> cur' \<in> A stop"
proof (induction n arbitrary: cur d)
  case (Suc n)
  have "A l \<subseteq> A 0" for l using lift_Suc_antimono_le [of A 0 l] cl by (simp add: closed_layers_def)
  then have "A (stop + Suc n) \<subseteq> {..<length els}" using A by blast
  then obtain c1 d1 where c1: "greedy_level D (read_links g (stop + Suc n)) els q (cur, d) = Inr (c1, d1)" "c1 \<in> A (stop + Suc n)"
    using greedy_level_ok [OF _ _ Suc.prems, of "read_links g (stop + Suc n)" els D q d] cl by (auto simp: closed_layers_def)
  then have "c1 \<in> A (stop + n)" using cl by (auto simp: closed_layers_def)
  then show ?case using Suc.IH c1 by simp
qed simp

lemma find_entry_ok:
  assumes "closed_layers A g" "A 0 \<subseteq> {..<length els}" and ep: "gr_enter g \<in> A tp" "gr_maxlevel g = int tp" "gr_enter g < length els"
  shows "\<exists>obj. find_entry D g els q stop = Inr obj \<and> obj \<in> A (min stop tp) \<and> (tp \<le> stop \<longrightarrow> obj = gr_enter g)"
proof (cases "tp \<le> stop")
  case True
  then show ?thesis using ep by (auto simp: find_entry_def Let_def min_absorb2)
next
  case False
  then have "gr_enter g \<in> A (stop + (tp - stop))" using ep by simp
  from descend_ok [OF assms(1,2) this] show ?thesis
    using False ep by (fastforce simp: find_entry_def Let_def min_def)
qed

section \<open>Search of a layer\<close>

definition search_in :: "nat set \<Rightarrow> search \<Rightarrow> bool" where
  "search_in A s \<longleftrightarrow> snd ` set (s_cand s) \<subseteq> A \<and> snd ` set (s_top s) \<subseteq> A"

lemma pop_in: "snd ` set xs \<subseteq> A \<Longrightarrow> snd ` set (pq_pop lt xs) \<subseteq> A"
  by (rule order_trans [OF image_mono [OF set_pq_pop]])

lemma expand_one_in:
  assumes "search_in A s" "c \<in> A" "A \<subseteq> {..<length els}"
  shows "\<exists>s'. expand_one D els q ef dels s c = Inr s' \<and> search_in A s' \<and> (0 < ef \<and> s_top s \<noteq> [] \<longrightarrow> s_top s' \<noteq> [])"
proof -
  have c: "\<not> length els \<le> c" using assms(2,3) by auto
  let ?t = "s_top s @ [(D q (el_data (els ! c)), c)]"
  have "snd ` set ?t \<subseteq> A" "snd ` set (s_top s) \<subseteq> A" using assms(1,2) by (auto simp: search_in_def)
  note pop_in [OF this(1), of by_first] pop_in [OF this(2), of by_first]
  moreover have "0 < ef \<Longrightarrow> ef < length ?t \<Longrightarrow> pq_pop by_first ?t \<noteq> []" "0 < ef \<Longrightarrow> ef < length (s_top s) \<Longrightarrow> pq_pop by_first (s_top s) \<noteq> []"
    using length_pq_pop [of ?t by_first] length_pq_pop [of "s_top s" by_first] by (auto simp flip: length_greater_0_conv)
  ultimately show ?thesis using assms(1,2) c
    by (cases "c \<in> set (s_seen s)") (auto simp: expand_one_def search_in_def Let_def)
qed

lemma expand_in:
  "search_in A s \<Longrightarrow> set cs \<subseteq> A \<Longrightarrow> A \<subseteq> {..<length els} \<Longrightarrow>
     \<exists>s'. expand D els q ef dels s cs = Inr s' \<and> search_in A s' \<and> (0 < ef \<and> s_top s \<noteq> [] \<longrightarrow> s_top s' \<noteq> [])"
proof (induction cs arbitrary: s)
  case (Cons c cs)
  obtain s1 where "expand_one D els q ef dels s c = Inr s1" "search_in A s1" "0 < ef \<and> s_top s \<noteq> [] \<longrightarrow> s_top s1 \<noteq> []"
    using expand_one_in [OF Cons.prems(1) _ Cons.prems(3), of c D q ef dels] Cons.prems(2) by auto
  then show ?case using Cons.IH [of s1] Cons.prems by auto
qed simp

lemma search_loop_in:
  "search_in A s \<Longrightarrow> closed_reader A L \<Longrightarrow> A \<subseteq> {..<length els} \<Longrightarrow>
     \<exists>r. search_loop D L els q ef dels s = Inr r \<and> snd ` set r \<subseteq> A \<and> (0 < ef \<and> s_top s \<noteq> [] \<longrightarrow> r \<noteq> [])"
proof (induction D L els q ef dels s rule: search_loop.induct)
  case (1 D L els q ef dels s)
  obtain d i where di: "pq_top by_first (s_cand s) = (d, i)" by force
  let ?s = "s\<lparr>s_cand := pq_pop by_first (s_cand s)\<rparr>"
  show ?case
  proof (cases "s_cand s = [] \<or> f32_less (s_bound s) (f32_minus d) \<and> (length (s_top s) = ef \<or> \<not> dels)")
    case True
    then have "search_loop D L els q ef dels s = Inr (s_top s)" using di by (subst search_loop.simps) auto
    then show ?thesis using 1(2) by (simp add: search_in_def)
  next
    case False
    have "(d, i) \<in> set (s_cand s)" using pq_top_mem [of "s_cand s" by_first] False di by simp
    then have "i \<in> A" using 1(2) by (force simp: search_in_def)
    then obtain ns where ns: "L i = Inr ns" "set ns \<subseteq> A" using 1(3) by (auto simp: closed_reader_def)
    have "search_in A ?s" using 1(2) set_pq_pop [of by_first "s_cand s"] by (auto simp: search_in_def)
    from expand_in [OF this ns(2) 1(4), of D q ef dels] obtain s1 where
      s1: "expand D els q ef dels ?s ns = Inr s1" "search_in A s1" "0 < ef \<and> s_top s \<noteq> [] \<longrightarrow> s_top s1 \<noteq> []" by auto
    have "\<exists>r. search_loop D L els q ef dels s1 = Inr r \<and> snd ` set r \<subseteq> A \<and> (0 < ef \<and> s_top s1 \<noteq> [] \<longrightarrow> r \<noteq> [])"
      using 1(1) [of "(d, i)" d i ns s1] False di ns s1 1(3,4) by auto
    then show ?thesis using False di ns(1) s1 by (subst search_loop.simps) auto
  qed
qed

lemma search_layer_in:
  assumes "closed_reader A L" "A \<subseteq> {..<length els}" "ep \<in> A"
  shows "\<exists>r. search_layer D L els q ef dels ep = Inr r \<and> snd ` set r \<subseteq> A \<and> (0 < ef \<and> (dels \<longrightarrow> \<not> el_deleted (els ! ep)) \<longrightarrow> r \<noteq> [])"
proof -
  have "search_in A (search_start D els q dels ep)" using assms(3) by (simp add: search_in_def search_start_def Let_def)
  moreover have "(dels \<longrightarrow> \<not> el_deleted (els ! ep)) \<Longrightarrow> s_top (search_start D els q dels ep) \<noteq> []" by (simp add: search_start_def Let_def)
  ultimately show ?thesis
    using search_loop_in [OF _ assms(1,2), of "search_start D els q dels ep" D q ef dels] assms(2,3) by (auto simp: search_layer_def)
qed

section \<open>Choice of neighbours\<close>

lemma distinct_pop: "distinct (map snd (us @ xs)) \<Longrightarrow> distinct (map snd (us @ pq_pop lt xs))"
proof -
  assume a: "distinct (map snd (us @ xs))"
  have "snd ` set (pq_pop lt xs) \<subseteq> snd ` set xs" by (rule image_mono [OF set_pq_pop])
  moreover have "distinct (map snd xs)" using a by simp
  then have "distinct (map snd (pq_pop lt xs))" by (rule distinct_pq_pop)
  ultimately show ?thesis using a by auto
qed

lemma heuristic_loop_ok:
  "distinct (map snd (ret @ queue)) \<Longrightarrow> length ret \<le> M \<Longrightarrow>
     set (heuristic_loop D els M ret queue) \<subseteq> set ret \<union> set queue \<and> distinct (map snd (heuristic_loop D els M ret queue)) \<and>
     length (heuristic_loop D els M ret queue) \<le> M \<and> (ret \<noteq> [] \<or> queue \<noteq> [] \<and> 0 < M \<longrightarrow> heuristic_loop D els M ret queue \<noteq> [])"
proof (induction D els M ret queue rule: heuristic_loop.induct)
  case (1 D els M ret queue)
  show ?case
  proof (cases "queue = [] \<or> M \<le> length ret")
    case True
    then show ?thesis using 1(2,3) by (subst (1 2 3 4) heuristic_loop.simps) auto
  next
    case False
    define cur where "cur = pq_top dist_label_less queue"
    define good where "good = list_all (\<lambda>second. \<not> f32_less (D (el_data (els ! snd second)) (el_data (els ! snd cur))) (f32_minus (fst cur))) ret"
    let ?ret = "if good then ret @ [cur] else ret" and ?q = "pq_pop dist_label_less queue"
    have step: "heuristic_loop D els M ret queue = heuristic_loop D els M ?ret ?q"
      using False by (subst heuristic_loop.simps) (simp add: cur_def good_def Let_def)
    have mem: "cur \<in> set queue" using False by (simp add: cur_def pq_top_mem)
    then have perm: "mset (cur # ?q) = mset queue" by (simp add: pq_pop_def cur_def)
    have q: "distinct (map snd (ret @ ?q))" using distinct_pop [OF 1(2)] .
    have "mset (map snd (ret @ cur # ?q)) = mset (map snd (ret @ queue))" by (simp only: map_append mset_append mset_map perm)
    then have "distinct (map snd (ret @ cur # ?q))" using 1(2) mset_eq_imp_distinct_iff by blast
    with q have d: "distinct (map snd (?ret @ ?q))" by auto
    have "length ?ret \<le> M" using False by auto
    note ih = 1(1) [OF False cur_def good_def d this]
    have "set ?ret \<union> set ?q \<subseteq> set ret \<union> set queue" using mem set_pq_pop [of dist_label_less queue] by auto
    moreover have "ret = [] \<Longrightarrow> ?ret \<noteq> []" by (simp add: good_def)
    ultimately show ?thesis using ih False unfolding step by (auto split: if_splits)
  qed
qed

lemma snd_negated [simp]: "snd (negated p) = snd p" "snd \<circ> negated = snd"
  by (simp_all add: negated_def fun_eq_iff)

lemma neighbors_ok:
  assumes "distinct (map snd tops)"
  shows "snd ` set (neighbors_by_heuristic D els tops M) \<subseteq> snd ` set tops" "distinct (map snd (neighbors_by_heuristic D els tops M))"
    "length (neighbors_by_heuristic D els tops M) \<le> M" "0 < M \<Longrightarrow> tops \<noteq> [] \<Longrightarrow> neighbors_by_heuristic D els tops M \<noteq> []"
proof -
  let ?q = "map negated (pq_drain by_first tops)"
  have "distinct (map snd ?q)" using pq_drain_distinct [OF assms] by simp
  then have q: "distinct (map snd ([] @ ?q))" by simp
  have s: "snd ` set ?q = snd ` set tops" by (simp add: negated_def image_image)
  note h = heuristic_loop_ok [OF q, of M D els]
  let ?r = "heuristic_loop D els M [] ?q"
  have "set ?r \<subseteq> set ?q" using h by simp
  from image_mono [OF this, of snd] have r: "snd ` set ?r \<subseteq> snd ` set tops" unfolding s .
  have ne: "0 < M \<Longrightarrow> tops \<noteq> [] \<Longrightarrow> ?r \<noteq> []"
  proof -
    assume "0 < M" "tops \<noteq> []"
    then have "?q \<noteq> []" using pq_drain_length [of by_first tops] by (metis length_0_conv map_is_Nil_conv)
    then show ?thesis using h \<open>0 < M\<close> by simp
  qed
  show "snd ` set (neighbors_by_heuristic D els tops M) \<subseteq> snd ` set tops" "distinct (map snd (neighbors_by_heuristic D els tops M))"
    "length (neighbors_by_heuristic D els tops M) \<le> M" "0 < M \<Longrightarrow> tops \<noteq> [] \<Longrightarrow> neighbors_by_heuristic D els tops M \<noteq> []"
    using assms h r ne by (simp_all add: neighbors_by_heuristic_def image_image)
qed

lemma pq_drain_Nil: "pq_drain lt [] = []"
  by (subst pq_drain.simps) simp

lemma neighbors_Nil: "neighbors_by_heuristic D els [] M = []"
  by (simp add: neighbors_by_heuristic_def pq_drain_Nil heuristic_loop.simps)

text \<open>The identifiers that are taken from a queue of neighbours.\<close>

lemma drained_ok:
  assumes "distinct (map snd tops)"
  shows "distinct (map snd (pq_drain by_first (neighbors_by_heuristic D els tops M)))"
    "set (map snd (pq_drain by_first (neighbors_by_heuristic D els tops M))) \<subseteq> snd ` set tops"
    "length (map snd (pq_drain by_first (neighbors_by_heuristic D els tops M))) \<le> M"
    "0 < M \<Longrightarrow> tops \<noteq> [] \<Longrightarrow> map snd (pq_drain by_first (neighbors_by_heuristic D els tops M)) \<noteq> []"
proof -
  note n = neighbors_ok [OF assms, where D = D and els = els and M = M]
  show "distinct (map snd (pq_drain by_first (neighbors_by_heuristic D els tops M)))" by (rule pq_drain_distinct [OF n(2)])
  show "set (map snd (pq_drain by_first (neighbors_by_heuristic D els tops M))) \<subseteq> snd ` set tops" using n(1) by simp
  show "length (map snd (pq_drain by_first (neighbors_by_heuristic D els tops M))) \<le> M" using n(3) by simp
  show "map snd (pq_drain by_first (neighbors_by_heuristic D els tops M)) \<noteq> []" if "0 < M" "tops \<noteq> []"
    using n(4) [OF that] pq_drain_length [of by_first "neighbors_by_heuristic D els tops M"] by (metis length_0_conv map_is_Nil_conv)
qed

section \<open>Connection\<close>

lemma max_links_M: "links_ok g \<Longrightarrow> gr_M g \<le> max_links g level"
  by (simp add: links_ok_def max_links_def)

text \<open>\<open>good_change\<close>: what a step on a layer keeps.\<close>

definition good_change :: "nat \<Rightarrow> 'r graph \<Rightarrow> 'r graph \<Rightarrow> bool" where
  "good_change level g g' \<longleftrightarrow> links_ok g' \<and> same_shape g g' \<and> (\<forall>l. l \<noteq> level \<longrightarrow> same_layer l g g')"

lemma good_change_refl: "links_ok g \<Longrightarrow> good_change level g g"
  by (simp add: good_change_def)

lemma good_change_trans: "good_change level g g' \<Longrightarrow> good_change level g' g'' \<Longrightarrow> good_change level g g''"
  unfolding good_change_def using same_shape_trans same_layer_trans by blast

lemma set_links_change:
  "links_ok g \<Longrightarrow> i \<in> on_layer g level \<Longrightarrow> list_ok g level i ns \<Longrightarrow> good_change level g (set_links g level i ns)"
  using set_links_ok [of g i level ns] by (auto simp: good_change_def same_layer_def)

lemma connect_one_ok:
  assumes ok: "links_ok g" and nb: "nb \<in> on_layer g level" and cur: "cur \<in> on_layer g level" "nb \<noteq> cur"
    and new: "\<not> is_update \<Longrightarrow> cur \<notin> set (gr_links g ! nb ! level)"
  shows "\<exists>g'. connect_one D els cur level is_update g nb = Inr g' \<and> good_change level g g' \<and>
    (\<forall>j \<in> on_layer g level. j \<noteq> nb \<longrightarrow> gr_links g' ! j ! level = gr_links g ! j ! level)"
proof -
  let ?other = "gr_links g ! nb ! level"
  note rd = read_links_ok [OF ok nb]
  have lev: "\<not> gr_levels g ! nb < level" using on_layerD [OF nb] by simp
  have other: "distinct ?other" "nb \<notin> set ?other" "length ?other \<le> max_links g level" "set ?other \<subseteq> on_layer g level"
    using rd by (auto simp: list_ok_def)
  have set: "list_ok g level nb ns \<Longrightarrow> good_change level g (set_links g level nb ns) \<and>
      (\<forall>j \<in> on_layer g level. j \<noteq> nb \<longrightarrow> gr_links (set_links g level nb ns) ! j ! level = gr_links g ! j ! level)" for ns
    using set_links_change [OF ok nb] set_links_ok(4) [OF ok nb] by blast
  consider (present) "is_update" "cur \<in> set ?other" | (room) "cur \<notin> set ?other" "length ?other < max_links g level"
    | (full) "cur \<notin> set ?other" "\<not> length ?other < max_links g level" using new by blast
  then show ?thesis
  proof cases
    case present
    then show ?thesis using rd other(3) cur(2) lev good_change_refl [OF ok] by (auto simp: connect_one_def)
  next
    case room
    then have "list_ok g level nb (?other @ [cur])" using other cur by (auto simp: list_ok_def)
    from set [OF this] show ?thesis using room rd other(3) cur(2) lev by (auto simp: connect_one_def)
  next
    case full
    define dist where "dist = (\<lambda>j. (D (el_data (els ! j)) (el_data (els ! nb)), j))"
    let ?c = "map dist (cur # ?other)"
    have snd: "map snd ?c = cur # ?other" by (simp add: dist_def comp_def)
    then have "distinct (map snd ?c)" using full(1) other(1) by simp
    define kept where "kept = map snd (pq_drain by_first (neighbors_by_heuristic D els ?c (max_links g level)))"
    note d = drained_ok [OF \<open>distinct (map snd ?c)\<close>, where D = D and els = els and M = "max_links g level", folded kept_def]
    have "snd ` set ?c = set (map snd ?c)" by (simp only: set_map)
    then have "snd ` set ?c = insert cur (set ?other)" unfolding snd by simp
    then have "set kept \<subseteq> insert cur (set ?other)" using d(2) by (simp only:)
    then have "list_ok g level nb kept" using d(1,3) other cur by (auto simp: list_ok_def)
    note set [OF this]
    moreover have "connect_one D els cur level is_update g nb =
Inr (set_links g level nb kept)"
    proof -
      have "\<not> max_links g level < length ?other" "\<not> (is_update \<and> cur \<in> set ?other)" using full other(3) by simp_all
      then show ?thesis using full(2) cur(2) lev
        unfolding connect_one_def Let_def dist_def [symmetric] kept_def [symmetric] rd [THEN conjunct1] bindR_simps by (simp only: if_False)
    qed
    ultimately show ?thesis by blast
  qed
qed

lemma connect_all_ok:
  "links_ok g \<Longrightarrow> set nbs \<subseteq> on_layer g level \<Longrightarrow> cur \<in> on_layer g level \<Longrightarrow> cur \<notin> set nbs \<Longrightarrow> distinct nbs \<Longrightarrow>
     (\<not> is_update \<Longrightarrow> \<forall>nb \<in> set nbs. cur \<notin> set (gr_links g ! nb ! level)) \<Longrightarrow>
     \<exists>g'. connect_all D els cur level is_update g nbs = Inr g' \<and> good_change level g g'"
proof (induction nbs arbitrary: g)
  case Nil
  then show ?case by (simp add: good_change_refl)
next
  case (Cons nb nbs)
  obtain g1 where g1: "connect_one D els cur level is_update g nb = Inr g1" "good_change level g g1"
      "\<forall>j \<in> on_layer g level. j \<noteq> nb \<longrightarrow> gr_links g1 ! j ! level = gr_links g ! j ! level"
    using connect_one_ok [of g nb level cur is_update D els] Cons.prems by auto
  have sh: "on_layer g1 = on_layer g" using g1(2) same_shape_sel(8) [of g g1] by (simp add: good_change_def)
  have "\<not> is_update \<Longrightarrow> \<forall>nb \<in> set nbs. cur \<notin> set (gr_links g1 ! nb ! level)" using g1(3) Cons.prems(2,5,6) by auto
  then obtain g2 where "connect_all D els cur level is_update g1 nbs = Inr g2" "good_change level g1 g2"
    using Cons.IH [of g1] Cons.prems g1(2) by (auto simp: sh good_change_def)
  then show ?case using g1 good_change_trans by fastforce
qed

text \<open>None of the exceptions of \<open>mutuallyConnectNewElement\<close> is thrown; without candidates its behaviour is undefined.\<close>

lemma mutually_connect_ok:
  assumes ok: "links_ok g" and tops: "distinct (map snd tops)" "snd ` set tops \<subseteq> on_layer g level - {cur}" and cur: "cur \<in> on_layer g level"
    and new: "\<not> is_update \<Longrightarrow> gr_links g ! cur ! level = [] \<and> (\<forall>i \<in> on_layer g level. cur \<notin> set (gr_links g ! i ! level))"
  shows "if tops = [] then mutually_connect D els g cur tops level is_update = Inl Undefined
    else \<exists>obj g'. mutually_connect D els g cur tops level is_update = Inr (obj, g') \<and> good_change level g g' \<and> obj \<in> snd ` set tops"
proof -
  define best where "best = neighbors_by_heuristic D els tops (gr_M g)"
  define selected where "selected = map snd (pq_drain by_first best)"
  note n = neighbors_ok [OF tops(1), where D = D and els = els and M = "gr_M g", folded best_def]
  note d = drained_ok [OF tops(1), where D = D and els = els and M = "gr_M g", folded best_def selected_def]
  have M: "0 < gr_M g" using ok by (simp add: links_ok_def)
  show ?thesis
  proof (cases "tops = []")
    case True
    then show ?thesis by (simp add: mutually_connect_def Let_def neighbors_Nil pq_drain_Nil)
  next
    case False
    then have ne: "selected \<noteq> []" using d(4) M by blast
    have sel: "set selected \<subseteq> on_layer g level - {cur}" using d(2) tops(2) by blast
    have lev: "\<not> list_ex (\<lambda>nb. gr_levels g ! nb < level) selected"
      using sel on_layerD [of _ g level] by (fastforce simp: list_ex_iff)
    have "list_ok g level cur selected" using d(1,3) sel max_links_M [OF ok, of level] by (auto simp: list_ok_def selected_def)
    note g1 = set_links_change [OF ok cur this] set_links_ok [OF ok cur this]
    let ?g1 = "set_links g level cur selected"
    have sh: "on_layer ?g1 = on_layer g" using same_shape_sel(8) [OF g1(3)] .
    have "\<exists>g2. connect_all D els cur level is_update ?g1 selected = Inr g2 \<and> good_change level ?g1 g2"
    proof (rule connect_all_ok [OF g1(2)])
      show "set selected \<subseteq> on_layer ?g1 level" "cur \<in> on_layer ?g1 level" "cur \<notin> set selected" using sel cur unfolding sh by blast+
      show "distinct selected" using d(1) .
      show "\<forall>nb \<in> set selected. cur \<notin> set (gr_links ?g1 ! nb ! level)" if "\<not> is_update"
        using new [OF that] sel g1(5) by fastforce
    qed
    then obtain g2 where "connect_all D els cur level is_update ?g1 selected = Inr g2" "good_change level ?g1 g2" by blast
    moreover have "last selected \<in> snd ` set tops" using ne d(2) last_in_set by blast
    moreover have "mutually_connect D els g cur tops level is_update =
        bindR (connect_all D els cur level is_update ?g1 selected) (\<lambda>g1. Inr (last selected, g1))"
    proof -
      have "\<not> gr_M g < length best" "\<not> (gr_links g ! cur ! level \<noteq> [] \<and> \<not> is_update)" using n(3) new by auto
      then show ?thesis using ne lev
        unfolding mutually_connect_def Let_def best_def [symmetric] selected_def [symmetric] read_links_ok [OF ok cur, THEN conjunct1] bindR_simps
        by (simp only: if_False)
    qed
    ultimately show ?thesis using False good_change_trans [OF g1(1)] by auto
  qed
qed

end
