(* ===== verification/Hnsw_Update.thy ===== *)
theory Hnsw_Update
  imports Hnsw_Links
begin

text \<open>
  The insertion of an element and its update keep a graph well-formed.  An update always succeeds; an insertion does unless it finds
  no element to connect to, which can happen only among deleted elements.
\<close>

section \<open>Insertion\<close>

lemma with_entry_ok:
  assumes tops: "distinct (map snd tops)" "snd ` set tops \<subseteq> A" "\<forall>p \<in> set tops. \<not> el_deleted (els ! snd p)"
    and ep: "el_deleted (els ! ep) \<Longrightarrow> ep \<in> A" and efc: "0 < gr_efc g"
  shows "distinct (map snd (with_entry D els g q ep tops))" "snd ` set (with_entry D els g q ep tops) \<subseteq> A"
    "tops \<noteq> [] \<or> el_deleted (els ! ep) \<Longrightarrow> with_entry D els g q ep tops \<noteq> []"
proof -
  let ?t = "tops @ [(D q (el_data (els ! ep)), ep)]"
  have t: "distinct (map snd ?t)" "snd ` set ?t \<subseteq> A" if "el_deleted (els ! ep)" using tops ep that by auto
  note p = distinct_pq_pop [OF t(1), of by_first] pop_in [OF t(2), of by_first]
  have ne: "pq_pop by_first ?t \<noteq> []" if "gr_efc g < length ?t"
  proof -
    have "?t \<noteq> []" by simp
    from length_pq_pop [OF this, of by_first] that efc have "0 < length (pq_pop by_first ?t)" by linarith
    then show ?thesis by (rule length_greater_0_conv [THEN iffD1])
  qed
  show "distinct (map snd (with_entry D els g q ep tops))" "snd ` set (with_entry D els g q ep tops) \<subseteq> A"
    "tops \<noteq> [] \<or> el_deleted (els ! ep) \<Longrightarrow> with_entry D els g q ep tops \<noteq> []"
    using tops(1,2) t p ne unfolding with_entry_def Let_def by (cases "el_deleted (els ! ep)"; simp)+
qed

text \<open>What is known about the search of a layer that is used for connections.\<close>

lemma search_for_links:
  assumes "closed_reader A L" "A \<subseteq> {..<length els}" "obj \<in> A" "0 < efc"
  obtains tops where "search_layer D L els q efc True obj = Inr tops" "distinct (map snd tops)" "snd ` set tops \<subseteq> A"
    "\<forall>p \<in> set tops. \<not> el_deleted (els ! snd p)" "el_deleted (els ! obj) \<or> tops \<noteq> []"
proof -
  obtain tops where t: "search_layer D L els q efc True obj = Inr tops" "snd ` set tops \<subseteq> A"
      "0 < efc \<and> (True \<longrightarrow> \<not> el_deleted (els ! obj)) \<longrightarrow> tops \<noteq> []"
    using search_layer_in [OF assms(1-3), of D q efc True] by blast
  then show thesis using that [of tops] search_layer_sound [OF t(1)] assms(4) by fastforce
qed

definition no_deletions :: "hnsw_elem list \<Rightarrow> bool" where
  "no_deletions els \<longleftrightarrow> (\<forall>i < length els. \<not> el_deleted (els ! i))"

text \<open>\<open>cur\<close> has no links yet, in neither direction.\<close>

definition blank_below :: "'r graph \<Rightarrow> nat \<Rightarrow> nat \<Rightarrow> bool" where
  "blank_below g cur level \<longleftrightarrow>
     (\<forall>l \<le> level. gr_links g ! cur ! l = [] \<and> (\<forall>i \<in> on_layer g l. cur \<notin> set (gr_links g ! i ! l)))"

lemma blank_below_step:
  assumes "blank_below g cur (Suc level)" "good_change (Suc level) g g'" "cur \<in> on_layer g (Suc level)"
  shows "blank_below g' cur level"
  unfolding blank_below_def
proof (intro allI impI)
  fix l assume l: "l \<le> level"
  have cur: "cur \<in> on_layer g l" using assms(3) on_layer_mono [of l "Suc level" g] l by auto
  have "same_layer l g g'" "on_layer g' l = on_layer g l" "l \<le> Suc level"
    using assms(2) l same_shape_sel(8) [of g g'] by (simp_all add: good_change_def)
  then show "gr_links g' ! cur ! l = [] \<and> (\<forall>i \<in> on_layer g' l. cur \<notin> set (gr_links g' ! i ! l))"
    using assms(1) cur by (simp add: blank_below_def same_layer_def)
qed

lemma connect_layer_ok:
  assumes ok: "links_ok g" and obj: "obj \<in> on_layer g level - {cur}" and cur: "cur \<in> on_layer g level"
    and ep: "ep \<in> on_layer g level - {cur}" and n: "length els = length (gr_levels g)" and blank: "blank_below g cur level"
  shows "connect_layers D els cur ep level obj g = Inl Undefined \<and> \<not> el_deleted (els ! ep) \<and> \<not> no_deletions els \<or>
    (\<exists>obj1 g1. obj1 \<in> on_layer g level - {cur} \<and> good_change level g g1 \<and>
       connect_layers D els cur ep level obj g = (case level of 0 \<Rightarrow> Inr g1 | Suc l \<Rightarrow> connect_layers D els cur ep l obj1 g1))"
proof -
  let ?A = "on_layer g level - {cur}" and ?L = "read_links g level" and ?q = "el_data (els ! cur)"
  have A: "?A \<subseteq> {..<length els}" using n by (auto simp: on_layer_def)
  have new: "gr_links g ! cur ! level = []" "\<forall>i \<in> on_layer g level. cur \<notin> set (gr_links g ! i ! level)"
    using blank by (simp_all add: blank_below_def)
  have closed: "closed_reader ?A ?L"
    unfolding closed_reader_def
  proof
    fix i assume "i \<in> ?A"
    then have i: "i \<in> on_layer g level" by simp
    then show "\<exists>ns. ?L i = Inr ns \<and> set ns \<subseteq> ?A" using read_links_ok [OF ok i] new(2) by (auto simp: list_ok_def)
  qed
  have efc: "0 < gr_efc g" using ok by (simp add: links_ok_def)
  obtain tops where tops: "search_layer D ?L els ?q (gr_efc g) True obj = Inr tops" "distinct (map snd tops)" "snd ` set tops \<subseteq> ?A"
      "\<forall>p \<in> set tops. \<not> el_deleted (els ! snd p)" "el_deleted (els ! obj) \<or> tops \<noteq> []"
    by (rule search_for_links [OF closed A obj efc, of D ?q])
  let ?t = "with_entry D els g ?q ep tops"
  note w = with_entry_ok [OF tops(2-4) ep efc, where D = D and q = ?q]
  note m = mutually_connect_ok [OF ok w(1,2) cur, of False D els]
  have "?t = [] \<and> mutually_connect D els g cur ?t level False = Inl Undefined \<and> \<not> el_deleted (els ! ep) \<and> \<not> no_deletions els \<or>
      (\<exists>obj1 g1. mutually_connect D els g cur ?t level False = Inr (obj1, g1) \<and> good_change level g g1 \<and> obj1 \<in> ?A)"
  proof (cases "?t = []")
    case True
    have "obj < length els" using obj A by auto
    then have "\<not> el_deleted (els ! ep) \<and> \<not> no_deletions els" using True w(3) tops(5) by (auto simp: no_deletions_def)
    then show ?thesis using True m new by simp
  next
    case False
    then show ?thesis using m new w(2) by auto
  qed
  moreover have "connect_layers D els cur ep level obj g =
      bindR (mutually_connect D els g cur ?t level False) (\<lambda>(obj1, g1).
        case level of 0 \<Rightarrow> Inr g1 | Suc l \<Rightarrow> connect_layers D els cur ep l obj1 g1)"
    using tops(1) by (subst connect_layers.simps) (simp add: Let_def)
  ultimately show ?thesis by (elim disjE exE conjE) auto
qed

lemma connect_layers_ok:
  "links_ok g \<Longrightarrow> obj \<in> on_layer g level - {cur} \<Longrightarrow> cur \<in> on_layer g level \<Longrightarrow> ep \<in> on_layer g level - {cur} \<Longrightarrow>
     length els = length (gr_levels g) \<Longrightarrow> blank_below g cur level \<Longrightarrow>
     connect_layers D els cur ep level obj g = Inl Undefined \<and> \<not> el_deleted (els ! ep) \<and> \<not> no_deletions els \<or>
     (\<exists>g'. connect_layers D els cur ep level obj g = Inr g' \<and> links_ok g' \<and> same_shape g g')"
proof (induction level arbitrary: obj g)
  case 0
  then show ?case using connect_layer_ok [OF 0, of D] by (auto simp: good_change_def)
next
  case (Suc level)
  from connect_layer_ok [OF Suc.prems, of D] show ?case
  proof (elim disjE exE conjE)
    fix obj1 g1 assume g1: "obj1 \<in> on_layer g (Suc level) - {cur}" "good_change (Suc level) g g1"
      "connect_layers D els cur ep (Suc level) obj g = (case Suc level of 0 \<Rightarrow> Inr g1 | Suc l \<Rightarrow> connect_layers D els cur ep l obj1 g1)"
    have sh: "same_shape g g1" and ok: "links_ok g1" using g1(2) by (simp_all add: good_change_def)
    have sub: "on_layer g (Suc level) \<subseteq> on_layer g1 level" using on_layer_mono [of level "Suc level" g] same_shape_sel(8) [OF sh] by simp
    have "connect_layers D els cur ep level obj1 g1 = Inl Undefined \<and> \<not> el_deleted (els ! ep) \<and> \<not> no_deletions els \<or>
        (\<exists>g'. connect_layers D els cur ep level obj1 g1 = Inr g' \<and> links_ok g' \<and> same_shape g1 g')"
      using Suc.prems sub g1(1) blank_below_step [OF Suc.prems(6) g1(2) Suc.prems(3)] same_shape_sel(1) [OF sh]
      by (intro Suc.IH [OF ok]) auto
    then show ?thesis using g1(3) same_shape_trans [OF sh] by auto
  qed simp
qed

text \<open>The new element with its blank lists.\<close>

lemma extend_ok:
  fixes g :: "'r graph" and lev :: nat and r :: 'r
  assumes ok: "links_ok g"
  defines "g1 \<equiv> g\<lparr>gr_levels := gr_levels g @ [lev], gr_links := gr_links g @ [replicate (lev + 1) []], gr_random := r\<rparr>"
  shows "links_ok g1" "\<And>l. on_layer g1 l = on_layer g l \<union> (if l \<le> lev then {length (gr_levels g)} else {})"
    "\<And>l. l \<le> lev \<Longrightarrow> blank_below g1 (length (gr_levels g)) l" "closed_layers (on_layer g) g1"
proof -
  let ?n = "length (gr_levels g)"
  show on: "on_layer g1 l = on_layer g l \<union> (if l \<le> lev then {?n} else {})" for l
    by (auto simp: on_layer_def g1_def nth_append less_Suc_eq)
  have len: "length (gr_links g) = ?n" using ok by (simp add: links_ok_def)
  have M: "max_links g1 = max_links g" by (simp add: max_links_def g1_def fun_eq_iff)
  have old: "gr_links g1 ! i ! l = gr_links g ! i ! l" if "i \<in> on_layer g l" for i l
    using that len by (simp add: g1_def nth_append on_layer_def)
  have blank: "gr_links g1 ! ?n ! l = []" if "l \<le> lev" for l using that len by (simp add: g1_def nth_append del: replicate_Suc)
  have notin: "?n \<notin> on_layer g l" for l by (simp add: on_layer_def)
  have lists: "list_ok g l i (gr_links g ! i ! l)" if "i \<in> on_layer g l" for i l using read_links_ok [OF ok that] by simp
  have "list_ok g1 l i (gr_links g1 ! i ! l)" if "i \<in> on_layer g1 l" for i l
    using that lists [of i l] old [of i l] blank [of l] by (auto simp: on list_ok_def M split: if_splits)
  moreover have "length (gr_links g1 ! i) = Suc (gr_levels g1 ! i)" if "i < length (gr_levels g1)" for i
    using that ok len by (auto simp: g1_def nth_append links_ok_def)
  ultimately show "links_ok g1" using ok by (simp add: links_ok_def) (simp add: g1_def)
  have "?n \<notin> set (gr_links g1 ! i ! l)" if "i \<in> on_layer g1 l" for i l
  proof (cases "i \<in> on_layer g l")
    case True
    then show ?thesis using lists old notin [of l] by (auto simp: list_ok_def)
  next
    case False
    then show ?thesis using that blank [of l] by (auto simp: on split: if_splits)
  qed
  then show "l \<le> lev \<Longrightarrow> blank_below g1 ?n l" for l using blank by (simp add: blank_below_def)
  have "read_links g1 l i = read_links g l i" if "i \<in> on_layer g l" for i l
    using that len ok by (auto simp: read_links_def g1_def nth_append on_layer_def links_ok_def)
  then show "closed_layers (on_layer g) g1"
    using layers_closed [OF ok] by (simp add: closed_layers_def closed_reader_def)
qed

text \<open>The entry point does not matter for the links.\<close>

lemma links_ok_entry: "links_ok (g\<lparr>gr_enter := e, gr_maxlevel := l\<rparr>) = links_ok g"
proof -
  let ?g = "g\<lparr>gr_enter := e, gr_maxlevel := l\<rparr>"
  have on: "on_layer ?g = on_layer g" "max_links ?g = max_links g" by (simp_all add: on_layer_def max_links_def fun_eq_iff)
  then have "list_ok ?g = list_ok g" by (simp add: list_ok_def fun_eq_iff)
  then show ?thesis by (simp add: links_ok_def on)
qed

text \<open>An insertion gives a well-formed graph, or it finds no candidate to connect to, which is undefined; the latter needs deleted
  elements, and an entry point that is not one of them.\<close>

lemma insert_element_ok:
  assumes ok: "graph_ok g" and n: "length els = Suc (length (gr_levels g))" and lev: "0 \<le> fst (ge_level E (gr_M g) (gr_random g))"
  shows "insert_element E els (length (gr_levels g)) g = Inl Undefined \<and> \<not> el_deleted (els ! gr_enter g) \<and> \<not> no_deletions els \<or>
    (\<exists>g'. insert_element E els (length (gr_levels g)) g = Inr g' \<and> graph_ok g' \<and> length (gr_levels g') = length els \<and>
       gr_M g' = gr_M g)"
proof -
  obtain curlevel r where lr: "ge_level E (gr_M g) (gr_random g) = (int curlevel, r)"
    using lev by (metis nonneg_int_cases surjective_pairing)
  let ?cur = "length (gr_levels g)" and ?D = "ge_dist E"
  define g1 where "g1 = g\<lparr>gr_levels := gr_levels g @ [curlevel], gr_links := gr_links g @ [replicate (curlevel + 1) []], gr_random := r\<rparr>"
  have links: "links_ok g" and entry: "entry_ok g" using ok by (simp_all add: graph_ok_def)
  note ext = extend_ok [OF links, where lev = curlevel and r = r, folded g1_def]
  have lv1: "gr_levels g1 = gr_levels g @ [curlevel]" "gr_enter g1 = gr_enter g" "gr_maxlevel g1 = gr_maxlevel g" "gr_M g1 = gr_M g"
    by (simp_all add: g1_def)
  show ?thesis
  proof (cases "gr_levels g = []")
    case True
    then have "insert_element E els ?cur g = Inr (g1\<lparr>gr_enter := ?cur, gr_maxlevel := int curlevel\<rparr>)"
      using entry lr by (simp add: insert_element_def entry_ok_def g1_def)
    moreover have "graph_ok (g1\<lparr>gr_enter := ?cur, gr_maxlevel := int curlevel\<rparr>)"
      using ext(1) True lv1(1) by (simp add: graph_ok_def links_ok_entry entry_ok_def)
    ultimately show ?thesis using n lv1 by simp
  next
    case False
    let ?ep = "gr_enter g" and ?top = "gr_levels g ! gr_enter g"
    have ep: "?ep < ?cur" "gr_maxlevel g = int ?top" and top: "\<And>i. i < ?cur \<Longrightarrow> gr_levels g ! i \<le> ?top"
      using entry False by (auto simp: entry_ok_def)
    have ep1: "gr_levels g1 ! ?ep = ?top" using ep(1) by (simp add: lv1(1) nth_append)
    have len1: "length els = length (gr_levels g1)" using n by (simp add: lv1(1))
    let ?l = "min curlevel ?top"
    have A: "on_layer g 0 \<subseteq> {..<length els}" using n by (auto simp: on_layer_def)
    obtain obj where obj: "find_entry ?D g1 els (el_data (els ! ?cur)) curlevel = Inr obj" "obj \<in> on_layer g ?l" "?top \<le> curlevel \<longrightarrow> obj = ?ep"
      using find_entry_ok [OF ext(4) A, of ?top ?D "el_data (els ! ?cur)" curlevel] ep n by (auto simp: lv1 on_layer_def)
    have obj1: "obj \<in> on_layer g1 ?l - {?cur}" using obj(2) on_layerD [of obj g] by (auto simp: ext(2))
    have on: "?cur \<in> on_layer g1 ?l" "?ep \<in> on_layer g1 ?l - {?cur}" using ep by (auto simp: ext(2) [of ?l]) (simp add: on_layer_def)
    have step: "insert_element E els ?cur g = bindR (connect_layers ?D els ?cur ?ep ?l obj g1) (\<lambda>g2.
        Inr (if int ?top < int curlevel then g2\<lparr>gr_enter := ?cur, gr_maxlevel := int curlevel\<rparr> else g2))"
      using lr ep obj(1) by (simp add: insert_element_def g1_def flip: of_nat_min)
    from connect_layers_ok [OF ext(1) obj1 on len1 ext(3) [of ?l, OF min.cobounded1], of ?D]
    show ?thesis
    proof (elim disjE conjE exE)
      assume "connect_layers ?D els ?cur ?ep ?l obj g1 = Inl Undefined" "\<not> el_deleted (els ! ?ep)" "\<not> no_deletions els"
      then show ?thesis using step by simp
    next
      fix g2 assume g2: "connect_layers ?D els ?cur ?ep ?l obj g1 = Inr g2" "links_ok g2" "same_shape g1 g2"
      let ?g3 = "if int ?top < int curlevel then g2\<lparr>gr_enter := ?cur, gr_maxlevel := int curlevel\<rparr> else g2"
      note sh = same_shape_sel [OF g2(3)]
      have "links_ok ?g3" using g2(2) by (simp add: links_ok_entry)
      moreover have "entry_ok ?g3" using ep top
        by (auto simp: entry_ok_def sh lv1 nth_append less_Suc_eq) (fastforce intro: order_trans less_imp_le)+
      ultimately show ?thesis using step g2(1) n by (auto simp: graph_ok_def sh lv1)
    qed
  qed
qed

section \<open>Update\<close>

text \<open>\<open>std::unordered_set\<close>: every element once, in some order.\<close>

definition order_ok :: "'r graph_env \<Rightarrow> bool" where
  "order_ok E \<longleftrightarrow> (\<forall>xs. distinct (ge_order E xs) \<and> set (ge_order E xs) = set xs)"

lemma keep_closest_ok:
  "0 < keep \<Longrightarrow> distinct (map snd q @ cs) \<Longrightarrow>
     \<exists>r. keep_closest D els neigh keep q cs = Inr r \<and> distinct (map snd r) \<and> snd ` set r \<subseteq> snd ` set q \<union> (set cs - {neigh})"
proof (induction cs arbitrary: q)
  case (Cons c cs)
  let ?d = "D (el_data (els ! neigh)) (el_data (els ! c))"
  have rest: "distinct (map snd q @ cs)" using Cons.prems(2) by simp
  have sub: "snd ` set q \<union> (set cs - {neigh}) \<subseteq> snd ` set q \<union> (set (c # cs) - {neigh})" by auto
  have more: "\<exists>r. keep_closest D els neigh keep (q' @ [(?d, c)]) cs = Inr r \<and> distinct (map snd r) \<and> snd ` set r \<subseteq> snd ` set q \<union> (set (c # cs) - {neigh})"
    if "c \<noteq> neigh" "distinct (map snd q')" "snd ` set q' \<subseteq> snd ` set q" for q'
  proof -
    have "distinct (map snd (q' @ [(?d, c)]) @ cs)" using Cons.prems(2) that by auto
    from Cons.IH [OF Cons.prems(1) this] obtain r where "keep_closest D els neigh keep (q' @ [(?d, c)]) cs = Inr r" "distinct (map snd r)"
      "snd ` set r \<subseteq> snd ` set (q' @ [(?d, c)]) \<union> (set cs - {neigh})" by blast
    moreover have "snd ` set (q' @ [(?d, c)]) \<union> (set cs - {neigh}) \<subseteq> snd ` set q \<union> (set (c # cs) - {neigh})" using that by auto
    ultimately show ?thesis by blast
  qed
  have ih: "\<exists>r. keep_closest D els neigh keep q cs = Inr r \<and> distinct (map snd r) \<and> snd ` set r \<subseteq> snd ` set q \<union> (set (c # cs) - {neigh})"
    using Cons.IH [OF Cons.prems(1) rest] sub by blast
  consider "c = neigh" | "c \<noteq> neigh" "length q < keep"
    | "c \<noteq> neigh" "\<not> length q < keep" "f32_less ?d (fst (pq_top by_first q))"
    | "c \<noteq> neigh" "\<not> length q < keep" "\<not> f32_less ?d (fst (pq_top by_first q))" by blast
  then show ?case
  proof cases
    case 1
    then show ?thesis using ih by simp
  next
    case 2
    then show ?thesis using more [of q] Cons.prems(2) by (simp add: Let_def)
  next
    case 3
    have d: "distinct (map snd (pq_pop by_first q))" using Cons.prems(2) by (intro distinct_pq_pop) simp
    show ?thesis using more [OF 3(1) d image_mono [OF set_pq_pop]] 3 Cons.prems(1) by (auto simp: Let_def)
  next
    case 4
    then have "keep_closest D els neigh keep q (c # cs) = keep_closest D els neigh keep q cs"
      using Cons.prems(1) by (auto simp: Let_def)
    then show ?thesis using ih by simp
  qed
qed simp

lemma reconnect_ok:
  assumes ok: "links_ok g" and sc: "distinct sCand" "set sCand \<subseteq> on_layer g layer" and neigh: "neigh \<in> on_layer g layer"
    and i: "i \<in> set sCand" "i \<noteq> neigh"
  shows "\<exists>g'. reconnect D els layer sCand g neigh = Inr g' \<and> good_change layer g g'"
proof -
  define size where "size = (if neigh \<in> set sCand then length sCand - 1 else length sCand)"
  have "0 < size"
  proof (cases "neigh \<in> set sCand")
    case True
    have "card {i, neigh} \<le> card (set sCand)" using i True by (intro card_mono) auto
    then have "2 \<le> length sCand" using i sc(1) by (simp add: distinct_card)
    then show ?thesis using True by (simp add: size_def)
  next
    case False
    then show ?thesis using i by (cases sCand) (auto simp: size_def)
  qed
  then have "0 < min (gr_efc g) size" using ok by (simp add: links_ok_def)
  from keep_closest_ok [OF this, of "[]" sCand D els neigh] sc(1) obtain c where
    c: "keep_closest D els neigh (min (gr_efc g) size) [] sCand = Inr c" "distinct (map snd c)" "snd ` set c \<subseteq> set sCand - {neigh}" by auto
  let ?ns = "map snd (pq_drain by_first (neighbors_by_heuristic D els c (max_links g layer)))"
  have "set ?ns \<subseteq> set sCand - {neigh}" using drained_ok(2) [OF c(2)] c(3) by (rule order_trans)
  then have "list_ok g layer neigh ?ns" using drained_ok(1,3) [OF c(2)] sc(2) unfolding list_ok_def by blast
  note set_links_change [OF ok neigh this]
  moreover have "reconnect D els layer sCand g neigh = Inr (set_links g layer neigh ?ns)"
    using c(1) read_links_ok [OF ok neigh] by (simp add: reconnect_def Let_def flip: size_def)
  ultimately show ?thesis by blast
qed

lemma reconnect_all_ok:
  "links_ok g \<Longrightarrow> distinct sCand \<Longrightarrow> set sCand \<subseteq> on_layer g layer \<Longrightarrow> set ns \<subseteq> on_layer g layer - {i} \<Longrightarrow> i \<in> set sCand \<Longrightarrow>
     \<exists>g'. reconnect_all D els layer sCand g ns = Inr g' \<and> good_change layer g g'"
proof (induction ns arbitrary: g)
  case Nil
  then show ?case by (simp add: good_change_refl)
next
  case (Cons n ns)
  obtain g1 where g1: "reconnect D els layer sCand g n = Inr g1" "good_change layer g g1"
    using reconnect_ok [OF Cons.prems(1-3), of n i D els] Cons.prems(4,5) by auto
  then have "links_ok g1" "on_layer g1 = on_layer g" using same_shape_sel(8) [of g g1] by (simp_all add: good_change_def)
  then obtain g2 where "reconnect_all D els layer sCand g1 ns = Inr g2" "good_change layer g1 g2"
    using Cons.IH [of g1] Cons.prems by auto
  then show ?case using g1 good_change_trans [OF g1(2)] by auto
qed

lemma mapR_total: "(\<And>x. x \<in> set xs \<Longrightarrow> f x = Inr (h x)) \<Longrightarrow> mapR f xs = Inr (map h xs)"
  by (induction xs) auto

lemma update_layer_ok:
  assumes ok: "links_ok g" and E: "order_ok E" and i: "i \<in> on_layer g layer"
  shows "\<exists>g'. update_layer E els i g layer = Inr g' \<and> links_ok g' \<and> same_shape g g'"
proof -
  let ?one = "gr_links g ! i ! layer" and ?hops = "\<lambda>e. e # gr_links g ! e ! layer"
  have one: "read_links g layer i = Inr ?one" "i \<notin> set ?one" "set ?one \<subseteq> on_layer g layer"
    using read_links_ok [OF ok i] by (auto simp: list_ok_def)
  have two: "read_links g layer e = Inr (gr_links g ! e ! layer)" "set (?hops e) \<subseteq> on_layer g layer" if "e \<in> set ?one" for e
    using read_links_ok [OF ok, of e layer] one(3) that by (auto simp: list_ok_def)
  have hops: "mapR (\<lambda>e. bindR (read_links g layer e) (\<lambda>two_hop. Inr (e # two_hop))) ?one = Inr (map ?hops ?one)"
    by (rule mapR_total) (simp add: two)
  define sCand where "sCand = ge_order E (i # concat (map ?hops ?one))"
  have sc: "distinct sCand" "set sCand = insert i (\<Union> (set ` ?hops ` set ?one))" using E by (simp_all add: order_ok_def sCand_def)
  have "set sCand \<subseteq> on_layer g layer" "i \<in> set sCand" unfolding sc(2) using i two(2) by blast+
  moreover have "set (ge_order E ?one) \<subseteq> on_layer g layer - {i}" using E one by (auto simp: order_ok_def)
  ultimately obtain g' where "reconnect_all (ge_dist E) els layer sCand g (ge_order E ?one) = Inr g'" "good_change layer g g'"
    using reconnect_all_ok [OF ok sc(1), of layer "ge_order E ?one" i "ge_dist E" els] by blast
  then show ?thesis using one(1) hops ok by (cases "?one = []") (auto simp: update_layer_def good_change_def sCand_def)
qed

lemma update_layers_ok:
  "links_ok g \<Longrightarrow> order_ok E \<Longrightarrow> (\<forall>l \<in> set layers. i \<in> on_layer g l) \<Longrightarrow>
     \<exists>g'. update_layers E els i g layers = Inr g' \<and> links_ok g' \<and> same_shape g g'"
proof (induction layers arbitrary: g)
  case (Cons l layers)
  obtain g1 where g1: "update_layer E els i g l = Inr g1" "links_ok g1" "same_shape g g1"
    using update_layer_ok [OF Cons.prems(1,2), of i l els] Cons.prems(3) by auto
  obtain g2 where "update_layers E els i g1 layers = Inr g2" "links_ok g2" "same_shape g1 g2"
    using Cons.IH [OF g1(2)] Cons.prems same_shape_sel(8) [OF g1(3)] by auto
  then show ?case using g1 same_shape_trans [OF g1(3)] by auto
qed simp

lemma repair_layer_ok:
  assumes ok: "links_ok g" and n: "length els = length (gr_levels g)" and on: "i \<in> on_layer g level" "ep \<in> on_layer g level" "obj \<in> on_layer g level"
    and del: "\<not> el_deleted (els ! i)"
  shows "\<exists>obj1 g1. obj1 \<in> on_layer g level \<and> links_ok g1 \<and> same_shape g g1 \<and>
       repair_layers D els i ep level obj g = (case level of 0 \<Rightarrow> Inr g1 | Suc l \<Rightarrow> repair_layers D els i ep l obj1 g1)"
proof -
  let ?L = "read_links g level" and ?q = "el_data (els ! i)"
  have A: "on_layer g level \<subseteq> {..<length els}" using n by (auto simp: on_layer_def)
  have efc: "0 < gr_efc g" using ok by (simp add: links_ok_def)
  obtain tops where tops: "search_layer D ?L els ?q (gr_efc g) True obj = Inr tops" "distinct (map snd tops)" "snd ` set tops \<subseteq> on_layer g level"
      "\<forall>p \<in> set tops. \<not> el_deleted (els ! snd p)"
    by (rule search_for_links [OF layer_closed [OF ok] A on(3) efc, of D ?q])
  define filtered where "filtered = filter (\<lambda>p. snd p \<noteq> i) (pq_drain by_first tops)"
  have f: "distinct (map snd filtered)" "snd ` set filtered \<subseteq> on_layer g level - {i}" "\<forall>p \<in> set filtered. \<not> el_deleted (els ! snd p)"
    using pq_drain_distinct [OF tops(2), of by_first] tops(3,4) by (auto simp: filtered_def distinct_map_filter)
  define r where "r = (if filtered = [] then Inr (obj, g) else mutually_connect D els g i (with_entry D els g ?q ep filtered) level True)"
  have "\<exists>obj1 g1. r = Inr (obj1, g1) \<and> obj1 \<in> on_layer g level \<and> links_ok g1 \<and> same_shape g g1"
  proof (cases "filtered = []")
    case True
    then show ?thesis using on(3) ok by (simp add: r_def)
  next
    case False
    have ep: "el_deleted (els ! ep) \<Longrightarrow> ep \<in> on_layer g level - {i}" using on(2) del by auto
    note w = with_entry_ok [OF f ep efc, where D = D and q = ?q]
    have "with_entry D els g ?q ep filtered \<noteq> []" using w(3) False by blast
    with mutually_connect_ok [OF ok w(1,2) on(1), of True D els]
    obtain obj1 g1 where "mutually_connect D els g i (with_entry D els g ?q ep filtered) level True = Inr (obj1, g1)" "good_change level g g1"
      "obj1 \<in> snd ` set (with_entry D els g ?q ep filtered)" by auto
    then show ?thesis using w(2) False by (auto simp: r_def good_change_def)
  qed
  moreover have "repair_layers D els i ep level obj g =
      bindR r (\<lambda>(obj1, g1). case level of 0 \<Rightarrow> Inr g1 | Suc l \<Rightarrow> repair_layers D els i ep l obj1 g1)"
    using tops(1) by (subst repair_layers.simps) (simp add: Let_def r_def filtered_def)
  ultimately show ?thesis by (elim exE conjE, intro exI conjI) (assumption | simp)+
qed

lemma repair_layers_ok:
  "links_ok g \<Longrightarrow> length els = length (gr_levels g) \<Longrightarrow> i \<in> on_layer g level \<Longrightarrow> ep \<in> on_layer g level \<Longrightarrow> obj \<in> on_layer g level \<Longrightarrow>
     \<not> el_deleted (els ! i) \<Longrightarrow> \<exists>g'. repair_layers D els i ep level obj g = Inr g' \<and> links_ok g' \<and> same_shape g g'"
proof (induction level arbitrary: obj g)
  case 0
  then show ?case using repair_layer_ok [OF 0, of D] by auto
next
  case (Suc level)
  obtain obj1 g1 where g1: "obj1 \<in> on_layer g (Suc level)" "links_ok g1" "same_shape g g1"
    "repair_layers D els i ep (Suc level) obj g = repair_layers D els i ep level obj1 g1"
    using repair_layer_ok [OF Suc.prems, of D] by auto
  have "on_layer g (Suc level) \<subseteq> on_layer g1 level" using on_layer_mono [of level "Suc level" g] same_shape_sel(8) [OF g1(3)] by simp
  then obtain g2 where "repair_layers D els i ep level obj1 g1 = Inr g2" "links_ok g2" "same_shape g1 g2"
    using Suc.IH [OF g1(2), of obj1] Suc.prems g1(1) same_shape_sel(1) [OF g1(3)] by auto
  then show ?case using g1(4) same_shape_trans [OF g1(3)] by auto
qed

text \<open>An update never fails: neither \<open>cannot be bigger than max level\<close> nor any error of \<open>mutuallyConnectNewElement\<close>.\<close>

lemma update_element_ok:
  assumes ok: "graph_ok g" and E: "order_ok E" and n: "length els = length (gr_levels g)" and i: "i < length els" "\<not> el_deleted (els ! i)"
  shows "\<exists>g'. update_element E els i g = Inr g' \<and> graph_ok g' \<and> same_shape g g'"
proof (cases "gr_enter g = i \<and> length els = 1")
  case True
  then show ?thesis using ok by (simp add: update_element_def)
next
  case False
  let ?D = "ge_dist E" and ?lev = "gr_levels g ! i" and ?tp = "gr_levels g ! gr_enter g"
  have links: "links_ok g" and entry: "entry_ok g" using ok by (simp_all add: graph_ok_def)
  have "gr_levels g \<noteq> []" using n i by auto
  then have ep: "gr_enter g < length els" "gr_maxlevel g = int ?tp" "?lev \<le> ?tp" using entry i n by (auto simp: entry_ok_def)
  have "\<forall>l \<in> set [0..<?lev + 1]. i \<in> on_layer g l" using i n by (auto simp: on_layer_def)
  from update_layers_ok [OF links E this, of els] obtain g1 where
    g1: "update_layers E els i g [0..<?lev + 1] = Inr g1" "links_ok g1" "same_shape g g1" by blast
  note sh = same_shape_sel [OF g1(3)]
  have A: "on_layer g1 0 \<subseteq> {..<length els}" using n by (auto simp: on_layer_def sh)
  have "gr_enter g1 \<in> on_layer g1 ?tp" "gr_maxlevel g1 = int ?tp" "gr_enter g1 < length els" using ep n by (auto simp: on_layer_def sh)
  from find_entry_ok [OF layers_closed [OF g1(2)] A this, of ?D "el_data (els ! i)" ?lev] ep(3) obtain obj where
    obj: "find_entry ?D g1 els (el_data (els ! i)) ?lev = Inr obj" "obj \<in> on_layer g1 ?lev" by (auto simp: min_absorb1)
  have on: "i \<in> on_layer g1 ?lev" "gr_enter g \<in> on_layer g1 ?lev" using i n ep by (auto simp: on_layer_def sh)
  have n1: "length els = length (gr_levels g1)" using n by (simp add: sh)
  from repair_layers_ok [OF g1(2) n1 on obj(2) i(2), of ?D] obtain g2 where
    g2: "repair_layers ?D els i (gr_enter g) ?lev obj g1 = Inr g2" "links_ok g2" "same_shape g1 g2" by blast
  have "repair_connections ?D els i g1 = Inr g2" using g2(1) obj(1) ep by (simp add: repair_connections_def sh)
  then have "update_element E els i g = Inr g2" using False g1(1) by (auto simp: update_element_def)
  moreover have "graph_ok g2" using g2 entry sh same_shape_sel(10) [OF g2(3)] by (simp add: graph_ok_def)
  ultimately show ?thesis using same_shape_trans [OF g1(3) g2(3)] by blast
qed

end
