(* ===== verification/Hnsw_Index.thy ===== *)
theory Hnsw_Index
  imports Hnsw_Update Hnsw
begin

text \<open>
  The index of \<open>Hnswlib\<close> with the graph of \<open>Hnsw_Graph\<close>: the states it can be in, and what a search finds in them.  What a search needs of a graph
  is the locale \<open>search_graph\<close>; \<open>hnswlib_ops\<close> is an instance.
\<close>

section \<open>The index with its graph\<close>

text \<open>What is assumed about the environment: the set iteration, and levels that are not negative for this \<open>M\<close>.\<close>

definition env_ok :: "'r graph_env \<Rightarrow> nat \<Rightarrow> bool" where
  "env_ok E M \<longleftrightarrow> order_ok E \<and> (\<forall>r. 0 \<le> fst (ge_level E M r))"

definition graph_of :: "'r graph res hnsw \<Rightarrow> nat \<Rightarrow> 'r graph \<Rightarrow> bool" where
  "graph_of h M g \<longleftrightarrow> hgraph h = Inr g \<and> graph_ok g \<and> length (gr_levels g) = length (elems h) \<and> gr_M g = M"

definition index_good :: "nat \<Rightarrow> 'r graph res hnsw \<Rightarrow> bool" where
  "index_good M h \<longleftrightarrow> hnsw_ok h \<and> (hgraph h = Inl Undefined \<or> (\<exists>g. graph_of h M g))"

text \<open>The states of an index: it is created, points are added, overwritten and deleted.\<close>

inductive index_state :: "'r graph_env \<Rightarrow> nat \<Rightarrow> u64 \<Rightarrow> u64 \<Rightarrow> u64 \<Rightarrow> 'r graph res hnsw \<Rightarrow> bool"
  for E dim maxe m efc where
  index_new: "hnsw_new (hnswlib_ops E) dim maxe m efc = Inr h \<Longrightarrow> index_state E dim maxe m efc h"
| index_add: "index_state E dim maxe m efc h \<Longrightarrow> add_point (hnswlib_ops E) h v l = Inr h' \<Longrightarrow> index_state E dim maxe m efc h'"
| index_del: "index_state E dim maxe m efc h \<Longrightarrow> mark_delete h l = Inr h' \<Longrightarrow> index_state E dim maxe m efc h'"

lemma hnswlib_ops_simps [simp]:
  "g_empty (hnswlib_ops E) m efc = Inr (graph_new E m efc)"
  "g_insert (hnswlib_ops E) g els i = bindR g (insert_element E els i)"
  "g_update (hnswlib_ops E) g els i = bindR g (update_element E els i)"
  "g_descend (hnswlib_ops E) g els q = bindR g (\<lambda>g. find_entry (ge_dist E) g els q 0)"
  "g_links (hnswlib_ops E) g i = bindR g (\<lambda>g. read_links g 0 i)"
  "g_links (hnswlib_ops E) (Inr g') = read_links g' 0"
  "g_dist (hnswlib_ops E) = ge_dist E" "mem_ok (hnswlib_ops E) = ge_mem E"
  by (simp_all add: hnswlib_ops_def fun_eq_iff)

lemma graph_new_ok: "2 \<le> unat m \<Longrightarrow> unat m < 2 ^ 63 \<Longrightarrow> graph_ok (graph_new E m efc)"
  by (simp add: graph_ok_def links_ok_def entry_ok_def graph_new_def on_layer_def unat_word_ariths max_def word_le_nat_alt)

text \<open>What an addition does to the graph.\<close>

lemma add_point_graph:
  assumes ok: "hnsw_ok h" and add: "add_point G h v l = Inr h'"
  shows "hnsw_ok h' \<and>
    ((\<exists>i. map_of (label_lookup h) l = Some i \<and> i < length (elems h') \<and> length (elems h') = length (elems h) \<and> \<not> el_deleted (elems h' ! i) \<and>
        hgraph h' = g_update G (hgraph h) (elems h') i) \<or>
     map_of (label_lookup h) l = None \<and> hgraph h' = g_insert G (hgraph h) (elems h') (length (elems h)) \<and>
        (\<exists>x. elems h' = elems h @ [x] \<and> \<not> el_deleted x))"
proof (cases "map_of (label_lookup h) l")
  case (Some i)
  note i = hnsw_lookup [OF ok Some]
  have v: "hdim h \<le> length v" using add Some by (auto simp: add_point_def unmark_deleted_internal_def split: if_splits)
  have same: "add_point G h v l = add_point G h (take (hdim h) v) l"
    using v Some by (simp add: add_point_def unmark_deleted_internal_def update_point_def)
  have "length (take (hdim h) v) = hdim h" using v by simp
  from add_point_known [OF ok this Some, of G] add same have "hnsw_ok h'" by auto
  then show ?thesis using add Some i(1)
    by (auto simp: add_point_def unmark_deleted_internal_def update_point_def is_marked_deleted_def Let_def split: if_splits)
next
  case None
  then have v: "hdim h \<le> length v" and room: "length (elems h) < unat (max_elements h)"
    using add by (auto simp: add_point_def split: if_splits)
  have same: "add_point G h v l = add_point G h (take (hdim h) v) l" using v None by (simp add: add_point_def)
  have "length (take (hdim h) v) = hdim h" using v by simp
  from add_point_new [OF ok this None room, of G] add same have "hnsw_ok h'" by auto
  then show ?thesis using add None by (auto simp: add_point_def Let_def split: if_splits)
qed

lemma mark_delete_graph:
  assumes ok: "hnsw_ok h" and del: "mark_delete h l = Inr h'"
  shows "hnsw_ok h' \<and> hgraph h' = hgraph h \<and> length (elems h') = length (elems h)"
proof -
  obtain i where i: "map_of (label_lookup h) l = Some i" "\<not> el_deleted (elems h ! i)"
    using del by (auto simp: mark_delete_def mark_deleted_internal_def is_marked_deleted_def split: option.splits if_splits)
  then have "hnsw_vecs h l = Some (el_data (elems h ! i))" by (simp add: hnsw_vecs_def)
  from mark_delete_ok [OF ok this] del have "hnsw_ok h'" by auto
  then show ?thesis using del i by (auto simp: mark_delete_def mark_deleted_internal_def is_marked_deleted_def)
qed

lemma update_graph:
  assumes E: "env_ok E M" and g: "graph_of h M g" and n: "length (elems h') = length (elems h)"
    and i: "i < length (elems h')" "\<not> el_deleted (elems h' ! i)" and h': "hgraph h' = g_update (hnswlib_ops E) (hgraph h) (elems h') i"
  shows "\<exists>g'. graph_of h' M g'"
proof -
  have "graph_ok g" "order_ok E" "length (elems h') = length (gr_levels g)" using E g n by (simp_all add: graph_of_def env_ok_def)
  from update_element_ok [OF this i] obtain g' where "update_element E (elems h') i g = Inr g'" "graph_ok g'" "same_shape g g'" by blast
  then show ?thesis using g h' n same_shape_sel [of g g'] by (auto simp: graph_of_def)
qed

lemma insert_graph:
  assumes E: "env_ok E M" and g: "graph_of h M g" and els: "elems h' = elems h @ [x]" 
    and h': "hgraph h' = g_insert (hnswlib_ops E) (hgraph h) (elems h') (length (elems h))"
  shows "hgraph h' = Inl Undefined \<and> \<not> no_deletions (elems h') \<or> (\<exists>g'. graph_of h' M g')"
proof -
  have "graph_ok g" "length (elems h') = Suc (length (gr_levels g))" "0 \<le> fst (ge_level E (gr_M g) (gr_random g))"
    using E g els by (simp_all add: graph_of_def env_ok_def)
  from insert_element_ok [OF this] show ?thesis using g h' by (auto simp: graph_of_def)
qed

lemma add_point_good:
  assumes E: "env_ok E M" and good: "index_good M h" and add: "add_point (hnswlib_ops E) h v l = Inr h'"
  shows "index_good M h' \<and> (\<forall>g. hgraph h = Inr g \<longrightarrow> num_deleted h = 0 \<or> map_of (label_lookup h) l \<noteq> None \<longrightarrow> (\<exists>g'. hgraph h' = Inr g'))"
proof -
  have ok: "hnsw_ok h" using good by (simp add: index_good_def)
  note a = add_point_graph [OF ok add]
  show ?thesis
  proof (cases "hgraph h = Inl Undefined")
    case True
    then show ?thesis using a by (auto simp: index_good_def)
  next
    case False
    then obtain g where g: "graph_of h M g" using good by (auto simp: index_good_def)
    show ?thesis
    proof (cases "map_of (label_lookup h) l")
      case (Some i)
      then have "\<exists>g'. graph_of h' M g'" using a update_graph [OF E g, of h' i] by auto
      then show ?thesis using a by (auto simp: index_good_def graph_of_def)
    next
      case None
      then obtain x where x: "elems h' = elems h @ [x]" "\<not> el_deleted x" "hgraph h' = g_insert (hnswlib_ops E) (hgraph h) (elems h') (length (elems h))"
        using a by auto
      have "num_deleted h = 0 \<Longrightarrow> no_deletions (elems h')"
        using ok x(1,2) by (auto simp: no_deletions_def hnsw_ok_def filter_empty_conv nth_append)
      then show ?thesis using insert_graph [OF E g x(1,3)] a None by (auto simp: index_good_def graph_of_def)
    qed
  qed
qed

lemma index_state_good:
  assumes "index_state E dim maxe m efc h" "env_ok E (unat m)" "2 \<le> unat m" "unat m < 2 ^ 63"
  shows "index_good (unat m) h"
  using assms(1)
proof induction
  case (index_new h)
  then have "hnsw_ok h" using hnsw_new_ok by blast
  moreover have "graph_of h (unat m) (graph_new E m efc)"
    using index_new graph_new_ok [OF assms(3,4), of E efc]
    by (auto simp: hnsw_new_def graph_of_def graph_new_def split: if_splits)
  ultimately show ?case by (auto simp: index_good_def)
next
  case (index_add h v l h')
  then show ?case using add_point_good [OF assms(2)] by blast
next
  case (index_del h l h')
  then show ?case using mark_delete_graph [of h l h'] by (auto simp: index_good_def graph_of_def)
qed

section \<open>Search\<close>

text \<open>What \<open>searchKnn\<close> needs of a graph: a place to start, and links between elements that exist.\<close>

locale search_graph =
  fixes G :: "'g graph_ops" and inv :: "'g \<Rightarrow> hnsw_elem list \<Rightarrow> bool"
  assumes descends: "inv g els \<Longrightarrow> els \<noteq> [] \<Longrightarrow> \<exists>ep. g_descend G g els q = Inr ep \<and> ep < length els"
    and links_exist: "inv g els \<Longrightarrow> closed_reader {..<length els} (g_links G g)"
begin

lemma search_returns:
  assumes inv: "inv (hgraph h) (elems h)" and q: "hdim h \<le> length q"
  shows "\<exists>r. search_knn G h q k = Inr r \<and> (k \<noteq> 0 \<and> elems h \<noteq> [] \<and> num_deleted h = 0 \<longrightarrow> r \<noteq> [])"
proof (cases "elems h = []")
  case False
  obtain ep where ep: "g_descend G (hgraph h) (elems h) q = Inr ep" "ep < length (elems h)" using descends [OF inv False] by blast
  have "ep \<in> {..<length (elems h)}" using ep(2) by simp
  from search_layer_in [OF links_exist [OF inv] order_refl this, of "g_dist G" q "max ef_default k" "num_deleted h \<noteq> 0"]
  obtain top where top: "search_base_layer G h q (max ef_default k) (num_deleted h \<noteq> 0) ep = Inr top" "num_deleted h = 0 \<Longrightarrow> top \<noteq> []"
    by (auto simp: search_base_layer_def ef_default_def)
  have "length (pq_drain by_first (pq_shrink by_first k top)) = min k (length top)" by (simp add: pq_shrink_length)
  then have "k \<noteq> 0 \<and> num_deleted h = 0 \<longrightarrow> pq_drain by_first (pq_shrink by_first k top) \<noteq> []"
    using top(2) by (auto simp flip: length_greater_0_conv)
  then show ?thesis using False q ep(1) top(1) by (simp add: search_knn_def)
qed (simp add: search_knn_def)

end

definition searchable :: "'r graph res \<Rightarrow> hnsw_elem list \<Rightarrow> bool" where
  "searchable gr els \<longleftrightarrow> (\<exists>g. gr = Inr g \<and> graph_ok g \<and> length (gr_levels g) = length els)"

lemma layer_zero: "on_layer g 0 = {..<length (gr_levels g)}"
  by (auto simp: on_layer_def)

interpretation hg: search_graph "hnswlib_ops E" searchable for E
proof unfold_locales
  fix gr :: "'a graph res" and els q
  assume s: "searchable gr els"
  then obtain g where g: "gr = Inr g" "links_ok g" "entry_ok g" "length (gr_levels g) = length els" by (auto simp: searchable_def graph_ok_def)
  show "closed_reader {..<length els} (g_links (hnswlib_ops E) gr)"
    using layer_closed [OF g(2), of 0] by (simp add: g(1,4) layer_zero)
  assume "els \<noteq> []"
  then have ne: "gr_levels g \<noteq> []" using g(4) by auto
  let ?tp = "gr_levels g ! gr_enter g"
  have A: "on_layer g 0 \<subseteq> {..<length els}" by (simp add: layer_zero g(4))
  have ep: "gr_enter g \<in> on_layer g ?tp" "gr_maxlevel g = int ?tp" "gr_enter g < length els"
    using g(3,4) ne by (auto simp: entry_ok_def on_layer_def)
  from find_entry_ok [OF layers_closed [OF g(2)] A ep, of "ge_dist E" q 0]
  show "\<exists>ep. g_descend (hnswlib_ops E) gr els q = Inr ep \<and> ep < length els" using g(1,4) by (auto simp: layer_zero)
qed

section \<open>Without capacity\<close>

text \<open>With \<open>m = 0\<close> no neighbour is ever selected.\<close>

lemma connect_nothing:
  assumes "gr_M g = 0"
  shows "mutually_connect D els g cur tops level u = Inl Undefined"
  using assms by (simp add: mutually_connect_def Let_def neighbors_by_heuristic_def heuristic_loop.simps pq_drain_Nil)

lemma connect_layers_nothing:
  assumes "closed_reader A (read_links g level)" "A \<subseteq> {..<length els}" "obj \<in> A" "gr_M g = 0"
  shows "connect_layers D els cur ep level obj g = Inl Undefined"
proof -
  obtain tops where "search_layer D (read_links g level) els (el_data (els ! cur)) (gr_efc g) True obj = Inr tops"
    using search_layer_in [OF assms(1-3)] by blast
  then show ?thesis using connect_nothing [OF assms(4)] by (subst connect_layers.simps) (simp add: Let_def)
qed

lemma second_insertion:
  assumes lev: "\<forall>r. 0 \<le> fst (ge_level E 0 r)" and M: "gr_M g = 0" and n: "length els = 1" "length els' = 2"
    and g: "gr_levels g = []" "gr_links g = []" "gr_maxlevel g = - 1"
    and g1: "insert_element E els 0 g = Inr g1"
  shows "insert_element E els' 1 g1 = Inl Undefined"
proof -
  obtain l r where l: "ge_level E 0 (gr_random g) = (int l, r)" using lev by (metis nonneg_int_cases surjective_pairing)
  have g1: "g1 = g\<lparr>gr_levels := [l], gr_links := [replicate (l + 1) []], gr_random := r, gr_enter := 0, gr_maxlevel := int l\<rparr>"
    using g1 g M l by (simp add: insert_element_def)
  obtain l' r' where l': "ge_level E 0 r = (int l', r')" using lev by (metis nonneg_int_cases surjective_pairing)
  let ?g2 = "g1\<lparr>gr_levels := [l, l'], gr_links := [replicate (l + 1) [], replicate (l' + 1) []], gr_random := r'\<rparr>"
  let ?A = "\<lambda>k. if k \<le> l then {0 :: nat} else {}"
  have rd: "k \<le> l \<Longrightarrow> read_links ?g2 k 0 = Inr []" for k
    by (simp add: read_links_def nth_Cons' del: replicate_Suc)
  then have cl: "closed_layers ?A ?g2" by (simp add: closed_layers_def closed_reader_def)
  have A: "?A k \<subseteq> {..<length els'}" for k using n(2) by simp
  have ep: "gr_enter ?g2 \<in> ?A l" "gr_maxlevel ?g2 = int l" "gr_enter ?g2 < length els'" using n(2) by (simp_all add: g1)
  obtain obj where obj: "find_entry (ge_dist E) ?g2 els' (el_data (els' ! 1)) l' = Inr obj" "obj \<in> ?A (min l' l)"
    using find_entry_ok [OF cl A ep] by blast
  have "connect_layers (ge_dist E) els' 1 0 (min l' l) obj ?g2 = Inl Undefined"
  proof (rule connect_layers_nothing [OF _ A obj(2)])
    show "closed_reader (?A (min l' l)) (read_links ?g2 (min l' l))" using cl by (simp only: closed_layers_def)
    show "gr_M ?g2 = 0" using M by (simp add: g1)
  qed
  then show ?thesis using l' obj(1) M by (simp add: insert_element_def g1 flip: of_nat_min)
qed

section \<open>Properties\<close>

text \<open>An environment for examples: the distance of the first components, levels 0, sets in the order of \<open>remdups\<close>.\<close>

definition sample_env :: "nat graph_env" where
  "sample_env = \<lparr>ge_dist = (\<lambda>a b. if a = b then 0 else 0x3F800000), ge_seed = 100, ge_level = (\<lambda>M r. (0, r + 1)),
     ge_order = remdups, ge_mem = (\<lambda>d mx m. True)\<rparr>"

lemma sample_env_ok: "env_ok sample_env M"
  by (simp add: env_ok_def order_ok_def sample_env_def)

lemma index_two:
  assumes "(2 ^ 63 - 1) div 40 \<ge> unat maxe" "2 \<le> unat maxe"
  shows "\<exists>h h1 h2. hnsw_new (hnswlib_ops sample_env) 1 maxe m efc = Inr h \<and> add_point (hnswlib_ops sample_env) h [0] 7 = Inr h1 \<and>
    add_point (hnswlib_ops sample_env) h1 [1] 8 = Inr h2 \<and> length (elems h2) = 2 \<and> num_deleted h1 = 0 \<and>
    (\<exists>g. hgraph h1 = Inr g) \<and> elems h1 \<noteq> [] \<and> hdim h1 = 1"
  using assms by (simp add: hnsw_new_def add_point_def Let_def sample_env_def insert_element_def graph_new_def)

text \<open>C6. In every state of an index that was created with \<open>m\<close> of at least 2 (and a capacity \<open>2 * m\<close> that does not wrap), after any additions,
  overwritings and deletions: the graph is well-formed (\<open>graph_ok\<close>: one list per element and layer, no duplicates, no link to itself or outside the
  layer, no list above its capacity, the entry point on the highest level) with one node per element, or an insertion has run into undefined
  behaviour.  In particular none of the \<open>std::runtime_error\<close>s about links is ever thrown.\<close>

theorem index_graph_sound:
  assumes "index_state E dim maxe m efc h" and "env_ok E (unat m)" and "2 \<le> unat m" and "unat m < 2 ^ 63"
  shows "hgraph h = Inl Undefined \<or> (\<exists>g. hgraph h = Inr g \<and> graph_ok g \<and> length (gr_levels g) = length (elems h))"
  using index_state_good [OF assms] by (auto simp: index_good_def graph_of_def)

theorem index_graph_sound_witness:
  "\<exists>h. index_state sample_env 1 10 2 0 h \<and> length (elems h) = 2 \<and>
     (hgraph h = Inl Undefined \<or> (\<exists>g. hgraph h = Inr g \<and> graph_ok g \<and> length (gr_levels g) = length (elems h)))"
proof -
  obtain h h1 h2 where h: "hnsw_new (hnswlib_ops sample_env) 1 10 2 0 = Inr h" "add_point (hnswlib_ops sample_env) h [0] 7 = Inr h1"
    "add_point (hnswlib_ops sample_env) h1 [1] 8 = Inr h2" "length (elems h2) = 2"
    using index_two [of 10 2 0] by auto
  have "index_state sample_env 1 10 2 0 h2" using index_add [OF index_add [OF index_new [OF h(1)] h(2)] h(3)] .
  then show ?thesis using index_graph_sound [OF _ sample_env_ok, of 1 10 2 0 h2] h(4) by auto
qed



text \<open>C7. A search in an index whose graph is in order ends, for every query of the dimension, without an access out of bounds, and finds
  something when there is something to find and nothing has been deleted.\<close>

theorem search_ends:
  assumes "index_state E dim maxe m efc h" and "env_ok E (unat m)" and "2 \<le> unat m" and "unat m < 2 ^ 63"
    and "hgraph h = Inr g" and "hdim h \<le> length q"
  shows "\<exists>r. search_knn (hnswlib_ops E) h q k = Inr r \<and> (k \<noteq> 0 \<and> elems h \<noteq> [] \<and> num_deleted h = 0 \<longrightarrow> r \<noteq> [])"
proof (rule hg.search_returns [OF _ assms(6)])
  show "searchable (hgraph h) (elems h)"
    using index_state_good [OF assms(1-4)] assms(5) by (auto simp: index_good_def graph_of_def searchable_def)
qed

theorem search_ends_witness:
  "\<exists>h r. length (elems h) = 1 \<and> search_knn (hnswlib_ops sample_env) h [5] 3 = Inr r \<and> r \<noteq> []"
proof -
  obtain h h1 g where h: "hnsw_new (hnswlib_ops sample_env) 1 10 2 0 = Inr h" "add_point (hnswlib_ops sample_env) h [0] 7 = Inr h1"
    "num_deleted h1 = 0" "hgraph h1 = Inr g" "elems h1 \<noteq> []" "hdim h1 = 1"
    using index_two [of 10 2 0] by auto
  have "length (elems h1) = 1" using h(1,2) by (auto simp: hnsw_new_def add_point_def Let_def split: if_splits)
  moreover have "index_state sample_env 1 10 2 0 h1" using index_add [OF index_new [OF h(1)] h(2)] .
  ultimately show ?thesis using search_ends [OF _ sample_env_ok _ _ h(4), of 1 10 2 0 "[5]" 3] h(3,5,6) by auto
qed

text \<open>C38. An index with \<open>m = 0\<close>, which the options accept: the second insertion selects no neighbours and reads the last element of an
  empty vector.\<close>

theorem zero_m_undefined:
  assumes "\<forall>r. 0 \<le> fst (ge_level E 0 r)"
    and "hnsw_new (hnswlib_ops E) dim maxe 0 efc = Inr h" and "add_point (hnswlib_ops E) h v l = Inr h1"
    and "l' \<noteq> l" and "add_point (hnswlib_ops E) h1 v' l' = Inr h2"
  shows "hgraph h2 = Inl Undefined"
proof -
  have h: "h = \<lparr>max_elements = maxe, hdim = dim, elems = [], label_lookup = [], num_deleted = 0, hgraph = Inr (graph_new E 0 efc)\<rparr>"
    using assms(2) by (auto simp: hnsw_new_def split: if_splits)
  obtain x where x: "elems h1 = [x]" "label_lookup h1 = [(l, 0)]" "hgraph h1 = insert_element E [x] 0 (graph_new E 0 efc)"
    using assms(3) by (auto simp: h add_point_def Let_def split: if_splits)
  obtain y where y: "hgraph h2 = bindR (hgraph h1) (insert_element E [x, y] 1)"
    using assms(4,5) x(1,2) by (auto simp: add_point_def Let_def split: if_splits)
  obtain k r where "ge_level E 0 (ge_seed E) = (int k, r)" using assms(1) by (metis nonneg_int_cases surjective_pairing)
  then obtain g1 where g1: "insert_element E [x] 0 (graph_new E 0 efc) = Inr g1" by (simp add: insert_element_def graph_new_def)
  show ?thesis
    using second_insertion [OF assms(1) _ _ _ _ _ _ g1, of "[x, y]"] x(3) y g1 by (simp add: graph_new_def)
qed

theorem zero_m_undefined_witness:
  "\<exists>h1 h2. add_point (hnswlib_ops sample_env) h1 [1] 8 = Inr h2 \<and> length (elems h2) = 2 \<and> hgraph h2 = Inl Undefined"
proof -
  obtain h h1 h2 where h: "hnsw_new (hnswlib_ops sample_env) 1 10 0 0 = Inr h" "add_point (hnswlib_ops sample_env) h [0] 7 = Inr h1"
    "add_point (hnswlib_ops sample_env) h1 [1] 8 = Inr h2" "length (elems h2) = 2"
    using index_two [of 10 0 0] by auto
  then show ?thesis using zero_m_undefined [OF _ h(1,2) _ h(3)] by (auto simp: sample_env_def)
qed

end
