(* ===== verification/L2_Space.thy ===== *)
theory L2_Space
  imports Hnsw_Search
begin

text \<open>
  The distance of the index, \<open>deps/hnswlib/space_l2.h\<close>: the squared Euclidean distance in binary32 arithmetic, rounding to nearest even
  after every operation (no fused multiplication and addition).  The scalar loop, the vectorised variants, which sum in 4, 8 or 16 lanes, and
  the choice between them in the constructor of \<open>L2Space\<close>.
\<close>

section \<open>Arithmetic\<close>

text \<open>The value of a finite float in units of \<open>2 ^ -149\<close>.\<close>

definition f32_int :: "f32 \<Rightarrow> int" where
  "f32_int w = (if f32_neg w then - int (bits_mag (f32_bits w)) else int (bits_mag (f32_bits w)))"

definition f32_pack :: "bool \<Rightarrow> nat \<Rightarrow> f32" where
  "f32_pack neg b = mk_f32 neg (min b inf_bits)"

definition f32_nan :: f32 where
  "f32_nan = 0x7FC00000"

definition f32_add :: "f32 \<Rightarrow> f32 \<Rightarrow> f32" where
  "f32_add a b =
     (if f32_is_nan a \<or> f32_is_nan b then f32_nan
      else if f32_is_inf a then (if f32_is_inf b \<and> f32_neg a \<noteq> f32_neg b then f32_nan else a)
      else if f32_is_inf b then b
      else let s = f32_int a + f32_int b in
        if s = 0 then mk_f32 (f32_neg a \<and> f32_neg b) 0 else f32_pack (s < 0) (round_bits (nat \<bar>s\<bar>) (2 ^ 149)))"

definition f32_sub :: "f32 \<Rightarrow> f32 \<Rightarrow> f32" where
  "f32_sub a b = f32_add a (f32_minus b)"

definition f32_mul :: "f32 \<Rightarrow> f32 \<Rightarrow> f32" where
  "f32_mul a b =
     (let neg = (f32_neg a \<noteq> f32_neg b) in
      if f32_is_nan a \<or> f32_is_nan b then f32_nan
      else if f32_is_inf a \<or> f32_is_inf b then (if f32_bits a = 0 \<or> f32_bits b = 0 then f32_nan else mk_f32 neg inf_bits)
      else f32_pack neg (round_bits (bits_mag (f32_bits a) * bits_mag (f32_bits b)) (2 ^ 298)))"

section \<open>Distances\<close>

text \<open>The loop body of every variant: \<open>acc + (x - y) * (x - y)\<close>.\<close>

definition add_square :: "f32 \<Rightarrow> f32 \<times> f32 \<Rightarrow> f32" where
  "add_square acc p = (let t = f32_sub (fst p) (snd p) in f32_add acc (f32_mul t t))"

text \<open>\<open>L2Sqr\<close> on the first \<open>qty\<close> floats.\<close>

definition l2_sqr :: "nat \<Rightarrow> vector \<Rightarrow> vector \<Rightarrow> f32" where
  "l2_sqr qty v1 v2 = foldl add_square 0 (zip (take qty v1) (take qty v2))"

text \<open>\<open>n\<close> blocks of as many floats as there are lanes, one block after the other.\<close>

fun add_blocks :: "nat \<Rightarrow> f32 list \<Rightarrow> vector \<Rightarrow> vector \<Rightarrow> f32 list" where
  "add_blocks 0 acc v1 v2 = acc"
| "add_blocks (Suc n) acc v1 v2 =
     (let w = length acc in
      add_blocks n (map2 add_square acc (zip (take w v1) (take w v2))) (drop w v1) (drop w v2))"

text \<open>\<open>TmpRes[0] + TmpRes[1] + \<dots>\<close>.\<close>

definition sum_lanes :: "f32 list \<Rightarrow> f32" where
  "sum_lanes lanes = foldl f32_add (hd lanes) (tl lanes)"

definition l2_sqr_simd16_avx512 :: "nat \<Rightarrow> vector \<Rightarrow> vector \<Rightarrow> f32" where
  "l2_sqr_simd16_avx512 qty v1 v2 = sum_lanes (add_blocks (qty div 16) (replicate 16 0) v1 v2)"

definition l2_sqr_simd16_avx :: "nat \<Rightarrow> vector \<Rightarrow> vector \<Rightarrow> f32" where
  "l2_sqr_simd16_avx qty v1 v2 = sum_lanes (add_blocks (2 * (qty div 16)) (replicate 8 0) v1 v2)"

definition l2_sqr_simd16_sse :: "nat \<Rightarrow> vector \<Rightarrow> vector \<Rightarrow> f32" where
  "l2_sqr_simd16_sse qty v1 v2 = sum_lanes (add_blocks (4 * (qty div 16)) (replicate 4 0) v1 v2)"

definition l2_sqr_simd4 :: "nat \<Rightarrow> vector \<Rightarrow> vector \<Rightarrow> f32" where
  "l2_sqr_simd4 qty v1 v2 = sum_lanes (add_blocks (qty div 4) (replicate 4 0) v1 v2)"

text \<open>The macros \<open>USE_*\<close> of the build, each of which includes the one before it, and what the processor can do
  (\<open>AVXCapable\<close>, \<open>AVX512Capable\<close>).\<close>

datatype build = Portable | Use_SSE | Use_AVX | Use_AVX512

record cpu =
  avx_capable :: bool
  avx512_capable :: bool

definition l2_sqr_simd16 :: "build \<Rightarrow> cpu \<Rightarrow> nat \<Rightarrow> vector \<Rightarrow> vector \<Rightarrow> f32" where
  "l2_sqr_simd16 b c =
     (if b = Use_AVX512 \<and> avx512_capable c then l2_sqr_simd16_avx512
      else if (b = Use_AVX512 \<or> b = Use_AVX) \<and> avx_capable c then l2_sqr_simd16_avx
      else l2_sqr_simd16_sse)"

text \<open>The \<open>Residuals\<close> variants: full blocks by the function \<open>f\<close>, the rest by the scalar loop.\<close>

definition l2_sqr_residuals :: "(nat \<Rightarrow> vector \<Rightarrow> vector \<Rightarrow> f32) \<Rightarrow> nat \<Rightarrow> nat \<Rightarrow> vector \<Rightarrow> vector \<Rightarrow> f32" where
  "l2_sqr_residuals f w qty v1 v2 =
     (let qtyw = qty div w * w; res = f qtyw v1 v2; res_tail = l2_sqr (qty - qtyw) (drop qtyw v1) (drop qtyw v2)
      in f32_add res res_tail)"

text \<open>The constructor of \<open>L2Space\<close>.\<close>

definition l2_space :: "build \<Rightarrow> cpu \<Rightarrow> nat \<Rightarrow> vector \<Rightarrow> vector \<Rightarrow> f32" where
  "l2_space b c dim =
     (if b = Portable then l2_sqr dim
      else if dim mod 16 = 0 then l2_sqr_simd16 b c dim
      else if dim mod 4 = 0 then l2_sqr_simd4 dim
      else if 16 < dim then l2_sqr_residuals (l2_sqr_simd16 b c) 16 dim
      else if 4 < dim then l2_sqr_residuals l2_sqr_simd4 4 dim
      else l2_sqr dim)"

text \<open>As the distance of an index, whose vectors have its dimension.\<close>

definition l2_metric :: "build \<Rightarrow> cpu \<Rightarrow> metric" where
  "l2_metric b c q v = l2_space b c (length v) q v"

section \<open>Properties of the arithmetic\<close>

lemma f32_zero [simp]: "f32_bits 0 = 0" "\<not> f32_neg 0" "\<not> f32_is_nan 0" "\<not> f32_is_inf 0" "f32_is_finite 0" "f32_int 0 = 0"
  by (simp_all add: f32_bits_def f32_neg_def f32_is_nan_def f32_is_inf_def f32_is_finite_def f32_int_def bits_mag_def bits_mant_def)

lemma f32_nan_sel [simp]: "f32_is_nan f32_nan" "\<not> f32_neg f32_nan"
  by (simp_all add: f32_nan_def f32_is_nan_def f32_bits_def f32_neg_def)

lemma f32_class: "f32_is_finite w \<longleftrightarrow> \<not> f32_is_nan w \<and> \<not> f32_is_inf w"
  by (auto simp: f32_is_finite_def f32_is_nan_def f32_is_inf_def)

lemma f32_pack_sel: "f32_neg (f32_pack n b) = n" "f32_bits (f32_pack n b) = min b inf_bits" "\<not> f32_is_nan (f32_pack n b)"
proof -
  have "min b inf_bits < 2 ^ 31" by simp
  from mk_f32_sel [OF this] show "f32_neg (f32_pack n b) = n" "f32_bits (f32_pack n b) = min b inf_bits" "\<not> f32_is_nan (f32_pack n b)"
    by (simp_all add: f32_pack_def f32_is_nan_def)
qed

lemma f32_minus_sel [simp]: "f32_bits (f32_minus w) = f32_bits w" "f32_neg (f32_minus w) = (\<not> f32_neg w)"
proof -
  have u: "unat (f32_minus w) = flip_bit 31 (unat w)"
    by (simp add: f32_minus_def unsigned_xor_eq flip_bit_eq_xor push_bit_of_1)
  have "take_bit 31 (flip_bit 31 (unat w)) = take_bit 31 (unat w)"
    by (rule bit_eqI) (auto simp: bit_take_bit_iff bit_flip_bit_iff)
  then show "f32_bits (f32_minus w) = f32_bits w" unfolding f32_bits_def u take_bit_eq_mod .
  have neg: "f32_neg v \<longleftrightarrow> bit (unat v) 31" for v :: f32
  proof -
    have "unat v < 2 ^ 32" using unsigned_less [of v] by simp
    then have "unat v div 2 ^ 31 < 2" by (simp add: div_less_iff_less_mult)
    moreover have "2 ^ 31 \<le> unat v \<longleftrightarrow> 1 \<le> unat v div 2 ^ 31" by (simp add: less_eq_div_iff_mult_less_eq)
    ultimately show ?thesis by (auto simp: f32_neg_def bit_iff_odd elim: oddE)
  qed
  show "f32_neg (f32_minus w) = (\<not> f32_neg w)" by (simp add: neg u bit_flip_bit_iff)
qed

lemma f32_minus_class [simp]: "f32_is_nan (f32_minus w) = f32_is_nan w" "f32_is_inf (f32_minus w) = f32_is_inf w"
    "f32_is_finite (f32_minus w) = f32_is_finite w" "f32_int (f32_minus w) = - f32_int w"
  by (simp_all add: f32_is_nan_def f32_is_inf_def f32_is_finite_def f32_int_def)

text \<open>The integers that binary32 holds exactly.\<close>

definition holds_int :: "f32 \<Rightarrow> int \<Rightarrow> bool" where
  "holds_int w z \<longleftrightarrow> f32_is_finite w \<and> f32_int w = z * 2 ^ 149"

lemma nat_bits:
  assumes "n \<le> 2 ^ 24"
  obtains b where "b < inf_bits" "bits_mag b = n * 2 ^ 149"
proof (cases "n = 0")
  case True
  then show ?thesis using that [of 0] by (simp add: bits_mag_def bits_mant_def)
next
  case False
  obtain k m where km: "k \<le> 24" "m = n * 2 ^ (24 - k)" "2 ^ 23 \<le> m" "m \<le> 2 ^ 24"
  proof -
    define k where "k = min 24 (bitlen n)"
    have "0 < bitlen n" using False bitlen_le_iff [of n 0] by (cases "bitlen n") auto
    have lo: "2 ^ (bitlen n - 1) \<le> n" using bitlen_le_iff [of n "bitlen n - 1"] \<open>0 < bitlen n\<close> by linarith
    have hi: "n < 2 ^ bitlen n" using bitlen_le_iff [of n "bitlen n"] by simp
    have "n * 2 ^ (24 - k) \<le> 2 ^ 24" "2 ^ 23 \<le> n * 2 ^ (24 - k)"
    proof -
      have up: "n \<le> 2 ^ k" using hi assms by (simp add: k_def min_def less_imp_le)
      have "n * 2 ^ (24 - k) \<le> 2 ^ k * 2 ^ (24 - k)" using up by simp
      also have "\<dots> = 2 ^ (k + (24 - k))" by (simp only: power_add)
      also have "k + (24 - k) = 24" by (simp add: k_def)
      finally show "n * 2 ^ (24 - k) \<le> 2 ^ 24" .
      have "2 ^ (k - 1) \<le> n" using lo by (rule order_trans [rotated]) (simp add: k_def)
      then have "2 ^ (k - 1) * 2 ^ (24 - k) \<le> n * 2 ^ (24 - k)" by (rule mult_le_mono1)
      moreover have "(2 :: nat) ^ (k - 1) * 2 ^ (24 - k) = 2 ^ (k - 1 + (24 - k))" by (simp only: power_add)
      moreover have "k - 1 + (24 - k) = 23" using \<open>0 < bitlen n\<close> by (simp add: k_def min_def)
      ultimately show "2 ^ 23 \<le> n * 2 ^ (24 - k)" by (simp only:)
    qed
    then show ?thesis using that [of k "n * 2 ^ (24 - k)"] by (simp add: k_def)
  qed
  have "bits_mag ((125 + k) * 2 ^ 23 + m) = m * 2 ^ (125 + k)" by (rule bits_mag_scale_mant [OF km(4)]) (use km(3) in simp)
  also have "\<dots> = n * 2 ^ (24 - k + (125 + k))" by (simp only: km(2) power_add mult.assoc)
  also have "24 - k + (125 + k) = 149" using km(1) by simp
  finally have "bits_mag ((125 + k) * 2 ^ 23 + m) = n * 2 ^ 149" .
  moreover have "(125 + k) * 2 ^ 23 + m < inf_bits"
  proof -
    have "(125 + k) * 2 ^ 23 \<le> 149 * 2 ^ 23" using km(1) by (intro mult_le_mono1) simp
    then show ?thesis using km(4) by simp
  qed
  ultimately show ?thesis using that by blast
qed

lemma pack_int:
  assumes n: "n \<le> 2 ^ 24" and p: "p * 2 ^ 149 = n * 2 ^ 149 * q" and q: "0 < q"
  shows "f32_is_finite (f32_pack neg (round_bits p q))" "f32_int (f32_pack neg (round_bits p q)) = (if neg then - int n else int n) * 2 ^ 149"
proof -
  obtain b where b: "b < inf_bits" "bits_mag b = n * 2 ^ 149" using nat_bits [OF n] .
  have "round_bits p q = b" using q p by (intro round_bits_exact) (simp_all only: b(2))
  then show "f32_is_finite (f32_pack neg (round_bits p q))" "f32_int (f32_pack neg (round_bits p q)) = (if neg then - int n else int n) * 2 ^ 149"
    using b f32_pack_sel(1,2) [of _ b] by (simp_all add: f32_is_finite_def f32_int_def)
qed

lemma holds_add:
  assumes a: "holds_int a x" and b: "holds_int b y" and le: "\<bar>x + y\<bar> \<le> 2 ^ 24"
  shows "holds_int (f32_add a b) (x + y)"
proof -
  have s: "f32_int a + f32_int b = (x + y) * 2 ^ 149" using a b by (simp add: holds_int_def distrib_right)
  show ?thesis
  proof (cases "x + y = 0")
    case True
    then show ?thesis using a b s mk_f32_sel [of 0] by (simp add: f32_add_def f32_class holds_int_def f32_is_nan_def f32_is_inf_def f32_int_def bits_mag_def bits_mant_def)
  next
    case False
    define n where "n = nat \<bar>x + y\<bar>"
    have abs: "\<bar>(x + y) * 2 ^ 149\<bar> = int n * 2 ^ 149" unfolding abs_mult n_def by simp
    have "nat \<bar>(x + y) * 2 ^ 149\<bar> = n * 2 ^ 149" unfolding abs by (simp add: nat_mult_distrib nat_power_eq)
    moreover have "n \<le> 2 ^ 24" using le by (simp add: n_def)
    from pack_int [OF this, of "n * 2 ^ 149" "2 ^ 149" "x + y < 0"]
    have "f32_is_finite (f32_pack (x + y < 0) (round_bits (n * 2 ^ 149) (2 ^ 149)))"
      "f32_int (f32_pack (x + y < 0) (round_bits (n * 2 ^ 149) (2 ^ 149))) = (x + y) * 2 ^ 149" by (simp_all add: n_def)
    moreover have "f32_add a b = f32_pack (f32_int a + f32_int b < 0) (round_bits (nat \<bar>f32_int a + f32_int b\<bar>) (2 ^ 149))"
    proof -
      have "f32_int a + f32_int b \<noteq> 0" unfolding s using False by simp
      then show ?thesis using a b by (simp add: f32_add_def f32_class holds_int_def Let_def)
    qed
    moreover have "z * 2 ^ 149 < 0 \<longleftrightarrow> z < 0" for z :: int by (simp add: mult_less_0_iff)
    note this [of "x + y"]
    ultimately show ?thesis unfolding s holds_int_def by (simp only:)
  qed
qed

lemma holds_sub: "holds_int a x \<Longrightarrow> holds_int b y \<Longrightarrow> \<bar>x - y\<bar> \<le> 2 ^ 24 \<Longrightarrow> holds_int (f32_sub a b) (x - y)"
  using holds_add [of a x "f32_minus b" "- y"] by (simp add: f32_sub_def holds_int_def)

lemma holds_mul:
  assumes a: "holds_int a x" and b: "holds_int b y" and le: "\<bar>x * y\<bar> \<le> 2 ^ 24"
  shows "holds_int (f32_mul a b) (x * y)"
proof -
  have mag: "int (bits_mag (f32_bits w)) = \<bar>z\<bar> * 2 ^ 149" if "holds_int w z" for w z
  proof -
    have "int (bits_mag (f32_bits w)) = \<bar>f32_int w\<bar>" by (simp add: f32_int_def)
    then show ?thesis using that by (simp add: holds_int_def abs_mult)
  qed
  define n where "n = nat \<bar>x * y\<bar>"
  have "int (bits_mag (f32_bits a) * bits_mag (f32_bits b)) = int (n * 2 ^ 298)"
    unfolding of_nat_mult mag [OF a] mag [OF b] by (simp add: n_def abs_mult)
  then have m: "bits_mag (f32_bits a) * bits_mag (f32_bits b) = n * 2 ^ 298" by (simp only: of_nat_eq_iff)
  have n: "n \<le> 2 ^ 24" using le by (simp add: n_def)
  note p = pack_int [OF n, of "n * 2 ^ 298" "2 ^ 298" "f32_neg a \<noteq> f32_neg b"]
  have sign: "(if f32_neg a \<noteq> f32_neg b then - int n else int n) = x * y"
  proof -
    have s: "f32_neg w \<longrightarrow> z \<le> 0" "\<not> f32_neg w \<longrightarrow> 0 \<le> z" if "holds_int w z" for w z
    proof -
      have "(if f32_neg w then f32_int w \<le> 0 else 0 \<le> f32_int w)" by (simp add: f32_int_def)
      then show "f32_neg w \<longrightarrow> z \<le> 0" "\<not> f32_neg w \<longrightarrow> 0 \<le> z"
        using that by (auto simp: holds_int_def mult_le_0_iff zero_le_mult_iff split: if_splits)
    qed
    show ?thesis using s [OF a] s [OF b]
      by (cases "f32_neg a"; cases "f32_neg b") (simp_all add: n_def mult_nonneg_nonneg mult_nonpos_nonpos mult_nonneg_nonpos mult_nonpos_nonneg)
  qed
  show ?thesis using p a b m sign by (simp add: f32_mul_def f32_class holds_int_def Let_def)
qed

section \<open>Properties of the distance\<close>

text \<open>Every component of two vectors is summed exactly once: as long as the result is an integer that binary32 holds, all variants give it.\<close>

definition holds_ints :: "vector \<Rightarrow> int list \<Rightarrow> bool" where
  "holds_ints v zs \<longleftrightarrow> list_all2 holds_int v zs"

definition squares :: "int list \<Rightarrow> int list \<Rightarrow> int" where
  "squares xs ys = (\<Sum>(x, y) \<leftarrow> zip xs ys. (x - y) * (x - y))"

lemma squares_nonneg [simp]: "0 \<le> squares xs ys"
  unfolding squares_def by (rule sum_list_nonneg) auto

lemma squares_Cons: "squares (x # xs) (y # ys) = (x - y) * (x - y) + squares xs ys"
  by (simp add: squares_def)

lemma squares_split: "squares xs ys = squares (take n xs) (take n ys) + squares (drop n xs) (drop n ys)"
proof -
  have "zip xs ys = zip (take n xs) (take n ys) @ zip (drop n xs) (drop n ys)"
    by (metis append_take_drop_id drop_zip take_zip)
  then show ?thesis by (simp add: squares_def)
qed

lemma add_square_int:
  assumes "holds_int acc s" "holds_int a x" "holds_int b y" "0 \<le> s" "s + (x - y) * (x - y) \<le> 2 ^ 24"
  shows "holds_int (add_square acc (a, b)) (s + (x - y) * (x - y))"
proof -
  have sq: "0 \<le> (x - y) * (x - y)" "(x - y) * (x - y) \<le> 2 ^ 24" using assms(4,5) by (simp_all add: order_trans [rotated])
  have "\<bar>z\<bar> \<le> \<bar>z\<bar> * \<bar>z\<bar>" for z :: int using mult_left_mono [of 1 "\<bar>z\<bar>" "\<bar>z\<bar>"] by (cases "z = 0") auto
  note this [of "x - y"]
  then have "\<bar>x - y\<bar> \<le> 2 ^ 24" using sq by (simp flip: abs_mult)
  from holds_sub [OF assms(2,3) this] have "holds_int (f32_mul (f32_sub a b) (f32_sub a b)) ((x - y) * (x - y))"
    using sq by (intro holds_mul) simp_all
  then show ?thesis using holds_add [OF assms(1)] sq assms(4,5) by (simp add: add_square_def Let_def)
qed

lemma foldl_square_int:
  "holds_ints v1 xs \<Longrightarrow> holds_ints v2 ys \<Longrightarrow> holds_int acc s \<Longrightarrow> 0 \<le> s \<Longrightarrow> s + squares xs ys \<le> 2 ^ 24 \<Longrightarrow> length xs = length ys \<Longrightarrow>
     holds_int (foldl add_square acc (zip v1 v2)) (s + squares xs ys)"
proof (induction xs ys arbitrary: v1 v2 acc s rule: list_induct2')
  case (4 x xs y ys)
  obtain a v1' b v2' where v: "v1 = a # v1'" "v2 = b # v2'" and ab: "holds_int a x" "holds_ints v1' xs" "holds_int b y" "holds_ints v2' ys"
    using 4(2,3) by (auto simp: holds_ints_def list_all2_Cons2)
  let ?s = "s + (x - y) * (x - y)"
  have le: "?s + squares xs ys \<le> 2 ^ 24" using 4(6) by (simp add: squares_Cons)
  then have "?s \<le> 2 ^ 24" using squares_nonneg [of xs ys] by linarith
  from add_square_int [OF 4(4) ab(1,3) 4(5) this] have "holds_int (add_square acc (a, b)) ?s" .
  from 4(1) [OF ab(2,4) this _ le] show ?case using 4(5,7) by (simp add: v squares_Cons add.assoc)
qed (simp_all add: holds_ints_def squares_def)

lemma holds_ints_take: "holds_ints v xs \<Longrightarrow> holds_ints (take n v) (take n xs)"
  and holds_ints_drop: "holds_ints v xs \<Longrightarrow> holds_ints (drop n v) (drop n xs)"
  by (auto simp: holds_ints_def intro: list_all2_takeI list_all2_dropI)

lemma l2_sqr_int:
  assumes "holds_ints v1 xs" "holds_ints v2 ys" "length xs = length ys" "squares (take qty xs) (take qty ys) \<le> 2 ^ 24"
  shows "holds_int (l2_sqr qty v1 v2) (squares (take qty xs) (take qty ys))"
proof -
  have "holds_int 0 0" by (simp add: holds_int_def)
  from foldl_square_int [OF holds_ints_take [OF assms(1)] holds_ints_take [OF assms(2)] this, of qty qty] assms(3,4)
  show ?thesis by (simp add: l2_sqr_def)
qed

text \<open>The same for the lanes: their sum grows by the squares of a block.\<close>

definition lanes_ok :: "f32 list \<Rightarrow> int list \<Rightarrow> bool" where
  "lanes_ok acc ss \<longleftrightarrow> holds_ints acc ss \<and> (\<forall>s \<in> set ss. 0 \<le> s)"

lemma lanes_Cons: "lanes_ok (a # acc) (s # ss) \<longleftrightarrow> holds_int a s \<and> 0 \<le> s \<and> lanes_ok acc ss"
  by (auto simp: lanes_ok_def holds_ints_def)

lemma lanes_sum_nonneg: "lanes_ok acc ss \<Longrightarrow> 0 \<le> sum_list ss"
  by (auto simp: lanes_ok_def intro: sum_list_nonneg)

lemma block_int:
  "lanes_ok acc ss \<Longrightarrow> holds_ints v1 xs \<Longrightarrow> holds_ints v2 ys \<Longrightarrow> length xs = length ss \<Longrightarrow> length ys = length ss \<Longrightarrow>
     sum_list ss + squares xs ys \<le> 2 ^ 24 \<Longrightarrow>
     \<exists>ss'. lanes_ok (map2 add_square acc (zip v1 v2)) ss' \<and> length ss' = length ss \<and> sum_list ss' = sum_list ss + squares xs ys"
proof (induction ss arbitrary: acc v1 v2 xs ys)
  case Nil
  then show ?case by (simp add: lanes_ok_def holds_ints_def squares_def)
next
  case (Cons s ss)
  obtain a acc' where acc: "acc = a # acc'" using Cons.prems(1) by (cases acc) (auto simp: lanes_ok_def holds_ints_def)
  obtain x xs' y ys' where xy: "xs = x # xs'" "ys = y # ys'" using Cons.prems(4,5) by (cases xs; cases ys) auto
  obtain b v1' c v2' where v: "v1 = b # v1'" "v2 = c # v2'" "holds_int b x" "holds_ints v1' xs'" "holds_int c y" "holds_ints v2' ys'"
    using Cons.prems(2,3) by (auto simp: xy holds_ints_def list_all2_Cons2)
  have a: "holds_int a s" "0 \<le> s" "lanes_ok acc' ss" using Cons.prems(1) by (simp_all add: acc lanes_Cons)
  have sq: "0 \<le> (x - y) * (x - y)" by simp
  note pos = lanes_sum_nonneg [OF a(3)] squares_nonneg [of xs' ys']
  have le: "s + sum_list ss + (x - y) * (x - y) + squares xs' ys' \<le> 2 ^ 24" using Cons.prems(6) by (simp add: xy squares_Cons add_ac)
  have "s + (x - y) * (x - y) \<le> 2 ^ 24" using le pos by linarith
  from add_square_int [OF a(1) v(3,5) a(2) this] have new: "holds_int (add_square a (b, c)) (s + (x - y) * (x - y))" .
  have "sum_list ss + squares xs' ys' \<le> 2 ^ 24" using le a(2) sq by linarith
  from Cons.IH [OF a(3) v(4,6) _ _ this] Cons.prems(4,5) obtain ss' where
    ss': "lanes_ok (map2 add_square acc' (zip v1' v2')) ss'" "length ss' = length ss" "sum_list ss' = sum_list ss + squares xs' ys'"
    by (auto simp: xy)
  have "lanes_ok (map2 add_square acc (zip v1 v2)) ((s + (x - y) * (x - y)) # ss')"
    using new ss'(1) a(2) sq by (simp add: acc v lanes_Cons)
  then show ?case using ss'(2,3) by (intro exI [of _ "(s + (x - y) * (x - y)) # ss'"]) (simp add: xy squares_Cons)
qed

lemma add_blocks_int:
  "lanes_ok acc ss \<Longrightarrow> holds_ints v1 xs \<Longrightarrow> holds_ints v2 ys \<Longrightarrow> length xs = length ys \<Longrightarrow> n * length ss \<le> length xs \<Longrightarrow>
     sum_list ss + squares (take (n * length ss) xs) (take (n * length ss) ys) \<le> 2 ^ 24 \<Longrightarrow>
     \<exists>ss'. lanes_ok (add_blocks n acc v1 v2) ss' \<and> length ss' = length ss \<and>
       sum_list ss' = sum_list ss + squares (take (n * length ss) xs) (take (n * length ss) ys)"
proof (induction n arbitrary: acc ss v1 v2 xs ys)
  case 0
  then show ?case by (auto simp: squares_def)
next
  case (Suc n)
  let ?w = "length ss" and ?sq = "\<lambda>n xs ys. squares (take n xs) (take n ys)"
  have w: "length acc = ?w" using Suc.prems(1) by (auto simp: lanes_ok_def holds_ints_def dest: list_all2_lengthD)
  have split: "?sq (Suc n * ?w) xs ys = ?sq ?w xs ys + ?sq (n * ?w) (drop ?w xs) (drop ?w ys)"
  proof -
    have "take ?w (take (Suc n * ?w) zs) = take ?w zs" "drop ?w (take (Suc n * ?w) zs) = take (n * ?w) (drop ?w zs)" for zs :: "int list"
      by (simp_all add: drop_take min_absorb1)
    then show ?thesis using squares_split [of "take (Suc n * ?w) xs" "take (Suc n * ?w) ys" ?w] by (simp only:)
  qed
  have le: "sum_list ss + ?sq ?w xs ys \<le> 2 ^ 24"
    using Suc.prems(6) split squares_nonneg [of "take (n * ?w) (drop ?w xs)" "take (n * ?w) (drop ?w ys)"] by linarith
  from block_int [OF Suc.prems(1) holds_ints_take [OF Suc.prems(2), of ?w] holds_ints_take [OF Suc.prems(3), of ?w] _ _ this]
  obtain ss1 where ss1: "lanes_ok (map2 add_square acc (zip (take ?w v1) (take ?w v2))) ss1" "length ss1 = ?w"
    "sum_list ss1 = sum_list ss + ?sq ?w xs ys" using Suc.prems(4,5) by auto
  have "sum_list ss1 + ?sq (n * length ss1) (drop ?w xs) (drop ?w ys) \<le> 2 ^ 24" using Suc.prems(6) split ss1(2,3) by simp
  moreover have "length (drop ?w xs) = length (drop ?w ys)" "n * length ss1 \<le> length (drop ?w xs)" using Suc.prems(4,5) ss1(2) by simp_all
  ultimately obtain ss2 where ss2: "lanes_ok (add_blocks n (map2 add_square acc (zip (take ?w v1) (take ?w v2))) (drop ?w v1) (drop ?w v2)) ss2"
    "length ss2 = ?w" "sum_list ss2 = sum_list ss1 + ?sq (n * ?w) (drop ?w xs) (drop ?w ys)"
    using Suc.IH [OF ss1(1) holds_ints_drop [OF Suc.prems(2), of ?w] holds_ints_drop [OF Suc.prems(3), of ?w]] ss1(2) by auto
  have "lanes_ok (add_blocks (Suc n) acc v1 v2) ss2" using ss2(1) w by (simp add: Let_def)
  moreover have "sum_list ss2 = sum_list ss + ?sq (Suc n * ?w) xs ys" unfolding ss2(3) ss1(3) split by simp
  ultimately show ?case using ss2(2) by blast
qed

lemma sum_lanes_int:
  assumes "lanes_ok lanes ss" "ss \<noteq> []" "sum_list ss \<le> 2 ^ 24"
  shows "holds_int (sum_lanes lanes) (sum_list ss)"
proof -
  have *: "lanes_ok ls ss \<Longrightarrow> holds_int a s \<Longrightarrow> 0 \<le> s \<Longrightarrow> s + sum_list ss \<le> 2 ^ 24 \<Longrightarrow> holds_int (foldl f32_add a ls) (s + sum_list ss)"
    for ls a s ss
  proof (induction ls arbitrary: a s ss)
    case (Cons l ls)
    obtain t ts where ss: "ss = t # ts" using Cons.prems(1) by (cases ss) (auto simp: lanes_ok_def holds_ints_def)
    have l: "holds_int l t" "0 \<le> t" "lanes_ok ls ts" using Cons.prems(1) by (simp_all add: ss lanes_Cons)
    have "s + t \<le> 2 ^ 24" using Cons.prems(4) lanes_sum_nonneg [OF l(3)] by (simp add: ss)
    then have "holds_int (f32_add a l) (s + t)" using holds_add [OF Cons.prems(2) l(1)] Cons.prems(3) l(2) by simp
    then show ?case using Cons.IH [OF l(3), of "f32_add a l" "s + t"] Cons.prems(3,4) l(2) by (simp add: ss add.assoc)
  qed (simp add: lanes_ok_def holds_ints_def)
  obtain s ts where ss: "ss = s # ts" using assms(2) by (cases ss) auto
  obtain a ls where lanes: "lanes = a # ls" using assms(1) by (cases lanes) (auto simp: ss lanes_ok_def holds_ints_def)
  show ?thesis using * [of ls ts a s] assms(1,3) by (simp add: ss lanes lanes_Cons sum_lanes_def)
qed

lemma simd_int:
  assumes v: "holds_ints v1 xs" "holds_ints v2 ys" "length xs = length ys" and w: "0 < w" "n * w \<le> length xs"
    and le: "squares (take (n * w) xs) (take (n * w) ys) \<le> 2 ^ 24"
  shows "holds_int (sum_lanes (add_blocks n (replicate w 0) v1 v2)) (squares (take (n * w) xs) (take (n * w) ys))"
proof -
  have "lanes_ok (replicate w 0) (replicate w 0)"
    by (simp add: lanes_ok_def holds_ints_def list_all2_conv_all_nth holds_int_def)
  from add_blocks_int [OF this v, of n] w(2) le obtain ss where ss: "lanes_ok (add_blocks n (replicate w 0) v1 v2) ss" "length ss = w"
    "sum_list ss = squares (take (n * w) xs) (take (n * w) ys)" by (auto simp: sum_list_replicate)
  then show ?thesis using sum_lanes_int [OF ss(1)] w(1) le by auto
qed

lemma simd16_int:
  assumes v: "holds_ints v1 xs" "holds_ints v2 ys" "length xs = length ys" and q: "qty div 16 * 16 \<le> length xs"
    and le: "squares (take (qty div 16 * 16) xs) (take (qty div 16 * 16) ys) \<le> 2 ^ 24"
  shows "holds_int (l2_sqr_simd16 b c qty v1 v2) (squares (take (qty div 16 * 16) xs) (take (qty div 16 * 16) ys))"
proof -
  have n: "2 * (qty div 16) * 8 = qty div 16 * 16" "4 * (qty div 16) * 4 = qty div 16 * 16" by simp_all
  show ?thesis
    using simd_int [OF v, of 16 "qty div 16"] simd_int [OF v, of 8 "2 * (qty div 16)"] simd_int [OF v, of 4 "4 * (qty div 16)"] q le
    unfolding n by (auto simp: l2_sqr_simd16_def l2_sqr_simd16_avx512_def l2_sqr_simd16_avx_def l2_sqr_simd16_sse_def)
qed

lemma simd4_int:
  assumes v: "holds_ints v1 xs" "holds_ints v2 ys" "length xs = length ys" and q: "qty div 4 * 4 \<le> length xs"
    and le: "squares (take (qty div 4 * 4) xs) (take (qty div 4 * 4) ys) \<le> 2 ^ 24"
  shows "holds_int (l2_sqr_simd4 qty v1 v2) (squares (take (qty div 4 * 4) xs) (take (qty div 4 * 4) ys))"
  using simd_int [OF v _ q le] by (simp add: l2_sqr_simd4_def)

lemma residuals_int:
  assumes v: "holds_ints v1 xs" "holds_ints v2 ys" "length xs = length ys" and q: "qty = length xs" and le: "squares xs ys \<le> 2 ^ 24"
    and f: "\<And>m. m = qty div w * w \<Longrightarrow> squares (take m xs) (take m ys) \<le> 2 ^ 24 \<Longrightarrow>
      holds_int (f m v1 v2) (squares (take m xs) (take m ys))"
  shows "holds_int (l2_sqr_residuals f w qty v1 v2) (squares xs ys)"
proof -
  define m where "m = qty div w * w"
  let ?a = "squares (take m xs) (take m ys)" and ?b = "squares (drop m xs) (drop m ys)"
  have ab: "squares xs ys = ?a + ?b" "0 \<le> ?a" "0 \<le> ?b" using squares_split [of xs ys m] by simp_all
  have "?a \<le> 2 ^ 24" using ab le by linarith
  then have a: "holds_int (f m v1 v2) ?a" by (rule f [OF m_def])
  have "?b \<le> 2 ^ 24" using ab le by linarith
  then have b: "holds_int (l2_sqr (qty - m) (drop m v1) (drop m v2)) ?b"
    using l2_sqr_int [OF holds_ints_drop [OF v(1), of m] holds_ints_drop [OF v(2), of m], of "qty - m"] v(3) q by simp
  show ?thesis using holds_add [OF a b] ab le by (simp add: l2_sqr_residuals_def Let_def flip: m_def)
qed

lemma l2_space_int:
  assumes v: "holds_ints v1 xs" "holds_ints v2 ys" "length xs = length ys" and q: "dim = length xs" and le: "squares xs ys \<le> 2 ^ 24"
  shows "holds_int (l2_space b c dim v1 v2) (squares xs ys)"
proof -
  have scalar: "holds_int (l2_sqr dim v1 v2) (squares xs ys)" using l2_sqr_int [OF v, of dim] q v(3) le by simp
  have full: "dim mod w = 0 \<Longrightarrow> dim div w * w = length xs" for w using q by (auto simp: mult.commute)
  have all: "take (length xs) xs = xs" "take (length xs) ys = ys" using v(3) by simp_all
  have s16: "dim mod 16 = 0 \<Longrightarrow> holds_int (l2_sqr_simd16 b c dim v1 v2) (squares xs ys)"
    using simd16_int [OF v, of dim b c] full [of 16] le by (simp add: all)
  have s4: "dim mod 4 = 0 \<Longrightarrow> holds_int (l2_sqr_simd4 dim v1 v2) (squares xs ys)"
    using simd4_int [OF v, of dim] full [of 4] le by (simp add: all)
  have r16: "holds_int (l2_sqr_residuals (l2_sqr_simd16 b c) 16 dim v1 v2) (squares xs ys)"
  proof (rule residuals_int [OF v q le])
    fix m assume m: "m = dim div 16 * 16" and "squares (take m xs) (take m ys) \<le> 2 ^ 24"
    moreover have "m div 16 * 16 = m" by (simp add: m)
    moreover have "m \<le> length xs" using q by (simp add: m)
    ultimately show "holds_int (l2_sqr_simd16 b c m v1 v2) (squares (take m xs) (take m ys))" using simd16_int [OF v, of m b c] by simp
  qed
  have r4: "holds_int (l2_sqr_residuals l2_sqr_simd4 4 dim v1 v2) (squares xs ys)"
  proof (rule residuals_int [OF v q le])
    fix m assume m: "m = dim div 4 * 4" and "squares (take m xs) (take m ys) \<le> 2 ^ 24"
    moreover have "m div 4 * 4 = m" by (simp add: m)
    moreover have "m \<le> length xs" using q by (simp add: m)
    ultimately show "holds_int (l2_sqr_simd4 m v1 v2) (squares (take m xs) (take m ys))" using simd4_int [OF v, of m] by simp
  qed
  show ?thesis using scalar s16 s4 r16 r4 by (simp add: l2_space_def)
qed

section \<open>A metric\<close>

text \<open>For all floats: the distance is symmetric bit by bit, never negative, and zero between a finite vector and itself.\<close>

lemma f32_int_sign: "0 < f32_int w \<Longrightarrow> \<not> f32_neg w" "f32_int w < 0 \<Longrightarrow> f32_neg w"
  by (auto simp: f32_int_def split: if_splits)

lemma f32_sub_swap: "f32_bits (f32_sub a b) = f32_bits (f32_sub b a)"
proof -
  have s: "f32_int a - f32_int b = - (f32_int b - f32_int a)" by simp
  show ?thesis
    using mk_f32_sel(2) [of 0] f32_pack_sel(2) abs_minus_commute [of "f32_int a" "f32_int b"]
    by (auto simp: f32_sub_def f32_add_def Let_def f32_is_inf_def)
qed

lemma square_bits: "f32_bits s = f32_bits t \<Longrightarrow> f32_mul s s = f32_mul t t"
  by (simp add: f32_mul_def Let_def f32_is_nan_def f32_is_inf_def)

lemma add_square_swap: "add_square acc (a, b) = add_square acc (b, a)"
  using square_bits [OF f32_sub_swap [of a b]] by (simp add: add_square_def Let_def)

lemma foldl_add_square_swap: "foldl add_square acc (zip v1 v2) = foldl add_square acc (zip v2 v1)"
  by (induction v1 v2 arbitrary: acc rule: list_induct2') (simp_all add: add_square_swap)

lemma map_add_square_swap: "map2 add_square acc (zip v1 v2) = map2 add_square acc (zip v2 v1)"
proof (induction v1 v2 arbitrary: acc rule: list_induct2')
  case (4 x xs y ys)
  then show ?case by (cases acc) (simp_all add: add_square_swap)
qed simp_all

lemma add_blocks_swap: "add_blocks n acc v1 v2 = add_blocks n acc v2 v1"
proof (induction n arbitrary: acc v1 v2)
  case (Suc n)
  show ?case by (simp add: Let_def map_add_square_swap [of acc "take (length acc) v1"] Suc.IH [of _ "drop (length acc) v1"])
qed simp

lemma l2_sqr_swap: "l2_sqr qty v1 v2 = l2_sqr qty v2 v1"
  by (simp add: l2_sqr_def foldl_add_square_swap)

lemma simd_swap: "l2_sqr_simd16 b c qty v1 v2 = l2_sqr_simd16 b c qty v2 v1" "l2_sqr_simd4 qty v1 v2 = l2_sqr_simd4 qty v2 v1"
  by (simp_all add: l2_sqr_simd16_def l2_sqr_simd16_avx512_def l2_sqr_simd16_avx_def l2_sqr_simd16_sse_def l2_sqr_simd4_def
      add_blocks_swap [of _ _ v1])

lemma l2_space_swap: "l2_space b c dim v1 v2 = l2_space b c dim v2 v1"
  unfolding l2_space_def l2_sqr_residuals_def Let_def
  by (simp add: l2_sqr_swap [of _ v1 v2] l2_sqr_swap [of _ "drop _ v1" "drop _ v2"] simd_swap(1) [of b c _ v1 v2] simd_swap(2) [of _ v1 v2])

lemma f32_add_nonneg: "\<not> f32_neg a \<Longrightarrow> \<not> f32_neg b \<Longrightarrow> \<not> f32_neg (f32_add a b)"
proof -
  assume ab: "\<not> f32_neg a" "\<not> f32_neg b"
  then have "0 \<le> f32_int a + f32_int b" by (simp add: f32_int_def)
  then show ?thesis using ab mk_f32_sel(1) [of 0] f32_pack_sel(1) by (auto simp: f32_add_def Let_def)
qed

lemma f32_square_nonneg: "\<not> f32_neg (f32_mul t t)"
  using mk_f32_sel(1) [of inf_bits] f32_pack_sel(1) by (simp add: f32_mul_def Let_def)

lemma add_square_nonneg: "\<not> f32_neg acc \<Longrightarrow> \<not> f32_neg (add_square acc p)"
  by (simp add: add_square_def Let_def f32_add_nonneg f32_square_nonneg)

lemma foldl_nonneg: "(\<And>a x. \<not> f32_neg a \<Longrightarrow> x \<in> set xs \<Longrightarrow> \<not> f32_neg (f a x)) \<Longrightarrow> \<not> f32_neg a \<Longrightarrow> \<not> f32_neg (foldl f a xs)"
  by (induction xs arbitrary: a) auto

lemma add_blocks_nonneg: "\<forall>s \<in> set acc. \<not> f32_neg s \<Longrightarrow> \<forall>s \<in> set (add_blocks n acc v1 v2). \<not> f32_neg s"
proof (induction n arbitrary: acc v1 v2)
  case (Suc n)
  let ?acc = "map2 add_square acc (zip (take (length acc) v1) (take (length acc) v2))"
  have "\<forall>s \<in> set ?acc. \<not> f32_neg s" using Suc.prems by (auto simp: add_square_nonneg dest: set_zip_leftD)
  from Suc.IH [OF this] show ?case by (simp add: Let_def)
qed simp

lemma length_add_blocks: "0 < length acc \<Longrightarrow> n * length acc \<le> length v1 \<Longrightarrow> n * length acc \<le> length v2 \<Longrightarrow> length (add_blocks n acc v1 v2) = length acc"
proof (induction n arbitrary: acc v1 v2)
  case (Suc n)
  then show ?case using Suc.IH [of "map2 add_square acc (zip (take (length acc) v1) (take (length acc) v2))" "drop (length acc) v1" "drop (length acc) v2"]
    by (simp add: Let_def)
qed simp

lemma l2_sqr_nonneg: "\<not> f32_neg (l2_sqr qty v1 v2)"
  unfolding l2_sqr_def by (rule foldl_nonneg) (simp_all add: add_square_nonneg)

lemma simd_nonneg:
  assumes "0 < w" "n * w \<le> length v1" "n * w \<le> length v2"
  shows "\<not> f32_neg (sum_lanes (add_blocks n (replicate w 0) v1 v2))"
proof -
  let ?l = "add_blocks n (replicate w 0) v1 v2"
  have "\<forall>s \<in> set ?l. \<not> f32_neg s" by (rule add_blocks_nonneg) simp
  moreover have "?l \<noteq> []" using length_add_blocks [of "replicate w 0" n v1 v2] assms by (auto simp flip: length_greater_0_conv)
  ultimately show ?thesis unfolding sum_lanes_def
    by (intro foldl_nonneg) (auto simp: f32_add_nonneg dest: list.set_sel)
qed

lemma simd16_nonneg: "qty div 16 * 16 \<le> length v1 \<Longrightarrow> qty div 16 * 16 \<le> length v2 \<Longrightarrow> \<not> f32_neg (l2_sqr_simd16 b c qty v1 v2)"
  using simd_nonneg [of 16 "qty div 16" v1 v2] simd_nonneg [of 8 "2 * (qty div 16)" v1 v2] simd_nonneg [of 4 "4 * (qty div 16)" v1 v2]
  by (simp add: l2_sqr_simd16_def l2_sqr_simd16_avx512_def l2_sqr_simd16_avx_def l2_sqr_simd16_sse_def)

lemma simd4_nonneg: "qty div 4 * 4 \<le> length v1 \<Longrightarrow> qty div 4 * 4 \<le> length v2 \<Longrightarrow> \<not> f32_neg (l2_sqr_simd4 qty v1 v2)"
  using simd_nonneg [of 4 "qty div 4" v1 v2] by (simp add: l2_sqr_simd4_def)

lemma l2_space_nonneg:
  assumes "dim \<le> length v1" "dim \<le> length v2"
  shows "\<not> f32_neg (l2_space b c dim v1 v2)"
proof -
  have le: "dim div w * w \<le> length v1" "dim div w * w \<le> length v2" for w using assms by (simp_all add: order_trans [OF div_times_less_eq_dividend])
  have same: "dim div w * w div w * w = dim div w * w" for w by (cases "w = 0") simp_all
  show ?thesis
    unfolding l2_space_def l2_sqr_residuals_def Let_def
    using simd16_nonneg [of dim v1 v2] simd4_nonneg [of dim v1 v2] simd16_nonneg [of "dim div 16 * 16" v1 v2] simd4_nonneg [of "dim div 4 * 4" v1 v2] le
    by (simp add: same l2_sqr_nonneg f32_add_nonneg)
qed

text \<open>A vector and itself.\<close>

lemma f32_sub_self: "f32_is_finite x \<Longrightarrow> f32_sub x x = 0"
  by (simp add: f32_sub_def f32_add_def f32_class Let_def) (simp add: mk_f32_def)

lemma f32_square_zero: "f32_mul 0 0 = 0"
proof -
  have "f32_mul 0 0 = f32_pack False (round_bits 0 (2 ^ 298))" by (simp add: f32_mul_def Let_def bits_mag_def bits_mant_def)
  also have "round_bits 0 (2 ^ 298) = 0" by (rule round_bits_exact) (simp_all add: bits_mag_def bits_mant_def)
  finally show ?thesis by (simp add: f32_pack_def mk_f32_def)
qed

lemma f32_add_zero [simp]: "f32_add 0 0 = 0"
  by (simp add: f32_add_def Let_def) (simp add: mk_f32_def)

lemma add_square_self: "f32_is_finite x \<Longrightarrow> add_square 0 (x, x) = 0"
  by (simp add: add_square_def Let_def f32_sub_self f32_square_zero)

lemma foldl_fixed: "(\<And>x. x \<in> set xs \<Longrightarrow> f a x = a) \<Longrightarrow> foldl f a xs = a"
  by (induction xs) auto

lemma l2_sqr_self: "\<forall>x \<in> set v. f32_is_finite x \<Longrightarrow> l2_sqr qty v v = 0"
  unfolding l2_sqr_def
proof (rule foldl_fixed)
  fix p assume fin: "\<forall>x \<in> set v. f32_is_finite x" and "p \<in> set (zip (take qty v) (take qty v))"
  then obtain x where "p = (x, x)" "x \<in> set (take qty v)" by (cases p) (simp add: zip_same)
  then show "add_square 0 p = 0" using fin in_set_takeD [of x qty v] by (simp add: add_square_self)
qed

lemma add_blocks_self: "\<forall>x \<in> set v. f32_is_finite x \<Longrightarrow> n * w \<le> length v \<Longrightarrow> add_blocks n (replicate w 0) v v = replicate w 0"
proof (induction n arbitrary: v)
  case (Suc n)
  have fin: "\<forall>x \<in> set (take w v). f32_is_finite x" "\<forall>x \<in> set (drop w v). f32_is_finite x"
    using Suc.prems(1) by (auto dest: in_set_takeD in_set_dropD)
  have "map2 add_square (replicate w 0) (zip (take w v) (take w v)) = replicate w 0"
  proof (rule nth_equalityI)
    fix i assume "i < length (map2 add_square (replicate w 0) (zip (take w v) (take w v)))"
    then have i: "i < w" "i < length (take w v)" by simp_all
    then have "f32_is_finite (take w v ! i)" using fin(1) nth_mem by blast
    then show "map2 add_square (replicate w 0) (zip (take w v) (take w v)) ! i = replicate w 0 ! i"
      using i by (simp add: add_square_self)
  qed (use Suc.prems(2) in simp)
  then show ?case using Suc.IH [OF fin(2)] Suc.prems(2) by (simp add: Let_def)
qed simp

lemma simd_self: "\<forall>x \<in> set v. f32_is_finite x \<Longrightarrow> 0 < w \<Longrightarrow> n * w \<le> length v \<Longrightarrow> sum_lanes (add_blocks n (replicate w 0) v v) = 0"
  unfolding add_blocks_self sum_lanes_def by (cases w) (auto intro: foldl_fixed)

lemma l2_space_self:
  assumes fin: "\<forall>x \<in> set v. f32_is_finite x" and dim: "dim \<le> length v"
  shows "l2_space b c dim v v = 0"
proof -
  have le: "dim div w * w \<le> length v" for w using dim by (simp add: order_trans [OF div_times_less_eq_dividend])
  have fin': "\<forall>x \<in> set (drop n v). f32_is_finite x" for n using fin by (auto dest: in_set_dropD)
  have s16: "l2_sqr_simd16 b c qty v v = 0" if "qty div 16 * 16 \<le> length v" for qty
    using that simd_self [OF fin, of 16 "qty div 16"] simd_self [OF fin, of 8 "2 * (qty div 16)"] simd_self [OF fin, of 4 "4 * (qty div 16)"]
    by (simp add: l2_sqr_simd16_def l2_sqr_simd16_avx512_def l2_sqr_simd16_avx_def l2_sqr_simd16_sse_def)
  have s4: "l2_sqr_simd4 qty v v = 0" if "qty div 4 * 4 \<le> length v" for qty
    using that simd_self [OF fin, of 4 "qty div 4"] by (simp add: l2_sqr_simd4_def)
  show ?thesis
    unfolding l2_space_def l2_sqr_residuals_def Let_def using le [of 16] le [of 4]
    by (simp add: s16 s4 l2_sqr_self [OF fin] l2_sqr_self [OF fin'])
qed

section \<open>Properties\<close>

text \<open>C9. The distance of two vectors of integers is exact as long as it is at most \<open>2 ^ 24\<close>: whatever the build and the processor, and for every
  dimension, the variant that \<open>L2Space\<close> selects returns the float whose value is the sum of the squared differences, so that full
  blocks, lanes and residuals together use every component once.\<close>

theorem l2_exact:
  assumes "list_all2 holds_int q xs" and "list_all2 holds_int v ys" and "length xs = length ys" and "squares xs ys \<le> 2 ^ 24"
  shows "holds_int (l2_metric b c q v) (\<Sum>(x, y) \<leftarrow> zip xs ys. (x - y) * (x - y))"
  using l2_space_int [of q xs v ys "length v" b c] assms by (simp add: holds_ints_def l2_metric_def squares_def list_all2_lengthD)

theorem l2_exact_witness:
  "holds_int (l2_metric Use_AVX \<lparr>avx_capable = True, avx512_capable = False\<rparr> [0x40000000, 0, 0, 0x40400000] [0, 0, 0x3F800000, 0]) 14"
proof -
  have i: "holds_int 0 0" "holds_int 0x40000000 2" "holds_int 0x40400000 3" "holds_int 0x3F800000 1"
    by (simp_all add: holds_int_def f32_is_finite_def f32_int_def f32_neg_def f32_bits_def bits_mag_def bits_mant_def bits_scale_def)
  show ?thesis using l2_exact [of "[0x40000000, 0, 0, 0x40400000]" "[2, 0, 0, 3]" "[0, 0, 0x3F800000, 0]" "[0, 0, 1, 0]" Use_AVX "\<lparr>avx_capable = True, avx512_capable = False\<rparr>"] i
    by (simp add: squares_def)
qed



end
