(* ===== verification/Spec2Isabelle.thy ===== *)
theory Spec2Isabelle
  imports System Aof Http_Pool Hnsw_Index L2_Space
begin

text \<open>
  redis-llm: a Redis module with vector stores, models of large language models (LLM) and applications.
  This library models the C++ under \<open>src/sw/redis-llm\<close> and the parts of \<open>deps/hnswlib\<close> and
  \<open>deps/nlohmann\<close> that it relies on, and proves what makes them correct.

  \<^bold>\<open>The program.\<close>  A client creates an LLM, a vector store or an application under a key (\<open>LLM.CREATE-*\<close>),
  adds, removes, reads and searches the items of a store (\<open>LLM.ADD\<close>, \<open>REM\<close>, \<open>GET\<close>, \<open>SIZE\<close>, \<open>KNN\<close>) and runs an
  application (\<open>LLM.RUN\<close>).  What needs the network is a task of the worker pool; the client blocks until
  the task has unblocked it, and the reply function then sends the effect to the replicas.  Stores are saved
  in RDB files and rewritten to the AOF.

  \<^bold>\<open>Theories, from the bottom.\<close>
  \<^item> \<open>Prelude\<close>: exceptions (\<open>errors.h\<close>) as the datatype \<open>exn\<close>, results \<open>exn + 'a\<close>, state actions (\<open>act\<close>), the calculi
    \<open>fails\<close> and \<open>obeys\<close> of what a computation may throw and keeps; association lists for unordered maps.
  \<^item> \<open>Cxx_Std\<close>: \<open>std::stoul\<close>, decimal numerals, character classes.  \<open>Float32\<close>: binary32 values, \<open>std::stof\<close>,
    printing with six decimals, rounding, the canonical embedding.  \<open>Utils\<close>: \<open>utils.cpp\<close>.
  \<^item> \<open>Json\<close>: \<open>json\<close> values and the accessors of \<open>json.hpp\<close> with their exceptions.  \<open>Llm_Info\<close>: \<open>LlmInfo\<close>.
  \<^item> JSON text: \<open>Json_Lexer\<close> (class \<open>lexer\<close>), \<open>Json_Parser\<close> (the loop of \<open>parser\<close> with its stack and its messages), \<open>Grisu\<close>
    (namespace \<open>dtoa_impl\<close>: printing doubles with 64-bit words and a table of powers of ten), \<open>Json_Dump\<close> (class \<open>serializer\<close>).
    \<open>Grisu_Digits\<close>, \<open>Grisu_Powers\<close>, \<open>Grisu_Bounds\<close>: no overflow, accuracy of the table, at most 17 digits strictly between the
    boundaries of the double; \<open>Number_Roundtrip\<close>: such digits are read as that double.  \<open>Json_Strings\<close>, \<open>Json_Tokens\<close>,
    \<open>Json_Roundtrip\<close>, \<open>Json_Printable\<close>: what was written is read back, what was read can be written; UTF-8.  \<open>Json_Text\<close>: the
    text form \<open>nlohmann_json\<close> and its properties.
  \<^item> \<open>Vector_Index\<close> (locales \<open>vector_index\<close>, \<open>knn_index\<close>: what a store relies on), \<open>Vector_Store\<close> (\<open>vector_store.cpp\<close>, its
    abstract specification \<open>vs_items\<close> and the refinement), \<open>Hnswlib\<close> and \<open>Hnsw_Search\<close> (\<open>hnswalg.h\<close>: elements,
    labels, deletion marks, the base-layer search and \<open>searchKnn\<close>), \<open>Hnsw\<close> (\<open>hnsw.cpp\<close>; the interpretation
    \<open>hx\<close> of the locales on it).
  \<^item> The graph of the index: \<open>Hnsw_Graph\<close> (\<open>hnswalg.h\<close>: link lists, descent, choice of neighbours, insertion, update and repair, as the operations
    \<open>hnswlib_ops\<close>), \<open>Hnsw_Links\<close> and \<open>Hnsw_Update\<close> (well-formed graphs and what keeps them so), \<open>Hnsw_Index\<close> (the states of an
    index with its graph; the locale \<open>search_graph\<close>, what a search needs of a graph, and its interpretation \<open>hg\<close>).
    \<open>L2_Space\<close>: \<open>space_l2.h\<close>, the distance in its scalar and vectorised variants, over binary32 arithmetic.
  \<^item> \<open>Worker_Pool\<close>: \<open>worker_pool.cpp\<close> as a step relation.  \<open>Http_Client\<close>, \<open>Http_Pool\<close>: \<open>http_client.cpp\<close>, one client and
    the pool with its threads.  \<open>Llm_Models\<close>: \<open>openai\<close>, \<open>azure_openai\<close>, \<open>llama_cpp\<close>, \<open>openai_embedding\<close> and the factories.
  \<^item> \<open>Application\<close>: \<open>prompt\<close>, \<open>chat_history\<close> and the classes of applications.  \<open>Command_Args\<close>: the parsers of all
    commands and of the module options.  \<open>Redis_Llm\<close>: keys, the object pool and the factories of \<open>redis_llm.cpp\<close>
    and \<open>module_api.cpp\<close>, and the invariant \<open>redis_inv\<close>.  \<open>App_Run\<close>: running an application (locale
    \<open>run_property\<close>).  \<open>Commands\<close>: the bodies, tasks and replies of the commands (locale \<open>command_property\<close>).
    \<open>Persistence\<close>: the RDB and AOF callbacks.  \<open>System\<close>: the module inside the server, events in any order.
  \<^item> \<open>Rdb_Roundtrip\<close>, \<open>Command_Facts\<close>, \<open>Command_Errors\<close>, \<open>Aof\<close>: what persistence and whole commands do.  This theory: the
    properties that span all of them.

  \<^bold>\<open>Correspondence.\<close>  A function keeps its name where the name is free (prefixes \<open>vs_\<close>, \<open>wp_\<close>, \<open>hnsw_\<close>, \<open>http_\<close> for members).
  Objects are shared pointers, so they live in a heap (\<open>rd_stores\<close>, \<open>rd_llms\<close>, \<open>rd_apps\<close>) and are named by numbers;
  a number is never used again.  A throw is \<open>Inl\<close>; undefined behaviour, a terminated process and an endless
  wait are the exceptions \<open>Undefined\<close>, \<open>Abort\<close>, \<open>Blocked\<close>, which no handler takes.  A mutex makes an operation
  one step.  Integers are words of their width; floats are bit patterns.

  \<^bold>\<open>Loops.\<close>  Every loop of the source is a total recursive function: over the arguments, over the items, or (the
  search of the index) over a measure that counts the elements not yet visited, or (the lexer and the parser of JSON) over the
  input that is left; no fuel is used.  The loops of Grisu2 that only arithmetic bounds are partial functions into
  \<open>option\<close>, and \<open>float_text\<close> shows that they return.

  \<^bold>\<open>Parameters.\<close>  \<open>graph_ops\<close>: the graph of the index; what is proved on stores and commands holds for every graph, what
  \<open>Hnsw_Index\<close> proves is about the one of the code, \<open>hnswlib_ops\<close>.  Its own parameter \<open>graph_env\<close> has the distance (\<open>L2_Space\<close> has the one of the code, \<open>l2_metric\<close>), the random
  levels (\<open>double\<close> logarithms of a random engine), the iteration order of \<open>std::unordered_set\<close> and whether the allocation of the index succeeds; the link lists
  of single elements are taken to be allocated.  \<open>json_text\<close>: the text form of JSON; most
  theorems hold for any that throws only \<open>json::exception\<close> (\<open>json_text_ok\<close>), those on persistence for the library's own,
  \<open>nlohmann_json\<close>, which is one (\<open>nlohmann_json_ok\<close>).  \<open>inja\<close>: parsing and rendering of templates.  \<open>outside\<close>: clock and \<open>libcurl\<close>.

  \<^bold>\<open>Not modelled.\<close>  The recall of the search; of \<open>hnswalg.h\<close> what the module does not call (saving and loading, resizing, replacement of deleted
  elements, filters); \<open>space_ip.h\<close>, which the module does not use; of \<open>json.hpp\<close> what the module does not call: pretty printing, the error
  handlers \<open>ignore\<close> and \<open>replace\<close>, callbacks, comments, binary formats, and locales whose decimal point is not a point; \<open>inja.hpp\<close>; registration of types and commands
  (\<open>module_entry.cpp\<close>, \<open>redismodule.h\<close>); the commands RENAME and COPY of the server; interleavings inside a task (its
  operations are serialised by the locks of the store, the model and the history, but two tasks may
  alternate between them).
\<close>

section \<open>Runs of the module\<close>

lemma sample_load: "redis_load [] () = Inr st \<Longrightarrow> rd_keys st = Map.empty \<and> rd_workers st = worker_pool_new worker_pool_opts_default"
  by (auto simp: redis_load_def options_load_def)

lemma sample_run:
  "\<exists>st. redis_load [] () = Inr st \<and> sys_run sample_ext (sys_start st) [Command [''LLM.SIZE'', ''k''], DeleteKey ''k''] (sys_start (delete_key ''k'' st))"
proof -
  obtain st :: "(nat, unit) redis" where st: "redis_load [] () = Inr st" by (simp add: redis_load_def options_load_def)
  have k: "rd_keys st ''k'' = None" using sample_load [OF st] by simp
  have "exec_command sample_ext [''LLM.SIZE'', ''k''] st = (Inr (RLong 0), st)"
    by (simp add: exec_command_eq [OF find_command_simps(11)] size_command_def size_parse_args_def askS_def k)
  then have "sys_step sample_ext (sys_start st) (Command [''LLM.SIZE'', ''k'']) (sys_start st)"
    using sys_step.command [of sample_ext "[''LLM.SIZE'', ''k'']" "sys_start st"] by (simp add: sys_start_def)
  moreover have "sys_step sample_ext (sys_start st) (DeleteKey ''k'') (sys_start (delete_key ''k'' st))"
    using sys_step.delete [of sample_ext "sys_start st" "''k''"] by (simp add: sys_start_def)
  ultimately show ?thesis using st sys_run_Cons sys_run_one by blast
qed

text \<open>C1. The invariant of the module: after any interleaving of commands, tasks, replies, timeouts, disconnections and key deletions, every key of
  a module type holds an existing object of that type, no two keys share one, the object pool is exactly
  the set of the objects that keys hold, and every vector store and every LLM model is consistent.\<close>

theorem module_invariant:
  assumes "json_text_ok (ex_json X)" and "redis_load argv w = Inr st" and "sys_run X (sys_start st) es sy"
  shows "redis_inv (sy_redis sy) \<and>
    (\<forall>k so s. key_store (sy_redis sy) k so s \<longrightarrow> so \<in> rd_object_pool (sy_redis sy) \<and> length (vs_data s) \<le> unat (o_max_elements (hx_opts (vs_index s))))"
proof -
  have inv: "redis_inv (sy_redis sy)" by (rule sys_run_inv [OF assms(3,1) sys_start_ok(1) [OF assms(2)]])
  have "so \<in> rd_object_pool (sy_redis sy) \<and> length (vs_data s) \<le> unat (o_max_elements (hx_opts (vs_index s)))"
    if ks: "key_store (sy_redis sy) k so s" for k so s
  proof -
    have "key_oid (rd_keys (sy_redis sy)) k = Some so" using ks by (simp add: key_store_def key_oid_def)
    moreover have "store_ok s" using ks inv by (auto simp: key_store_def redis_inv_def objects_ok_def)
    ultimately show ?thesis using key_oid_ok(2) [OF inv] store_size_bound by blast
  qed
  then show ?thesis using inv by blast
qed

theorem module_invariant_witness:
  "\<exists>st. redis_load [] () = Inr st \<and> redis_inv (sy_redis (sys_start (delete_key ''k'' st) :: (nat, unit) system))"
  using sample_run module_invariant [OF _ _, of sample_ext "[]" "()"] sample_json_ok by fastforce





text \<open>C3. A vector store written to an RDB file and read back, by a server with the same or with another graph: the same items under the same identifiers,
  the same identifier counter, type, configuration and LLM; only the dimension of a store that has become
  empty is forgotten.  (The configuration and the parameters of the LLM are values that their JSON text keeps, which
  every value parsed from a text is up to \<open>-0\<close>, and the index of the reader must be allocatable.)\<close>

theorem rdb_store_roundtrip:
  fixes s :: "'g hnsw_ix vector_store" and X :: "('g2, 'w) ext"
  assumes "store_live s" and "vs_dim s < 2 ^ 61"
    and "ex_json X = nlohmann_json" and "textual (vs_conf s)" and "llm_info_textual (vs_llm s)"
    and "vs_data s \<noteq> [] \<Longrightarrow> can_alloc (ex_graph X) (vs_dim s) (hx_opts (vs_index s))"
  shows "\<exists>toks st' s'. rdb_save_vector_store (hnsw_ops G) nlohmann_json s [] = (Inr (), toks) \<and>
    rdb_load 0 (rdb_load_vector_store X toks) st = (Inr (Some (rd_next st)), st') \<and> rd_stores st' (rd_next st) = Some s' \<and>
    store_live s' \<and> store_items s' = store_items s \<and> vs_type s' = vs_type s \<and> vs_conf s' = vs_conf s \<and> vs_llm s' = vs_llm s \<and>
    vs_id_idx s' = vs_id_idx s \<and> vs_dim s' = (if vs_data s = [] then 0 else vs_dim s)"
proof -
  obtain c where c: "jdump nlohmann_json (vs_conf s) = Inr c" "jparse (ex_json X) c = Inr (vs_conf s)"
    using dump_textual [OF assms(4)] assms(3) by (auto simp: nlohmann_json_def)
  obtain l where l: "llm_info_to_string nlohmann_json (vs_llm s) = Inr l" "llm_info_of (ex_json X) l = Inr (vs_llm s)"
    using llm_info_text [OF assms(5)] assms(3) by auto
  show ?thesis using rdb_save_store_eq [OF assms(1) c(1) l(1), of G] rdb_load_store_ok [OF assms(1,2) c(2) l(2), of st] assms(6) by blast
qed

theorem rdb_store_roundtrip_witness:
  "\<exists>s toks st' s'. store_items s 7 = Some (''text'', [0x3F800000]) \<and> rdb_save_vector_store (hnsw_ops sample_graph) nlohmann_json s [] = (Inr (), toks) \<and>
    rdb_load 0 (rdb_load_vector_store (sample_ext\<lparr>ex_json := nlohmann_json\<rparr>) toks) sample_redis = (Inr (Some 2), st') \<and> rd_stores st' 2 = Some s' \<and> store_items s' = store_items s"
proof -
  let ?llm = "\<lparr>li_key = ''m'', li_params = JObject []\<rparr>"
  let ?X = "sample_ext\<lparr>ex_json := nlohmann_json\<rparr>"
  obtain s0 where add: "vs_add (hnsw_ops sample_graph) 7 ''text'' [0x3F800000] sample_store = (Inr 7, s0)" and live: "store_live s0"
    and items: "store_items s0 = (store_items sample_store)(7 \<mapsto> (''text'', [0x3F800000]))" and dim: "vs_dim s0 = 1"
    and frame: "same_frame sample_store s0"
    by (rule vs_add_ok [OF sample_store_live _ sample_capacity(1), of sample_graph "[0x3F800000]" 7 "''text''"])
      (simp_all add: sample_capacity(2))
  let ?s = "s0\<lparr>vs_llm := ?llm\<rparr>"
  have live': "store_live ?s"
    using live by (simp add: store_live_def store_ok_def vs_inv_def hx_broken_def hx_conf_ok_def)
  have items': "store_items ?s 7 = Some (''text'', [0x3F800000])" using items by (simp add: vs_items_def fun_eq_iff)
  have conf: "vs_conf ?s = JObject []" using vs_add_frame [OF add] by (simp add: sample_store_def vs_create_def)
  have "can_alloc sample_graph (vs_dim ?s) (hx_opts (vs_index ?s))"
    using sample_capacity(2) [of 1] frame dim by (simp add: same_frame_def accepts_dim_def sample_store_def vs_create_def)
  moreover have "utf8_valid ''m''" by (rule utf8_valid_ascii_text) (simp add: byte_def)
  then have "llm_info_textual ?llm" "textual (JObject [])" by (simp_all add: llm_info_textual_def textual_def utf8_valid_iff)
  moreover have "rd_next sample_redis = 2" by (simp add: sample_redis_def)
  ultimately obtain toks st' s' where "rdb_save_vector_store (hnsw_ops sample_graph) nlohmann_json ?s [] = (Inr (), toks)"
    "rdb_load 0 (rdb_load_vector_store ?X toks) sample_redis = (Inr (Some 2), st')" "rd_stores st' 2 = Some s'" "store_items s' = store_items ?s"
    using rdb_store_roundtrip [OF live', of ?X sample_graph sample_redis] dim conf by auto
  then show ?thesis using items' by blast
qed

end
